(* ===== verification/Prelude.thy ===== *)
theory Prelude
  imports Main "HOL-Library.Word" "HOL-Library.Sublist"
begin

text \<open>
  Shared vocabulary of the development: the machine types of the C sources, the
  three-character windows of a text, and the lemmas on factors (contiguous sublists)
  and on pointwise matching that the component theories use.

  A text is the list of its characters; a character is an \<open>int\<close> because the C code
  carries characters as \<open>int32\<close> and reserves the negative values for end of stream,
  run separators and errors.
\<close>

unbundle bit_operations_syntax

type_synonym uint8 = "8 word"
type_synonym uint16 = "16 word"
type_synonym uint32 = "32 word"
type_synonym uint64 = "64 word"
type_synonym codepoint = int
type_synonym trigram = "int \<times> int \<times> int"

named_theorems factor_intros \<open>introduction rules for contiguous sublists\<close>
named_theorems query_simps \<open>unfolding of the trigram-query record constructors\<close>

abbreviation INT32_MAX :: int where
  "INT32_MAX \<equiv> 2147483647"

text \<open>\<open>MAXALIGN\<close> with the server's maximum alignment of eight bytes.\<close>

definition MAXALIGN :: "nat \<Rightarrow> nat" where
  "MAXALIGN n = (n + 7) div 8 * 8"

lemma MAXALIGN_ge: "n \<le> MAXALIGN n"
proof -
  have "(n + 7) div 8 * 8 + (n + 7) mod 8 = n + 7" by (rule div_mult_mod_eq)
  moreover have "(n + 7) mod 8 < 8" by simp
  ultimately show ?thesis unfolding MAXALIGN_def by linarith
qed

lemma unat_of_nat32: "n < 2 ^ 32 \<Longrightarrow> unat (word_of_nat n :: uint32) = n"
  by (simp add: unat_of_nat take_bit_nat_eq_self)

section \<open>Windows of three characters\<close>

text \<open>
  Every tokenizer of the sources (index build, insert, trigram query) slides a window of
  three characters over a sequence; \<open>windows3\<close> lists them in order.
\<close>

fun windows3 :: "'a list \<Rightarrow> ('a \<times> 'a \<times> 'a) list" where
  "windows3 (a # b # c # xs) = (a, b, c) # windows3 (b # c # xs)"
| "windows3 xs = []"

lemma windows3_sublist: "(a, b, c) \<in> set (windows3 xs) \<longleftrightarrow> sublist [a, b, c] xs"
  by (induction xs rule: windows3.induct) (auto simp: sublist_Cons_right)

lemma length_windows3: "length (windows3 xs) = length xs - 2"
  by (induction xs rule: windows3.induct) auto

lemma nth_windows3:
  "i + 2 < length xs \<Longrightarrow> windows3 xs ! i = (xs ! i, xs ! (i + 1), xs ! (i + 2))"
proof (induction xs arbitrary: i rule: windows3.induct)
  case (1 a b c xs)
  show ?case
  proof (cases i)
    case 0
    then show ?thesis by simp
  next
    case (Suc j)
    with 1 show ?thesis by simp
  qed
qed auto

lemma windows3_conv_nth:
  "windows3 xs = map (\<lambda>w. (xs ! w, xs ! (w + 1), xs ! (w + 2))) [0..<length xs - 2]"
  by (rule nth_equalityI) (auto simp: length_windows3 nth_windows3)

lemma set_windows3_mono: "sublist xs ys \<Longrightarrow> set (windows3 xs) \<subseteq> set (windows3 ys)"
proof
  fix t assume sub: "sublist xs ys" and t: "t \<in> set (windows3 xs)"
  obtain a b c where [simp]: "t = (a, b, c)" by (cases t)
  from t have "sublist [a, b, c] xs" by (simp add: windows3_sublist)
  with sub show "t \<in> set (windows3 ys)"
    using sublist_order.order.trans by (auto simp: windows3_sublist)
qed

section \<open>Factors\<close>

lemma sublist_trans: "sublist xs ys \<Longrightarrow> sublist ys zs \<Longrightarrow> sublist xs zs"
  using sublist_order.order.trans by blast

lemma sublist_extend_left [factor_intros]: "sublist xs ys \<Longrightarrow> sublist xs (zs @ ys)"
  using sublist_trans by blast

lemma sublist_extend_right [factor_intros]: "sublist xs ys \<Longrightarrow> sublist xs (ys @ zs)"
  using sublist_trans by blast

lemma sublist_extend_both [factor_intros]: "sublist xs ys \<Longrightarrow> sublist xs (us @ ys @ vs)"
  by (intro sublist_extend_left sublist_extend_right)

section \<open>Pointwise matching of a row of character sets\<close>

text \<open>
  \<open>posmatch R v\<close>: the text \<open>v\<close> has exactly one character in each of the positions of
  \<open>R\<close>, each position being the list of characters it may hold.
\<close>

definition posmatch :: "int list list \<Rightarrow> int list \<Rightarrow> bool" where
  "posmatch R v \<longleftrightarrow> list_all2 (\<lambda>p c. c \<in> set p) R v"

lemma posmatch_Nil [simp]: "posmatch [] v \<longleftrightarrow> v = []"
  by (simp add: posmatch_def)

lemma posmatch_Nil_right [simp]: "posmatch R [] \<longleftrightarrow> R = []"
  by (simp add: posmatch_def)

lemma posmatch_Cons [simp]: "posmatch (p # R) (c # v) \<longleftrightarrow> c \<in> set p \<and> posmatch R v"
  by (simp add: posmatch_def)

lemma posmatch_Cons_left:
  "posmatch (p # R) v \<longleftrightarrow> (\<exists>c w. v = c # w \<and> c \<in> set p \<and> posmatch R w)"
  by (cases v) auto

lemma posmatch_length: "posmatch R v \<Longrightarrow> length v = length R"
  by (simp add: posmatch_def list_all2_lengthD)

lemma posmatch_append:
  "posmatch R v \<Longrightarrow> posmatch S w \<Longrightarrow> posmatch (R @ S) (v @ w)"
  by (simp add: posmatch_def list_all2_appendI)

lemma posmatch_append_left:
  "posmatch (R @ S) v \<longleftrightarrow> (\<exists>u w. v = u @ w \<and> posmatch R u \<and> posmatch S w)"
  using posmatch_append by (auto simp: posmatch_def list_all2_append1)

end
