(* ===== verification/Trigram_Hash.thy ===== *)
theory Trigram_Hash
  imports Prelude
begin

text \<open>
  \<open>src/util/hash.c\<close> and \<open>include/pg_tre/hash.h\<close>: the 64-bit hash of a trigram, which keys
  the posting trees, and the order-preserving 63-bit trigram key of the SuRF filter.

  The two mixing functions are PostgreSQL's (\<open>common/hashfn.h\<close>), not part of this
  repository: they are the fields of \<open>hashfn\<close> and every definition that hashes takes
  one. Nothing is assumed about them.
\<close>

record hashfn =
  murmurhash32 :: "uint32 \<Rightarrow> uint32"
  hash_combine :: "uint32 \<Rightarrow> uint32 \<Rightarrow> uint32"

definition pg_tre_hash_trigram_cp :: "hashfn \<Rightarrow> trigram \<Rightarrow> uint64" where
  "pg_tre_hash_trigram_cp hf cp = (case cp of (cp0, cp1, cp2) \<Rightarrow>
     (let h1 = murmurhash32 hf (word_of_int cp0);
          h1' = hash_combine hf h1 (word_of_int cp1);
          h2 = hash_combine hf h1' (word_of_int cp2)
      in (ucast h1' :: uint64) OR push_bit 32 (ucast h2 :: uint64)))"

definition pg_tre_hash_trigram :: "hashfn \<Rightarrow> uint8 \<times> uint8 \<times> uint8 \<Rightarrow> uint64" where
  "pg_tre_hash_trigram hf tri = (case tri of (b0, b1, b2) \<Rightarrow>
     pg_tre_hash_trigram_cp hf (uint b0, uint b1, uint b2))"

definition PG_TRE_CP_BITS :: nat where
  "PG_TRE_CP_BITS = 21"

definition PG_TRE_CP_MASK :: uint64 where
  "PG_TRE_CP_MASK = push_bit PG_TRE_CP_BITS 1 - 1"

definition pg_tre_trigram_key_cp :: "trigram \<Rightarrow> uint64" where
  "pg_tre_trigram_key_cp cp = (case cp of (cp0, cp1, cp2) \<Rightarrow>
     push_bit (2 * PG_TRE_CP_BITS) (word_of_int cp0 AND PG_TRE_CP_MASK) OR
     push_bit (1 * PG_TRE_CP_BITS) (word_of_int cp1 AND PG_TRE_CP_MASK) OR
     (word_of_int cp2 AND PG_TRE_CP_MASK))"

text \<open>The halves of the hash: the low one does not depend on the third character.\<close>

lemma hash_low_half:
  "(ucast (pg_tre_hash_trigram_cp hf (a, b, c)) :: uint32)
     = hash_combine hf (murmurhash32 hf (word_of_int a)) (word_of_int b)"
  unfolding pg_tre_hash_trigram_cp_def Let_def prod.case
  by (rule bit_word_eqI) (auto simp: bit_simps)

lemma hash_high_half:
  "(ucast (drop_bit 32 (pg_tre_hash_trigram_cp hf (a, b, c))) :: uint32)
     = hash_combine hf
         (hash_combine hf (murmurhash32 hf (word_of_int a)) (word_of_int b)) (word_of_int c)"
  unfolding pg_tre_hash_trigram_cp_def Let_def prod.case
  by (rule bit_word_eqI) (auto simp: bit_simps dest: bit_imp_le_length)

section \<open>The order of the keys\<close>

text \<open>The characters a key can hold: every Unicode code point is below \<open>2 ^ 21\<close>.\<close>

definition cp_range :: "int set" where "cp_range = {0..<2 ^ 21}"

lemma cp_range_take: "x \<in> cp_range \<Longrightarrow> take_bit 21 x = x"
  by (simp add: cp_range_def take_bit_int_eq_self)

lemma cp_range_bit: "x \<in> cp_range \<Longrightarrow> bit x n \<Longrightarrow> n < 21"
  using cp_range_take[of x] by (metis bit_take_bit_iff)

lemma cp_masked: "x \<in> cp_range \<Longrightarrow> (word_of_int x AND PG_TRE_CP_MASK :: uint64) = word_of_int x"
proof -
  assume x: "x \<in> cp_range"
  have "PG_TRE_CP_MASK = mask 21" by (simp add: PG_TRE_CP_MASK_def PG_TRE_CP_BITS_def mask_eq_exp_minus_1)
  then have "(word_of_int x AND PG_TRE_CP_MASK :: uint64) = take_bit 21 (word_of_int x)"
    by (simp add: take_bit_eq_mask)
  also have "\<dots> = word_of_int (take_bit 21 x)"
    by (rule bit_word_eqI) (auto simp: bit_simps)
  finally show ?thesis using cp_range_take[OF x] by simp
qed

lemma uint_of_int64: "0 \<le> k \<Longrightarrow> k < 2 ^ 64 \<Longrightarrow> uint (word_of_int k :: uint64) = k"
  by (simp add: unsigned_of_int take_bit_int_eq_self)

lemma trigram_key_value:
  assumes "a \<in> cp_range" and "b \<in> cp_range" and "c \<in> cp_range"
  shows "uint (pg_tre_trigram_key_cp (a, b, c)) = a * 2 ^ 42 + b * 2 ^ 21 + c"
proof -
  let ?k = "push_bit 42 a OR (push_bit 21 b OR c)"
  have key: "pg_tre_trigram_key_cp (a, b, c) = word_of_int ?k"
    unfolding pg_tre_trigram_key_cp_def prod.case cp_masked[OF assms(1)] cp_masked[OF assms(2)] cp_masked[OF assms(3)]
    by (rule bit_word_eqI) (auto simp: bit_simps PG_TRE_CP_BITS_def)
  have "push_bit 21 b AND c = 0" using cp_range_bit[OF assms(3)] by (intro bit_eqI) (fastforce simp: bit_simps)
  moreover have "push_bit 42 a AND (push_bit 21 b OR c) = 0"
    using cp_range_bit[OF assms(2)] cp_range_bit[OF assms(3)] by (intro bit_eqI) (fastforce simp: bit_simps)
  ultimately have sum: "?k = a * 2 ^ 42 + b * 2 ^ 21 + c"
    by (simp add: push_bit_eq_mult flip: disjunctive_add_eq_or)
  have "0 \<le> ?k" "?k < 2 ^ 64" unfolding sum using assms by (auto simp: cp_range_def)
  then have "uint (word_of_int ?k :: uint64) = ?k" by (rule uint_of_int64)
  then show ?thesis unfolding key by (simp only: sum)
qed

text \<open>Keys order like the triples of their characters, so a prefix of characters is a key range.\<close>

lemma trigram_key_less:
  assumes "a \<in> cp_range" "b \<in> cp_range" "c \<in> cp_range" "a' \<in> cp_range" "b' \<in> cp_range" "c' \<in> cp_range"
  shows "pg_tre_trigram_key_cp (a, b, c) < pg_tre_trigram_key_cp (a', b', c') \<longleftrightarrow>
    a < a' \<or> a = a' \<and> (b < b' \<or> b = b' \<and> c < c')"
  unfolding word_less_def trigram_key_value[OF assms(1-3)] trigram_key_value[OF assms(4-6)]
  using assms unfolding cp_range_def by simp linarith

lemma trigram_key_inj:
  assumes "a \<in> cp_range" "b \<in> cp_range" "c \<in> cp_range" "a' \<in> cp_range" "b' \<in> cp_range" "c' \<in> cp_range"
    and "pg_tre_trigram_key_cp (a, b, c) = pg_tre_trigram_key_cp (a', b', c')"
  shows "a = a' \<and> b = b' \<and> c = c'"
  using trigram_key_less[OF assms(1-6)] trigram_key_less[OF assms(4-6,1-3)] assms(7) by auto

end
