(* ===== verification/Trigram_Query.thy ===== *)
theory Trigram_Query
  imports Trigram_Hash
begin

text \<open>
  The trigram-query tree of \<open>include/pg_tre/regex_ast.h\<close>, which the extraction writes and
  the index scan evaluates, and what it promises: \<open>tq_accepts q H\<close> says that a row whose
  indexed trigram hashes are \<open>H\<close> passes the filter \<open>q\<close>.
\<close>

record TrigramDisjunct =
  trigram_hash :: uint64
  min_offset :: int
  max_offset :: int

type_synonym TrigramConjunct = "TrigramDisjunct list"

datatype TrigramQueryMode = TRIGRAM_QUERY_CNF | TRIGRAM_QUERY_DNF | TRIGRAM_QUERY_PIECES

record TrigramQuery =
  conjuncts :: "TrigramConjunct list"
  min_match_len :: int
  global_max_cost :: int
  always_true :: bool
  mode :: TrigramQueryMode
  has_surf_range :: bool
  surf_lo :: uint64
  surf_hi :: uint64

text \<open>\<open>memset(out, 0, sizeof(*out))\<close>.\<close>

definition tq_zero :: TrigramQuery where
  "tq_zero = \<lparr> conjuncts = [], min_match_len = 0, global_max_cost = 0, always_true = False,
     mode = TRIGRAM_QUERY_CNF, has_surf_range = False, surf_lo = 0, surf_hi = 0 \<rparr>"

text \<open>An unpositioned alternative: every producer of the sources writes these offsets.\<close>

definition tq_alt :: "hashfn \<Rightarrow> trigram \<Rightarrow> TrigramDisjunct" where
  "tq_alt hf t = \<lparr> trigram_hash = pg_tre_hash_trigram_cp hf t, min_offset = 0, max_offset = INT32_MAX \<rparr>"

lemma tq_alt_hash [simp]: "trigram_hash (tq_alt hf t) = pg_tre_hash_trigram_cp hf t"
  by (simp add: tq_alt_def)

text \<open>
  The meaning of the three modes (the comments at \<open>TrigramQueryMode\<close>): an AND of ORs, the
  union of every alternative, and an OR of ANDs.
\<close>

definition tq_accepts :: "TrigramQuery \<Rightarrow> uint64 set \<Rightarrow> bool" where
  "tq_accepts q H \<longleftrightarrow> always_true q \<or>
     (case mode q of
        TRIGRAM_QUERY_CNF \<Rightarrow> (\<forall>c \<in> set (conjuncts q). \<exists>a \<in> set c. trigram_hash a \<in> H)
      | TRIGRAM_QUERY_DNF \<Rightarrow> (\<exists>c \<in> set (conjuncts q). \<exists>a \<in> set c. trigram_hash a \<in> H)
      | TRIGRAM_QUERY_PIECES \<Rightarrow> (\<exists>c \<in> set (conjuncts q). \<forall>a \<in> set c. trigram_hash a \<in> H))"

text \<open>The trigram hashes the index stores for a text.\<close>

definition text_hashes :: "hashfn \<Rightarrow> int list \<Rightarrow> uint64 set" where
  "text_hashes hf txt = pg_tre_hash_trigram_cp hf ` set (windows3 txt)"

lemma text_hashes_window:
  "sublist [a, b, c] txt \<Longrightarrow> pg_tre_hash_trigram_cp hf (a, b, c) \<in> text_hashes hf txt"
  by (simp add: text_hashes_def windows3_sublist)

lemma text_hashes_mono: "sublist s txt \<Longrightarrow> text_hashes hf s \<subseteq> text_hashes hf txt"
  unfolding text_hashes_def by (intro image_mono set_windows3_mono)

lemma tq_accepts_mono: "tq_accepts q H \<Longrightarrow> H \<subseteq> H' \<Longrightarrow> tq_accepts q H'"
  unfolding tq_accepts_def by (cases "mode q") (auto, blast+)

end
