(* ===== verification/Regex_Ast.thy ===== *)
theory Regex_Ast
  imports Prelude
begin

text \<open>
  \<open>include/pg_tre/regex_ast.h\<close> and \<open>src/query/regex_ast.c\<close>: the regex syntax tree, its
  character classes and their normalisation.

  A \<open>RegexAst\<close> node is a constructor of the datatype; the C union's payload is its
  arguments. The grammar never builds a node with a missing child, so there is no
  \<open>NULL\<close>. A \<open>RegexClass\<close> is the list of its \<open>(lo, hi)\<close> ranges. The span fields are
  only ever set to \<open>-1\<close> and are left out, as are the memory contexts.
\<close>

datatype RegexAnchor = REGEX_ANCHOR_START | REGEX_ANCHOR_END

type_synonym RegexClass = "(int \<times> int) list"

datatype RegexAst =
    LITERAL int
  | ANY
  | CLASS bool RegexClass
  | ANCHOR RegexAnchor
  | CONCAT RegexAst RegexAst
  | ALT RegexAst RegexAst
  | REP RegexAst int int
  | APPROX RegexAst int

section \<open>Character classes\<close>

text \<open>
  \<open>normalize_class\<close> sorts the ranges by their lower bound and merges those that overlap
  or touch. The sort is the source's exchange sort: position \<open>i\<close> is compared with every
  later position and swapped when larger; \<open>exchange_pass\<close> is the inner loop for one
  \<open>i\<close>, returning the range left at \<open>i\<close> and the ranges after it.
\<close>

fun exchange_pass :: "int \<times> int \<Rightarrow> RegexClass \<Rightarrow> (int \<times> int) \<times> RegexClass" where
  "exchange_pass x [] = (x, [])"
| "exchange_pass x (y # ys) =
     (if fst x > fst y
      then (fst (exchange_pass y ys), x # snd (exchange_pass y ys))
      else (fst (exchange_pass x ys), y # snd (exchange_pass x ys)))"

lemma exchange_pass_length [simp]: "length (snd (exchange_pass x ys)) = length ys"
  by (induction ys arbitrary: x) simp_all

function exchange_sort :: "RegexClass \<Rightarrow> RegexClass" where
  "exchange_sort [] = []"
| "exchange_sort (x # xs) = fst (exchange_pass x xs) # exchange_sort (snd (exchange_pass x xs))"
  by pat_completeness auto
termination
  by (relation "measure length") simp_all

text \<open>The merging loop, with the range being grown as its first argument.\<close>

fun merge_ranges :: "int \<times> int \<Rightarrow> RegexClass \<Rightarrow> RegexClass" where
  "merge_ranges cur [] = [cur]"
| "merge_ranges (lo, hi) ((lo', hi') # rs) =
     (if lo' \<le> hi + 1
      then merge_ranges (lo, if hi' > hi then hi' else hi) rs
      else (lo, hi) # merge_ranges (lo', hi') rs)"

definition normalize_class :: "RegexClass \<Rightarrow> RegexClass" where
  "normalize_class cls =
     (if length cls \<le> 1 then cls
      else (case exchange_sort cls of [] \<Rightarrow> [] | r # rs \<Rightarrow> merge_ranges r rs))"

section \<open>Constructors used by the grammar actions\<close>

datatype class_error = Invalid_character_range int int

definition regex_ast_class :: "RegexClass \<Rightarrow> bool \<Rightarrow> RegexAst" where
  "regex_ast_class body negated = CLASS negated (normalize_class body)"

definition regex_ast_class_char :: "int \<Rightarrow> RegexClass" where
  "regex_ast_class_char cp = [(cp, cp)]"

definition regex_ast_class_range :: "int \<Rightarrow> int \<Rightarrow> class_error + RegexClass" where
  "regex_ast_class_range lo hi =
     (if lo > hi then Inl (Invalid_character_range lo hi) else Inr [(lo, hi)])"

definition regex_ast_class_union :: "RegexClass \<Rightarrow> RegexClass \<Rightarrow> RegexClass" where
  "regex_ast_class_union a b = normalize_class (a @ b)"

section \<open>Members of a class\<close>

definition class_mem :: "RegexClass \<Rightarrow> int \<Rightarrow> bool" where
  "class_mem cs c \<longleftrightarrow> (\<exists>(lo, hi) \<in> set cs. lo \<le> c \<and> c \<le> hi)"

text \<open>Every range holds a character, as \<open>regex_ast_class_range\<close> ensures.\<close>

definition ranges_ok :: "RegexClass \<Rightarrow> bool" where
  "ranges_ok cs \<longleftrightarrow> (\<forall>(lo, hi) \<in> set cs. lo \<le> hi)"

text \<open>The header's promise: sorted, disjoint ranges; here also with a gap between them.\<close>

fun ranges_sorted :: "RegexClass \<Rightarrow> bool" where
  "ranges_sorted ((lo, hi) # (lo', hi') # rs) \<longleftrightarrow>
     lo \<le> hi \<and> hi + 1 < lo' \<and> ranges_sorted ((lo', hi') # rs)"
| "ranges_sorted [(lo, hi)] \<longleftrightarrow> lo \<le> hi"
| "ranges_sorted [] \<longleftrightarrow> True"

lemma class_mem_Nil [simp]: "\<not> class_mem [] c"
  by (simp add: class_mem_def)

lemma class_mem_Cons [simp]:
  "class_mem ((lo, hi) # rs) c \<longleftrightarrow> lo \<le> c \<and> c \<le> hi \<or> class_mem rs c"
  by (auto simp: class_mem_def)

lemma class_mem_append [simp]: "class_mem (a @ b) c \<longleftrightarrow> class_mem a c \<or> class_mem b c"
  by (auto simp: class_mem_def)

lemma class_mem_cong: "set a = set b \<Longrightarrow> class_mem a c = class_mem b c"
  by (simp add: class_mem_def)

lemma exchange_pass_set:
  "insert (fst (exchange_pass x ys)) (set (snd (exchange_pass x ys))) = insert x (set ys)"
proof (induction ys arbitrary: x)
  case (Cons y ys)
  show ?case using Cons[of x] Cons[of y] by (simp add: insert_commute)
qed simp

lemma exchange_pass_min: "z \<in> insert x (set ys) \<Longrightarrow> fst (fst (exchange_pass x ys)) \<le> fst z"
proof (induction ys arbitrary: x z)
  case (Cons y ys)
  have y: "fst (fst (exchange_pass y ys)) \<le> fst y" by (rule Cons.IH) simp
  have x: "fst (fst (exchange_pass x ys)) \<le> fst x" by (rule Cons.IH) simp
  from Cons.prems consider "z = x" | "z = y" | "z \<in> set ys" by auto
  then show ?case
  proof cases
    case 3
    then have "fst (fst (exchange_pass w ys)) \<le> fst z" for w by (intro Cons.IH) simp
    then show ?thesis by simp
  qed (use x y in auto)
qed simp

lemma set_exchange_sort: "set (exchange_sort cs) = set cs"
proof (induction cs rule: exchange_sort.induct)
  case (2 x xs)
  then show ?case using exchange_pass_set[of x xs] by simp
qed simp

lemma sorted_exchange_sort: "sorted (map fst (exchange_sort cs))"
proof (induction cs rule: exchange_sort.induct)
  case (2 x xs)
  have "\<forall>z \<in> set (snd (exchange_pass x xs)). fst (fst (exchange_pass x xs)) \<le> fst z"
    using exchange_pass_min exchange_pass_set by (metis insertI2)
  with 2 show ?case by (simp add: set_exchange_sort)
qed simp

lemma merge_ranges_mem:
  assumes "lo \<le> hi" and "ranges_ok rs" and "sorted (map fst ((lo, hi) # rs))"
  shows "class_mem (merge_ranges (lo, hi) rs) c = class_mem ((lo, hi) # rs) c"
  using assms
proof (induction "(lo, hi)" rs arbitrary: lo hi rule: merge_ranges.induct)
  case (2 lo hi lo' hi' rs)
  show ?case
  proof (cases "lo' \<le> hi + 1")
    case True
    have m: "(if hi' > hi then hi' else hi) = max hi hi'" by (simp add: max_def)
    have "class_mem (merge_ranges (lo, max hi hi') rs) c
        = class_mem ((lo, max hi hi') # rs) c"
      using 2(1)[OF True, unfolded m] 2(3-5) by (simp add: ranges_ok_def)
    also have "\<dots> = class_mem ((lo, hi) # (lo', hi') # rs) c"
      using True 2(3-5) by (auto simp: ranges_ok_def)
    finally show ?thesis using True by (simp only: merge_ranges.simps m if_True)
  next
    case False
    with 2 show ?thesis by (auto simp: ranges_ok_def)
  qed
qed simp

lemma merge_ranges_sorted:
  assumes "lo \<le> hi" and "ranges_ok rs" and "sorted (map fst ((lo, hi) # rs))"
  shows "ranges_sorted (merge_ranges (lo, hi) rs) \<and> fst (hd (merge_ranges (lo, hi) rs)) = lo
     \<and> merge_ranges (lo, hi) rs \<noteq> []"
  using assms
proof (induction "(lo, hi)" rs arbitrary: lo hi rule: merge_ranges.induct)
  case (2 lo hi lo' hi' rs)
  show ?case
  proof (cases "lo' \<le> hi + 1")
    case True
    with 2 show ?thesis by (auto simp: ranges_ok_def)
  next
    case False
    with 2 have rec: "ranges_sorted (merge_ranges (lo', hi') rs)"
        "fst (hd (merge_ranges (lo', hi') rs)) = lo'" "merge_ranges (lo', hi') rs \<noteq> []"
      by (auto simp: ranges_ok_def)
    then obtain h rest where "merge_ranges (lo', hi') rs = (lo', h) # rest"
      by (metis list.exhaust_sel prod.collapse)
    with rec False 2(3) show ?thesis by simp
  qed
qed simp

lemma exchange_sort_nonempty: "cs \<noteq> [] \<Longrightarrow> \<exists>lo hi rs. exchange_sort cs = (lo, hi) # rs"
  by (cases cs) auto

lemma normalize_class_mem:
  assumes "ranges_ok cs"
  shows "class_mem (normalize_class cs) c = class_mem cs c"
proof (cases "length cs \<le> 1")
  case False
  then have "cs \<noteq> []" by auto
  then obtain lo hi rs where s: "exchange_sort cs = (lo, hi) # rs"
    using exchange_sort_nonempty by blast
  have "ranges_ok (exchange_sort cs)"
    using assms by (simp add: ranges_ok_def set_exchange_sort)
  then have "class_mem (merge_ranges (lo, hi) rs) c = class_mem (exchange_sort cs) c"
    using merge_ranges_mem[of lo hi rs c] sorted_exchange_sort[of cs] s
    by (simp add: ranges_ok_def)
  also have "\<dots> = class_mem cs c" by (rule class_mem_cong) (rule set_exchange_sort)
  finally show ?thesis using False s by (simp add: normalize_class_def)
qed (simp add: normalize_class_def)

lemma normalize_class_sorted:
  assumes "ranges_ok cs"
  shows "ranges_sorted (normalize_class cs)"
proof (cases "length cs \<le> 1")
  case True
  then have n: "normalize_class cs = cs" by (simp add: normalize_class_def)
  show ?thesis
  proof (cases cs)
    case (Cons r rs)
    with True have "cs = [(fst r, snd r)]" by simp
    with assms n show ?thesis by (cases r) (simp add: ranges_ok_def)
  qed (simp add: normalize_class_def)
next
  case False
  then have "cs \<noteq> []" by auto
  then obtain lo hi rs where s: "exchange_sort cs = (lo, hi) # rs"
    using exchange_sort_nonempty by blast
  have "ranges_ok (exchange_sort cs)"
    using assms by (simp add: ranges_ok_def set_exchange_sort)
  with s have "ranges_sorted (merge_ranges (lo, hi) rs)"
    using merge_ranges_sorted[of lo hi rs] sorted_exchange_sort[of cs]
    by (simp add: ranges_ok_def)
  with False s show ?thesis by (simp add: normalize_class_def)
qed

end
