(* ===== verification/Extract_Run.thy ===== *)
theory Extract_Run
  imports Trigram_Query Regex_Ast
begin

text \<open>
  \<open>src/query/extract.c\<close>, the exact (\<open>k = 0\<close>) walk: the accumulator of required trigrams,
  the literal run, \<open>lin_append_node\<close> over the syntax tree, the exact-pieces expansion of a
  single run, the anchored-prefix key, and the conversion to a \<open>TrigramQuery\<close>.

  The growable C arrays are lists; \<open>n\<close>, \<open>n_ors\<close>, \<open>or_n\<close> and \<open>run_n\<close> are their lengths.
  The GUC \<open>pg_tre_max_extraction_fanout\<close> is the argument \<open>fanout\<close>. \<open>check_stack_depth\<close>
  (an error of the server, not of this code) is left out.
\<close>

section \<open>The accumulator\<close>

record TrigramAccum =
  tris :: "trigram list"
  overflowed :: bool
  or_tris :: "trigram list list"

definition CLASS_EXPAND_MAX :: int where "CLASS_EXPAND_MAX = 8"
definition OR_ALTS_MAX :: nat where "OR_ALTS_MAX = 64"
definition OR_GROUPS_MAX :: nat where "OR_GROUPS_MAX = 64"
definition REP_INLINE_MAX :: int where "REP_INLINE_MAX = 4"
definition RUN_PIECES_MAX :: nat where "RUN_PIECES_MAX = 64"

definition accum_init :: TrigramAccum where
  "accum_init = \<lparr> tris = [], overflowed = False, or_tris = [] \<rparr>"

definition accum_add_or :: "trigram list \<Rightarrow> TrigramAccum \<Rightarrow> TrigramAccum" where
  "accum_add_or ts a =
     (if overflowed a \<or> length (or_tris a) \<ge> OR_GROUPS_MAX then a
      else a\<lparr> or_tris := or_tris a @ [ts] \<rparr>)"

definition accum_add :: "int \<Rightarrow> trigram \<Rightarrow> TrigramAccum \<Rightarrow> TrigramAccum" where
  "accum_add fanout t a =
     (if overflowed a then a
      else if t \<in> set (tris a) then a
      else if int (length (tris a)) \<ge> fanout then a\<lparr> overflowed := True \<rparr>
      else a\<lparr> tris := tris a @ [t] \<rparr>)"

section \<open>The literal run\<close>

text \<open>A \<open>RunPos\<close> is the list of the characters the position may hold.\<close>

type_synonym RunPos = "int list"

record LinCtx =
  run :: "RunPos list"
  acc :: TrigramAccum
  flushes :: nat

definition run_append_cp :: "int \<Rightarrow> LinCtx \<Rightarrow> LinCtx" where
  "run_append_cp cp lc = lc\<lparr> run := run lc @ [[cp]] \<rparr>"

text \<open>The counting loop of \<open>run_append_class\<close>: \<open>None\<close> once the total passes the cap.\<close>

fun class_total :: "int \<Rightarrow> RegexClass \<Rightarrow> int option" where
  "class_total tot [] = Some tot"
| "class_total tot ((lo, hi) # rs) =
     (let tot' = tot + (hi - lo + 1)
      in if tot' > CLASS_EXPAND_MAX then None else class_total tot' rs)"

definition class_members :: "RegexClass \<Rightarrow> RunPos" where
  "class_members cs = concat (map (\<lambda>(lo, hi). [lo..hi]) cs)"

text \<open>\<open>None\<close> is the C function's \<open>false\<close>: the caller ends the run.\<close>

definition run_append_class :: "bool \<Rightarrow> RegexClass \<Rightarrow> LinCtx \<Rightarrow> LinCtx option" where
  "run_append_class negated cs lc =
     (if negated then None
      else case class_total 0 cs of
        None \<Rightarrow> None
      | Some tot \<Rightarrow>
          if tot < 1 then None else Some (lc\<lparr> run := run lc @ [class_members cs] \<rparr>))"

definition window_alts :: "RunPos \<Rightarrow> RunPos \<Rightarrow> RunPos \<Rightarrow> trigram list" where
  "window_alts a b c = [(x, y, z). x \<leftarrow> a, y \<leftarrow> b, z \<leftarrow> c]"

definition emit_window :: "int \<Rightarrow> RunPos \<times> RunPos \<times> RunPos \<Rightarrow> TrigramAccum \<Rightarrow> TrigramAccum" where
  "emit_window fanout w ac = (case w of (a, b, c) \<Rightarrow>
     (let prod = length a * length b * length c
      in if prod = 1 then accum_add fanout (hd a, hd b, hd c) ac
         else if prod \<le> OR_ALTS_MAX then accum_add_or (window_alts a b c) ac
         else ac))"

definition run_emit :: "int \<Rightarrow> RunPos list \<Rightarrow> TrigramAccum \<Rightarrow> TrigramAccum" where
  "run_emit fanout r ac = fold (emit_window fanout) (windows3 r) ac"

definition run_flush :: "int \<Rightarrow> LinCtx \<Rightarrow> LinCtx" where
  "run_flush fanout lc =
     lc\<lparr> acc := run_emit fanout (run lc) (acc lc), run := [], flushes := flushes lc + 1 \<rparr>"

section \<open>The walk\<close>

primrec rep_child_is_fixed_literal :: "RegexAst \<Rightarrow> bool" where
  "rep_child_is_fixed_literal (LITERAL c) = True"
| "rep_child_is_fixed_literal ANY = False"
| "rep_child_is_fixed_literal (CLASS negated cs) = False"
| "rep_child_is_fixed_literal (ANCHOR w) = False"
| "rep_child_is_fixed_literal (CONCAT l r) =
     (rep_child_is_fixed_literal l \<and> rep_child_is_fixed_literal r)"
| "rep_child_is_fixed_literal (ALT l r) = False"
| "rep_child_is_fixed_literal (REP c m n) = False"
| "rep_child_is_fixed_literal (APPROX c k) = False"

text \<open>The number of copies of a repetition's child that are inlined.\<close>

definition rep_copies :: "RegexAst \<Rightarrow> int \<Rightarrow> int \<Rightarrow> int" where
  "rep_copies child m n =
     (if n = m \<and> rep_child_is_fixed_literal child
      then (if m > REP_INLINE_MAX then REP_INLINE_MAX else m)
      else (if m > 2 then 2 else m))"

text \<open>The intersection loops of an alternation: the left trigrams the right side has too.\<close>

definition accum_intersect :: "int \<Rightarrow> TrigramAccum \<Rightarrow> TrigramAccum \<Rightarrow> TrigramAccum \<Rightarrow> TrigramAccum" where
  "accum_intersect fanout a b ac =
     fold (\<lambda>t ac. if t \<in> set (tris b) then accum_add fanout t ac else ac) (tris a) ac"

primrec lin_append_node :: "int \<Rightarrow> RegexAst \<Rightarrow> LinCtx \<Rightarrow> LinCtx" where
  "lin_append_node fanout (LITERAL c) lc =
     (if overflowed (acc lc) then lc else run_append_cp c lc)"
| "lin_append_node fanout ANY lc =
     (if overflowed (acc lc) then lc else run_flush fanout lc)"
| "lin_append_node fanout (CLASS negated cs) lc =
     (if overflowed (acc lc) then lc
      else case run_append_class negated cs lc of
        Some lc' \<Rightarrow> lc'
      | None \<Rightarrow> run_flush fanout lc)"
| "lin_append_node fanout (ANCHOR w) lc = lc"
| "lin_append_node fanout (CONCAT l r) lc =
     (if overflowed (acc lc) then lc
      else lin_append_node fanout r (lin_append_node fanout l lc))"
| "lin_append_node fanout (ALT l r) lc =
     (if overflowed (acc lc) then lc
      else (let lc1 = run_flush fanout lc;
                lca = lin_append_node fanout l (lc\<lparr> acc := accum_init, run := [] \<rparr>);
                a = run_emit fanout (run lca) (acc lca);
                lcb = lin_append_node fanout r (lc\<lparr> acc := accum_init, run := [] \<rparr>);
                b = run_emit fanout (run lcb) (acc lcb)
            in lc1\<lparr> acc := accum_intersect fanout a b (acc lc1) \<rparr>))"
| "lin_append_node fanout (REP c m n) lc =
     (if overflowed (acc lc) then lc
      else if m = 0 then run_flush fanout lc
      else (let k = rep_copies c m n;
                lc1 = (lin_append_node fanout c ^^ nat k) lc
            in if n \<noteq> m \<and> k = 1 \<and> flushes lc1 = flushes lc
                  \<and> int (length (run lc1)) - int (length (run lc)) \<le> 1
               then run_flush fanout lc1 else lc1))"
| "lin_append_node fanout (APPROX c k) lc =
     (if overflowed (acc lc) then lc else lin_append_node fanout c lc)"

definition lin_init :: LinCtx where
  "lin_init = \<lparr> run = [], acc = accum_init, flushes = 0 \<rparr>"

section \<open>Exact pieces of a single run\<close>

text \<open>
  The mixed-radix counter over the positions of the run, least significant position first;
  a position whose digit passes its number of characters is reset and carries.
\<close>

fun digit_incr :: "RunPos list \<Rightarrow> nat list \<Rightarrow> nat list" where
  "digit_incr (p # ps) (d # ds) =
     (if d + 1 < length p then (d + 1) # ds else 0 # digit_incr ps ds)"
| "digit_incr ps ds = ds"

definition run_piece :: "hashfn \<Rightarrow> RunPos list \<Rightarrow> nat list \<Rightarrow> TrigramConjunct" where
  "run_piece hf r digit =
     map (\<lambda>w. tq_alt hf (r ! w ! (digit ! w),
                         r ! (w + 1) ! (digit ! (w + 1)),
                         r ! (w + 2) ! (digit ! (w + 2))))
       [0..<length r - 2]"

primrec run_pieces :: "hashfn \<Rightarrow> RunPos list \<Rightarrow> nat \<Rightarrow> nat list \<Rightarrow> TrigramConjunct list" where
  "run_pieces hf r 0 digit = []"
| "run_pieces hf r (Suc p) digit = run_piece hf r digit # run_pieces hf r p (digit_incr r digit)"

text \<open>The product loop, with its early return once the cap is passed.\<close>

fun run_product :: "nat \<Rightarrow> RunPos list \<Rightarrow> nat option" where
  "run_product pr [] = Some pr"
| "run_product pr (p # ps) =
     (if pr * length p > RUN_PIECES_MAX then None else run_product (pr * length p) ps)"

definition try_build_run_pieces :: "hashfn \<Rightarrow> RunPos list \<Rightarrow> int \<Rightarrow> TrigramQuery option" where
  "try_build_run_pieces hf r max_cost =
     (if length r < 3 then None
      else case run_product 1 r of
        None \<Rightarrow> None
      | Some pr \<Rightarrow>
          if \<not> list_ex (\<lambda>p. length p > 1) r then None
          else Some (tq_zero\<lparr> global_max_cost := max_cost, min_match_len := 3,
                 always_true := False, mode := TRIGRAM_QUERY_PIECES,
                 conjuncts := run_pieces hf r pr (replicate (length r) 0) \<rparr>))"

section \<open>Conversion to a query\<close>

definition accum_to_query :: "hashfn \<Rightarrow> TrigramAccum \<Rightarrow> int \<Rightarrow> TrigramQuery" where
  "accum_to_query hf a max_cost =
     (let out = tq_zero\<lparr> global_max_cost := max_cost, min_match_len := 3, mode := TRIGRAM_QUERY_CNF \<rparr>
      in if overflowed a \<or> length (tris a) + length (or_tris a) = 0
         then out\<lparr> always_true := True, conjuncts := [] \<rparr>
         else out\<lparr> always_true := False,
                conjuncts := map (\<lambda>t. [tq_alt hf t]) (tris a) @ map (map (tq_alt hf)) (or_tris a) \<rparr>)"

section \<open>The anchored prefix key\<close>

text \<open>
  The explicit-stack walk; \<open>stack\<close> holds the pending right children, the next one first,
  and takes no more than 64 of them. The first argument is the node being visited:
  \<open>None\<close> is the C code's \<open>NULL\<close>, which pops the stack.
\<close>

definition PREFIX_STACK_MAX :: nat where "PREFIX_STACK_MAX = 64"

function prefix_walk ::
    "RegexAst option \<Rightarrow> RegexAst list \<Rightarrow> int list \<Rightarrow> bool \<Rightarrow> uint64 option" where
  "prefix_walk None [] cps seen_anchor = None"
| "prefix_walk None (n # stack) cps seen_anchor = prefix_walk (Some n) stack cps seen_anchor"
| "prefix_walk (Some (CONCAT l r)) stack cps seen_anchor =
     prefix_walk (Some l) (if length stack < PREFIX_STACK_MAX then r # stack else stack) cps seen_anchor"
| "prefix_walk (Some (ANCHOR w)) stack cps seen_anchor =
     (if w = REGEX_ANCHOR_START \<and> cps = [] then prefix_walk None stack cps True
      else if length cps < 3 then None
      else prefix_walk None stack cps seen_anchor)"
| "prefix_walk (Some (LITERAL c)) stack cps seen_anchor =
     (if \<not> seen_anchor then None
      else (let cps' = cps @ [c]
            in if length cps' \<ge> 3
               then Some (pg_tre_trigram_key_cp (cps' ! 0, cps' ! 1, cps' ! 2))
               else prefix_walk None stack cps' seen_anchor))"
| "prefix_walk (Some ANY) stack cps seen_anchor = None"
| "prefix_walk (Some (CLASS negated cs)) stack cps seen_anchor = None"
| "prefix_walk (Some (ALT l r)) stack cps seen_anchor = None"
| "prefix_walk (Some (REP c m n)) stack cps seen_anchor = None"
| "prefix_walk (Some (APPROX c k)) stack cps seen_anchor = None"
  by pat_completeness auto
termination
  by (relation "measure (\<lambda>(n, stack, _, _).
        (case n of None \<Rightarrow> 0 | Some a \<Rightarrow> 3 * size a + 1) + (\<Sum>a\<leftarrow>stack. 3 * size a + 2))")
     auto

definition extract_anchored_prefix_key :: "RegexAst \<Rightarrow> (uint64 \<times> uint64) option" where
  "extract_anchored_prefix_key root =
     (case prefix_walk (Some root) [] [] False of None \<Rightarrow> None | Some k \<Rightarrow> Some (k, k))"

end
