(* ===== verification/Regex_Semantics.thy ===== *)
theory Regex_Semantics
  imports Regex_Ast
begin

text \<open>
  What a pattern means: the reference against which the trigram extraction is judged.

  \<open>rx_match ast b e s\<close> says that the piece of text \<open>s\<close> matches \<open>ast\<close> when \<open>b\<close> tells
  whether the piece starts at the beginning of the text and \<open>e\<close> whether it ends at its
  end, which is what the anchors test. Repetition is bounded by its two counts, a negative
  upper count meaning none (the grammar writes \<open>-1\<close>). \<open>APPROX c k\<close> is TRE's
  \<open>{~k}\<close>: a text at most \<open>k\<close> edits away from a match of \<open>c\<close>.
\<close>

section \<open>Edit distance\<close>

text \<open>\<open>lev k s t\<close>: at most \<open>k\<close> insertions, deletions and substitutions turn \<open>s\<close> into \<open>t\<close>.\<close>

inductive lev :: "nat \<Rightarrow> 'a list \<Rightarrow> 'a list \<Rightarrow> bool" where
  lev_nil: "lev k [] []"
| lev_keep: "lev k xs ys \<Longrightarrow> lev k (x # xs) (x # ys)"
| lev_subst: "lev k xs ys \<Longrightarrow> lev (Suc k) (x # xs) (y # ys)"
| lev_del: "lev k xs ys \<Longrightarrow> lev (Suc k) (x # xs) ys"
| lev_ins: "lev k xs ys \<Longrightarrow> lev (Suc k) xs (y # ys)"

inductive_cases lev_nilE: "lev k [] ys"
inductive_cases lev_consE: "lev k (x # xs) ys"

lemma lev_refl: "lev k xs xs"
  by (induction xs) (auto intro: lev.intros)

lemma lev_0: "lev 0 xs ys \<Longrightarrow> xs = ys"
  by (induction "0::nat" xs ys rule: lev.induct) auto

lemma lev_mono: "lev k xs ys \<Longrightarrow> k \<le> k' \<Longrightarrow> lev k' xs ys"
proof (induction arbitrary: k' rule: lev.induct)
  case (lev_subst k xs ys x y)
  then obtain j where "k' = Suc j" "k \<le> j" by (cases k') auto
  with lev_subst show ?case by (auto intro: lev.intros)
next
  case (lev_del k xs ys x)
  then obtain j where "k' = Suc j" "k \<le> j" by (cases k') auto
  with lev_del show ?case by (auto intro: lev.intros)
next
  case (lev_ins k xs ys y)
  then obtain j where "k' = Suc j" "k \<le> j" by (cases k') auto
  with lev_ins show ?case by (auto intro: lev.intros)
qed (auto intro: lev.intros)

text \<open>Edits of a concatenation split into edits of its two parts, sharing the budget.\<close>

lemma lev_splitI0: "lev k ys t \<Longrightarrow> \<exists>i j t1 t2. i + j \<le> k \<and> t = t1 @ t2 \<and> lev i [] t1 \<and> lev j ys t2"
  by (rule exI[of _ 0], rule exI[of _ k], rule exI[of _ "[]"], rule exI[of _ t])
     (simp add: lev.lev_nil)

lemma lev_append_split:
  assumes "lev k (xs @ ys) t"
  shows "\<exists>i j t1 t2. i + j \<le> k \<and> t = t1 @ t2 \<and> lev i xs t1 \<and> lev j ys t2"
  using assms
proof (induction k "xs @ ys" t arbitrary: xs ys rule: lev.induct)
  case (lev_nil k)
  then have "xs = []" "lev k ys []" by (auto intro: lev.lev_nil)
  then show ?case using lev_splitI0[of k ys "[]"] by simp
next
  case (lev_keep k us ts x)
  show ?case
  proof (cases xs)
    case Nil
    with lev_keep have "lev k ys (x # ts)" by (auto intro: lev.lev_keep)
    from lev_splitI0[OF this] Nil show ?thesis by simp
  next
    case (Cons a xs')
    with lev_keep.hyps(2)[of xs' ys] lev_keep.hyps(3) obtain i j t1 t2
      where "i + j \<le> k" "ts = t1 @ t2" "lev i xs' t1" "lev j ys t2" by auto
    with Cons lev_keep.hyps(3) have "i + j \<le> k" "(x # ts) = (x # t1) @ t2" "lev i xs (x # t1)" "lev j ys t2"
      by (auto intro: lev.lev_keep)
    then show ?thesis by blast
  qed
next
  case (lev_subst k us ts x y)
  show ?case
  proof (cases xs)
    case Nil
    with lev_subst have "lev (Suc k) ys (y # ts)" by (auto intro: lev.lev_subst)
    from lev_splitI0[OF this] Nil show ?thesis by simp
  next
    case (Cons a xs')
    with lev_subst.hyps(2)[of xs' ys] lev_subst.hyps(3) obtain i j t1 t2
      where "i + j \<le> k" "ts = t1 @ t2" "lev i xs' t1" "lev j ys t2" by auto
    with Cons lev_subst.hyps(3) have "(Suc i) + j \<le> (Suc k)" "(y # ts) = (y # t1) @ t2" "lev (Suc i) xs (y # t1)" "lev j ys t2"
      by (auto intro: lev.lev_subst)
    then show ?thesis by blast
  qed
next
  case (lev_del k us ts x)
  show ?case
  proof (cases xs)
    case Nil
    with lev_del have "lev (Suc k) ys ts" by (auto intro: lev.lev_del)
    from lev_splitI0[OF this] Nil show ?thesis by simp
  next
    case (Cons a xs')
    with lev_del.hyps(2)[of xs' ys] lev_del.hyps(3) obtain i j t1 t2
      where "i + j \<le> k" "ts = t1 @ t2" "lev i xs' t1" "lev j ys t2" by auto
    with Cons lev_del.hyps(3) have "(Suc i) + j \<le> (Suc k)" "ts = t1 @ t2" "lev (Suc i) xs t1" "lev j ys t2"
      by (auto intro: lev.lev_del)
    then show ?thesis by blast
  qed
next
  case (lev_ins k ts y)
  from lev_ins.hyps(2)[of xs ys, OF refl] obtain i j t1 t2
    where "i + j \<le> k" "ts = t1 @ t2" "lev i xs t1" "lev j ys t2" by auto
  then have "Suc i + j \<le> Suc k" "y # ts = (y # t1) @ t2" "lev (Suc i) xs (y # t1)" "lev j ys t2"
    by (auto intro: lev.lev_ins)
  then show ?case by blast
qed

section \<open>Matching\<close>

primrec iter_match ::
    "(bool \<Rightarrow> bool \<Rightarrow> int list \<Rightarrow> bool) \<Rightarrow> nat \<Rightarrow> bool \<Rightarrow> bool \<Rightarrow> int list \<Rightarrow> bool" where
  "iter_match M 0 b e s \<longleftrightarrow> s = []"
| "iter_match M (Suc n) b e s \<longleftrightarrow>
     (\<exists>u v. s = u @ v \<and> M b (e \<and> v = []) u \<and> iter_match M n (b \<and> u = []) e v)"

primrec rx_match :: "RegexAst \<Rightarrow> bool \<Rightarrow> bool \<Rightarrow> int list \<Rightarrow> bool" where
  "rx_match (LITERAL c) b e s \<longleftrightarrow> s = [c]"
| "rx_match ANY b e s \<longleftrightarrow> (\<exists>c. s = [c])"
| "rx_match (CLASS negated cs) b e s \<longleftrightarrow> (\<exists>c. s = [c] \<and> class_mem cs c \<noteq> negated)"
| "rx_match (ANCHOR w) b e s \<longleftrightarrow>
     s = [] \<and> (case w of REGEX_ANCHOR_START \<Rightarrow> b | REGEX_ANCHOR_END \<Rightarrow> e)"
| "rx_match (CONCAT l r) b e s \<longleftrightarrow>
     (\<exists>u v. s = u @ v \<and> rx_match l b (e \<and> v = []) u \<and> rx_match r (b \<and> u = []) e v)"
| "rx_match (ALT l r) b e s \<longleftrightarrow> rx_match l b e s \<or> rx_match r b e s"
| "rx_match (REP c m n) b e s \<longleftrightarrow>
     (\<exists>i. m \<le> int i \<and> (n < 0 \<or> int i \<le> n) \<and> iter_match (rx_match c) i b e s)"
| "rx_match (APPROX c k) b e s \<longleftrightarrow> (\<exists>s0. rx_match c b e s0 \<and> lev (nat k) s0 s)"

text \<open>A row matches when some piece of its text does, as the operators \<open>~\<close> and \<open>%~~\<close> decide.\<close>

definition row_match :: "RegexAst \<Rightarrow> int list \<Rightarrow> bool" where
  "row_match ast txt \<longleftrightarrow>
     (\<exists>pre s suf. txt = pre @ s @ suf \<and> rx_match ast (pre = []) (suf = []) s)"

text \<open>
  With a global budget \<open>k\<close> a row matches when some piece of it is at most \<open>k\<close> edits away
  from a match. Where that match would sit in the text is left open, so anchors hold as
  weakly as possible.
\<close>

definition approx_row_match :: "RegexAst \<Rightarrow> nat \<Rightarrow> int list \<Rightarrow> bool" where
  "approx_row_match ast k txt \<longleftrightarrow>
     (\<exists>pre t suf s b e. txt = pre @ t @ suf \<and> rx_match ast b e s \<and> lev k s t)"

section \<open>Iteration\<close>

lemma iff_exI_append:
  fixes s :: "int list"
  shows "(\<exists>u1 u2 v. s = u1 @ u2 @ v \<and> M b (e \<and> u2 @ v = []) u1
      \<and> I (b \<and> u1 = []) (e \<and> v = []) u2 \<and> J (b \<and> u1 = [] \<and> u2 = []) e v)
   \<longleftrightarrow> (\<exists>u v. s = u @ v
      \<and> (\<exists>u1 u2. u = u1 @ u2 \<and> M b ((e \<and> v = []) \<and> u2 = []) u1 \<and> I (b \<and> u1 = []) (e \<and> v = []) u2)
      \<and> J (b \<and> u = []) e v)" (is "?L = ?R")
proof -
  have eq: "((e \<and> v = []) \<and> u2 = []) = (e \<and> u2 @ v = [])" for u2 v :: "int list" by auto
  have "?R \<longleftrightarrow> (\<exists>u1 u2 v. s = (u1 @ u2) @ v \<and> M b ((e \<and> v = []) \<and> u2 = []) u1
      \<and> I (b \<and> u1 = []) (e \<and> v = []) u2 \<and> J (b \<and> u1 @ u2 = []) e v)" by blast
  then show ?thesis unfolding eq by (simp only: append_assoc append_is_Nil_conv)
qed

lemma iter_match_split:
  "iter_match M (m + n) b e s \<longleftrightarrow>
     (\<exists>u v. s = u @ v \<and> iter_match M m b (e \<and> v = []) u \<and> iter_match M n (b \<and> u = []) e v)"
proof (induction m arbitrary: b s)
  case (Suc m)
  have "iter_match M (Suc m + n) b e s \<longleftrightarrow> (\<exists>u1 u2 v. s = u1 @ u2 @ v \<and> M b (e \<and> u2 @ v = []) u1
      \<and> iter_match M m (b \<and> u1 = []) (e \<and> v = []) u2
      \<and> iter_match M n (b \<and> u1 = [] \<and> u2 = []) e v)"
    unfolding add_Suc iter_match.simps Suc conj_assoc by blast
  also have "\<dots> \<longleftrightarrow> (\<exists>u v. s = u @ v \<and> iter_match M (Suc m) b (e \<and> v = []) u
      \<and> iter_match M n (b \<and> u = []) e v)"
    unfolding iter_match.simps by (rule iff_exI_append)
  finally show ?case .
qed simp

section \<open>Evaluation\<close>

text \<open>Matching on concrete texts, with the cut points enumerated.\<close>

lemma ex_split_list:
  "(\<exists>u v. s = u @ v \<and> P u v) \<longleftrightarrow> list_ex (\<lambda>n. P (take n s) (drop n s)) [0..<Suc (length s)]"
proof
  assume "\<exists>u v. s = u @ v \<and> P u v"
  then obtain u v where "s = u @ v" "P u v" by blast
  then show "list_ex (\<lambda>n. P (take n s) (drop n s)) [0..<Suc (length s)]"
    unfolding list_ex_iff by (intro bexI[of _ "length u"]) auto
qed (auto simp: list_ex_iff intro: append_take_drop_id[symmetric])

lemma ex_fixed_count: "(\<exists>i. k \<le> i \<and> i \<le> k \<and> P i) \<longleftrightarrow> P (k :: nat)"
  by (auto dest: antisym)

lemma row_matchI: "rx_match ast (pre = []) (suf = []) s \<Longrightarrow> txt = pre @ s @ suf \<Longrightarrow> row_match ast txt"
  unfolding row_match_def by blast

lemma approx_row_matchI:
  "rx_match ast b e s \<Longrightarrow> lev k s t \<Longrightarrow> txt = pre @ t @ suf \<Longrightarrow> approx_row_match ast k txt"
  unfolding approx_row_match_def by blast

lemmas rx_match_eval = ex_split_list ex_fixed_count upt_rec eval_nat_numeral

end
