(* ===== verification/Extract_Sound.thy ===== *)
theory Extract_Sound
  imports Extract_Run Regex_Semantics
begin

text \<open>
  Soundness of the exact extraction: what \<open>lin_append_node\<close> writes into the accumulator
  occurs in every matching text.

  The run that a subtree leaves behind depends on the subtree alone; \<open>shape\<close> computes it
  without the accumulator. \<open>full_ok\<close> and \<open>tail_ok\<close> say how such a run relates to a text
  the subtree matches, and both compose along concatenation.
\<close>

section \<open>Runs and texts\<close>

definition last2 :: "'a list \<Rightarrow> 'a list" where
  "last2 xs = drop (length xs - 2) xs"

text \<open>Every window of three positions of \<open>R\<close> is matched by a factor of \<open>s\<close>.\<close>

definition win_ok :: "RunPos list \<Rightarrow> int list \<Rightarrow> bool" where
  "win_ok R s \<longleftrightarrow> (\<forall>W. sublist W R \<and> length W = 3 \<longrightarrow> (\<exists>v. posmatch W v \<and> sublist v s))"

text \<open>\<dots> and the last two positions by the end of \<open>s\<close>.\<close>

definition tail_ok :: "RunPos list \<Rightarrow> int list \<Rightarrow> bool" where
  "tail_ok R s \<longleftrightarrow> win_ok R s \<and> (\<exists>v. posmatch (last2 R) v \<and> suffix v s)"

text \<open>\<dots> and the first two by its start; a run of fewer than two positions is all of \<open>s\<close>.\<close>

definition full_ok :: "RunPos list \<Rightarrow> int list \<Rightarrow> bool" where
  "full_ok R s \<longleftrightarrow> tail_ok R s \<and> (\<exists>v. posmatch (take 2 R) v \<and> prefix v s)
     \<and> (length R \<le> 1 \<longrightarrow> posmatch R s)"

lemma win_ok_mono: "win_ok R s \<Longrightarrow> sublist s t \<Longrightarrow> win_ok R t"
  unfolding win_ok_def using sublist_trans by blast

lemma tail_ok_Nil [simp]: "tail_ok [] s"
  by (auto simp: tail_ok_def win_ok_def last2_def)

lemma tail_ok_append_left: "tail_ok R s \<Longrightarrow> tail_ok R (u @ s)"
  unfolding tail_ok_def using win_ok_mono[of R s "u @ s"] by (auto simp: suffix_def)

lemma full_okD_tail: "full_ok R s \<Longrightarrow> tail_ok R s"
  by (simp add: full_ok_def)

lemma full_ok_Nil [simp]: "full_ok [] s \<longleftrightarrow> s = []"
  by (auto simp: full_ok_def)

lemma full_ok_single [simp]: "full_ok [p] s \<longleftrightarrow> posmatch [p] s"
proof
  show "full_ok [p] s" if "posmatch [p] s"
    using that unfolding full_ok_def tail_ok_def win_ok_def last2_def
    by (auto dest: sublist_length_le)
qed (simp add: full_ok_def)

lemma sublist_append_length:
  assumes "sublist W (A @ B)"
  shows "sublist W A \<or> sublist W B \<or>
    (\<exists>W1 W2. W = W1 @ W2 \<and> W1 \<noteq> [] \<and> W2 \<noteq> [] \<and> suffix W1 A \<and> prefix W2 B)"
  using assms suffix_imp_sublist[of W A] prefix_imp_sublist[of W B]
  unfolding sublist_append by (metis append_Nil append_Nil2)

lemma last2_append:
  "length B \<ge> 2 \<Longrightarrow> last2 (A @ B) = last2 B"
  by (simp add: last2_def)

lemma last2_snoc: "A \<noteq> [] \<Longrightarrow> last2 (A @ [p]) = [last A, p]"
  by (cases A rule: rev_cases) (simp_all add: last2_def)

lemma suffix_last2: "suffix (last2 A) A"
  by (simp add: last2_def suffix_drop)

lemma suffix_in_last2:
  assumes "suffix W A" and "length W \<le> 2"
  shows "suffix W (last2 A)"
  using assms suffix_last2[of A] suffix_length_suffix[of W A "last2 A"]
  by (auto simp: last2_def dest: suffix_length_le)

lemma posmatch_suffix:
  assumes "posmatch R v" and "suffix S R"
  shows "\<exists>w. posmatch S w \<and> suffix w v"
proof -
  from assms(2) obtain zs where "R = zs @ S" by (auto simp: suffix_def)
  with assms(1) obtain u w where "v = u @ w" "posmatch S w" by (auto simp: posmatch_append_left)
  then show ?thesis by (auto simp: suffix_def)
qed

lemma posmatch_prefix:
  assumes "posmatch R v" and "prefix S R"
  shows "\<exists>w. posmatch S w \<and> prefix w v"
proof -
  from assms(2) obtain zs where "R = S @ zs" by (auto simp: prefix_def)
  with assms(1) obtain u w where "v = u @ w" "posmatch S u" by (auto simp: posmatch_append_left)
  then show ?thesis by (auto simp: prefix_def)
qed

lemma tail_ok_suffix:
  assumes "tail_ok R s" and "suffix W R" and "length W \<le> 2"
  shows "\<exists>v. posmatch W v \<and> suffix v s"
proof -
  from assms obtain v where "posmatch (last2 R) v" "suffix v s" by (auto simp: tail_ok_def)
  with posmatch_suffix[OF this(1) suffix_in_last2[OF assms(2,3)]] show ?thesis
    using suffix_order.order_trans by blast
qed

lemma full_ok_prefix:
  assumes "full_ok R s" and "prefix W R" and "length W \<le> 2"
  shows "\<exists>v. posmatch W v \<and> prefix v s"
proof -
  from assms obtain v where v: "posmatch (take 2 R) v" "prefix v s" by (auto simp: full_ok_def)
  have "prefix W (take 2 R)"
    using assms(2,3) by (auto simp: prefix_def)
  with posmatch_prefix[OF v(1)] v(2) show ?thesis
    using prefix_order.order_trans by blast
qed

lemma suffix_prefix_sublist: "suffix u s \<Longrightarrow> prefix v t \<Longrightarrow> sublist (u @ v) (s @ t)"
  unfolding suffix_def prefix_def sublist_def by (metis append_assoc)

lemma win_ok_append:
  assumes "tail_ok R1 s1" and "full_ok R2 s2"
  shows "win_ok (R1 @ R2) (s1 @ s2)"
  unfolding win_ok_def
proof (intro allI impI)
  fix W assume W: "sublist W (R1 @ R2) \<and> length W = 3"
  from sublist_append_length[of W R1 R2] W consider
      "sublist W R1" | "sublist W R2"
    | W1 W2 where "W = W1 @ W2" "W1 \<noteq> []" "W2 \<noteq> []" "suffix W1 R1" "prefix W2 R2"
    by blast
  then show "\<exists>v. posmatch W v \<and> sublist v (s1 @ s2)"
  proof cases
    case 1
    with W assms(1) obtain v where "posmatch W v" "sublist v s1"
      by (auto simp: tail_ok_def win_ok_def)
    then show ?thesis by (auto intro: factor_intros)
  next
    case 2
    with W assms(2) obtain v where "posmatch W v" "sublist v s2"
      by (auto simp: full_ok_def tail_ok_def win_ok_def)
    then show ?thesis by (auto intro: factor_intros)
  next
    case 3
    from W 3(1) have "length W1 + length W2 = 3" by simp
    moreover from 3(2,3) have "length W1 \<ge> 1" "length W2 \<ge> 1" by (simp_all add: Suc_le_eq)
    ultimately have "length W1 \<le> 2" "length W2 \<le> 2" by simp_all
    with tail_ok_suffix[OF assms(1) 3(4)] full_ok_prefix[OF assms(2) 3(5)]
    obtain u v where "posmatch W1 u" "suffix u s1" "posmatch W2 v" "prefix v s2" by blast
    with 3(1) show ?thesis using posmatch_append suffix_prefix_sublist by blast
  qed
qed

lemma tail_ok_append:
  assumes "tail_ok R1 s1" and "full_ok R2 s2"
  shows "tail_ok (R1 @ R2) (s1 @ s2)"
proof -
  have "\<exists>v. posmatch (last2 (R1 @ R2)) v \<and> suffix v (s1 @ s2)"
  proof (cases "length R2 \<ge> 2")
    case True
    with tail_ok_suffix[OF full_okD_tail[OF assms(2)] suffix_last2] show ?thesis
      by (auto simp: last2_append last2_def suffix_def)
  next
    case False
    then have R2: "posmatch R2 s2" using assms(2) by (simp add: full_ok_def)
    obtain W where W: "last2 (R1 @ R2) = W @ R2" "suffix W R1" "length W \<le> 2"
    proof
      show "last2 (R1 @ R2) = drop (length R1 + length R2 - 2) R1 @ R2"
        using False by (simp add: last2_def)
    qed (use False in \<open>auto simp: suffix_drop\<close>)
    from tail_ok_suffix[OF assms(1) W(2,3)] obtain v where "posmatch W v" "suffix v s1" by blast
    with R2 W(1) have "posmatch (last2 (R1 @ R2)) (v @ s2)" "suffix (v @ s2) (s1 @ s2)"
      by (auto simp: suffix_def intro: posmatch_append)
    then show ?thesis by blast
  qed
  with win_ok_append[OF assms] show ?thesis by (simp add: tail_ok_def)
qed

lemma full_ok_append:
  assumes "full_ok R1 s1" and "full_ok R2 s2"
  shows "full_ok (R1 @ R2) (s1 @ s2)"
proof -
  have "\<exists>v. posmatch (take 2 (R1 @ R2)) v \<and> prefix v (s1 @ s2)"
  proof (cases "length R1 \<ge> 2")
    case True
    from assms(1) obtain v where "posmatch (take 2 R1) v" "prefix v s1"
      by (auto simp: full_ok_def)
    with True show ?thesis by auto
  next
    case False
    then have R1: "posmatch R1 s1" using assms(1) by (simp add: full_ok_def)
    from full_ok_prefix[OF assms(2), of "take (2 - length R1) R2"]
    obtain v where "posmatch (take (2 - length R1) R2) v" "prefix v s2"
      by (auto simp: take_is_prefix min_le_iff_disj)
    with R1 False have "posmatch (take 2 (R1 @ R2)) (s1 @ v)" "prefix (s1 @ v) (s1 @ s2)"
      by (auto intro: posmatch_append)
    then show ?thesis by blast
  qed
  moreover have "posmatch (R1 @ R2) (s1 @ s2)" if "length (R1 @ R2) \<le> 1"
    using that assms by (auto simp: full_ok_def intro: posmatch_append)
  ultimately show ?thesis
    using tail_ok_append[OF full_okD_tail[OF assms(1)] assms(2)] by (simp add: full_ok_def)
qed

text \<open>A run of at least two positions that fits both ends of a text fits the text.\<close>

lemma full_ok_ends:
  assumes "full_ok R s1" and "full_ok R s2" and "length R \<ge> 2"
    and "prefix s1 s" and "suffix s2 s"
  shows "full_ok R s"
proof -
  have "win_ok R s" using assms(1,4) win_ok_mono
    by (auto simp: full_ok_def tail_ok_def)
  moreover have "\<exists>v. posmatch (last2 R) v \<and> suffix v s"
    using assms(2,5) suffix_order.order_trans by (auto simp: full_ok_def tail_ok_def)
  moreover have "\<exists>v. posmatch (take 2 R) v \<and> prefix v s"
    using assms(1,4) prefix_order.order_trans by (auto simp: full_ok_def)
  ultimately show ?thesis using assms(3) by (simp add: full_ok_def tail_ok_def)
qed

section \<open>The shape of a subtree\<close>

text \<open>
  \<open>(f, R)\<close>: whether the walk of the subtree breaks the run, and the positions it adds
  (after the last break, if there is one).
\<close>

type_synonym run_shape = "bool \<times> RunPos list"

definition shape_comp :: "run_shape \<Rightarrow> run_shape \<Rightarrow> run_shape" where
  "shape_comp x y = (if fst y then y else (fst x, snd x @ snd y))"

primrec shape :: "RegexAst \<Rightarrow> run_shape" where
  "shape (LITERAL c) = (False, [[c]])"
| "shape ANY = (True, [])"
| "shape (CLASS negated cs) =
     (case run_append_class negated cs lin_init of Some lc \<Rightarrow> (False, run lc) | None \<Rightarrow> (True, []))"
| "shape (ANCHOR w) = (False, [])"
| "shape (CONCAT l r) = shape_comp (shape l) (shape r)"
| "shape (ALT l r) = (True, [])"
| "shape (REP c m n) =
     (if m = 0 then (True, [])
      else (let k = rep_copies c m n; sh = ((\<lambda>x. shape_comp x (shape c)) ^^ nat k) (False, [])
            in if n \<noteq> m \<and> k = 1 \<and> \<not> fst sh \<and> length (snd sh) \<le> 1 then (True, []) else sh))"
| "shape (APPROX c k) = shape c"

definition shape_ok :: "run_shape \<Rightarrow> int list \<Rightarrow> bool" where
  "shape_ok sh s \<longleftrightarrow> (if fst sh then tail_ok (snd sh) s else full_ok (snd sh) s)"

lemma shape_comp_Nil [simp]: "shape_comp (False, []) y = y"
  by (cases y) (auto simp: shape_comp_def)

lemma shape_ok_comp:
  "shape_ok x s \<Longrightarrow> shape_ok y t \<Longrightarrow> shape_ok (shape_comp x y) (s @ t)"
  by (auto simp: shape_ok_def shape_comp_def
      intro: tail_ok_append full_ok_append tail_ok_append_left)

lemma shape_ok_iter:
  assumes c: "\<And>b e s. M b e s \<Longrightarrow> shape_ok sh s" and "iter_match M k b e s"
  shows "shape_ok (((\<lambda>x. shape_comp x sh) ^^ k) (False, [])) s"
  using assms(2)
proof (induction k arbitrary: e s)
  case (Suc k)
  have "iter_match M (k + 1) b e s" using Suc.prems by simp
  then obtain u v where uv: "s = u @ v" "iter_match M k b (e \<and> v = []) u"
      "iter_match M 1 (b \<and> u = []) e v"
    unfolding iter_match_split by blast
  then have "shape_ok sh v" using c by auto
  with Suc.IH[OF uv(2)] uv(1) show ?case by (simp add: shape_ok_comp)
qed (simp add: shape_ok_def)

lemma shape_iter_fst: "fst (((\<lambda>x. shape_comp x sh) ^^ k) (False, [])) \<longleftrightarrow> k > 0 \<and> fst sh"
  by (induction k) (auto simp: shape_comp_def)

lemma shape_iter_unflushed:
  "\<not> fst sh \<Longrightarrow> ((\<lambda>x. shape_comp x sh) ^^ k) (False, []) = (False, concat (replicate k (snd sh)))"
proof (induction k)
  case (Suc k)
  then show ?case
    by (simp add: shape_comp_def) (metis append_Nil2 concat.simps concat_append replicate_append_same)
qed simp

text \<open>
  A repetition of at least \<open>k\<close> copies fits the shape of exactly \<open>k\<close> of them, unless that
  shape is a single position and the copies are more.
\<close>

lemma iter_match_all_Nil:
  assumes "\<And>b e s. M b e s \<Longrightarrow> s = []" and "iter_match M k b e s"
  shows "s = []"
  using assms(2)
proof (induction k arbitrary: b s)
  case (Suc k)
  then show ?case using assms(1) by fastforce
qed simp

lemma shape_ok_iter_more:
  assumes c: "\<And>b e s. M b e s \<Longrightarrow> shape_ok sh s" and it: "iter_match M i b e s"
    and k: "k \<le> i" and sh: "sk = ((\<lambda>x. shape_comp x sh) ^^ k) (False, [])"
    and many: "k = i \<or> fst sk \<or> length (snd sk) \<noteq> 1" and pos: "k > 0"
  shows "shape_ok sk s"
proof -
  have "iter_match M (k + (i - k)) b e s" "iter_match M ((i - k) + k) b e s" using it k by simp_all
  then obtain u v u' v' b1 e1 where uv: "s = u @ v" "iter_match M k b e1 u"
      and uv': "s = u' @ v'" "iter_match M k b1 e v'"
    unfolding iter_match_split by blast
  have first: "shape_ok sk u" using shape_ok_iter[OF c uv(2)] sh by simp
  have last: "shape_ok sk v'" using shape_ok_iter[OF c uv'(2)] sh by simp
  show ?thesis
  proof (cases "fst sk")
    case True
    with last uv'(1) show ?thesis by (simp add: shape_ok_def tail_ok_append_left)
  next
    case False
    with pos sh have nf: "\<not> fst sh" by (simp add: shape_iter_fst)
    consider "k = i" | "length (snd sk) \<ge> 2" | "snd sk = []"
      using many False by (cases "snd sk"; cases "tl (snd sk)") auto
    then show ?thesis
    proof cases
      case 1
      with shape_ok_iter[OF c it] sh show ?thesis by simp
    next
      case 2
      have "prefix u s" using uv(1) by simp
      moreover have "suffix v' s" using uv'(1) by (simp add: suffix_def)
      ultimately show ?thesis
        using full_ok_ends[of "snd sk" u v' s] first last False 2 by (simp add: shape_ok_def)
    next
      case 3
      with sh pos have "snd sh = []" by (simp add: shape_iter_unflushed[OF nf]) 
      then have "s = []" using iter_match_all_Nil[OF _ it] c nf by (auto simp: shape_ok_def)
      with 3 False show ?thesis by (simp add: shape_ok_def)
    qed
  qed
qed

section \<open>Every match fits the shape\<close>

text \<open>No local edit budget: the patterns the exact walk speaks about.\<close>

primrec exact_ast :: "RegexAst \<Rightarrow> bool" where
  "exact_ast (LITERAL c) = True"
| "exact_ast ANY = True"
| "exact_ast (CLASS negated cs) = True"
| "exact_ast (ANCHOR w) = True"
| "exact_ast (CONCAT l r) = (exact_ast l \<and> exact_ast r)"
| "exact_ast (ALT l r) = (exact_ast l \<and> exact_ast r)"
| "exact_ast (REP c m n) = (0 \<le> m \<and> exact_ast c)"
| "exact_ast (APPROX c k) = (k \<le> 0 \<and> exact_ast c)"

lemma set_class_members: "c \<in> set (class_members cs) \<longleftrightarrow> class_mem cs c"
  by (auto simp: class_members_def class_mem_def)

lemma run_append_class_Some:
  "run_append_class negated cs lc = Some lc' \<Longrightarrow>
     \<not> negated \<and> lc' = lc\<lparr> run := run lc @ [class_members cs] \<rparr>"
  by (auto simp: run_append_class_def split: if_splits option.splits)

lemma run_append_class_cases:
  "(\<forall>lc. run_append_class negated cs lc = None) \<or>
   \<not> negated \<and> (\<forall>lc. run_append_class negated cs lc = Some (lc\<lparr> run := run lc @ [class_members cs] \<rparr>))"
  by (auto simp: run_append_class_def split: if_splits option.splits)

lemma rep_copies_bounds:
  "m \<ge> 1 \<Longrightarrow> 1 \<le> rep_copies c m n \<and> rep_copies c m n \<le> m"
  by (auto simp: rep_copies_def REP_INLINE_MAX_def)

lemma rep_copies_one: "m \<ge> 1 \<Longrightarrow> rep_copies c m n = 1 \<longleftrightarrow> m = 1"
  by (auto simp: rep_copies_def REP_INLINE_MAX_def)

lemma shape_iter_length:
  "\<not> fst sh \<Longrightarrow> length (snd (((\<lambda>x. shape_comp x sh) ^^ k) (False, []))) = k * length (snd sh)"
  by (simp add: shape_iter_unflushed length_concat sum_list_replicate)

theorem shape_sound:
  "exact_ast ast \<Longrightarrow> rx_match ast b e s \<Longrightarrow> shape_ok (shape ast) s"
proof (induction ast arbitrary: b e s)
  case (CLASS negated cs)
  show ?case using run_append_class_cases[of negated cs]
  proof
    assume "\<forall>lc. run_append_class negated cs lc = None"
    then show ?thesis by (simp add: shape_ok_def)
  next
    assume "\<not> negated \<and> (\<forall>lc. run_append_class negated cs lc
      = Some (lc\<lparr> run := run lc @ [class_members cs] \<rparr>))"
    with CLASS show ?thesis
      by (auto simp: shape_ok_def lin_init_def set_class_members)
  qed
next
  case (CONCAT l r)
  then show ?case by (auto intro: shape_ok_comp)
next
  case (REP c m n)
  then have ex: "exact_ast c" "0 \<le> m" by simp_all
  from REP.prems(2) obtain i where i: "m \<le> int i" "n < 0 \<or> int i \<le> n"
      "iter_match (rx_match c) i b e s" by auto
  define k where "k = rep_copies c m n"
  define sk where "sk = ((\<lambda>x. shape_comp x (shape c)) ^^ nat k) (False, [])"
  show ?case
  proof (cases "m = 0 \<or> n \<noteq> m \<and> k = 1 \<and> \<not> fst sk \<and> length (snd sk) \<le> 1")
    case True
    then have "shape (REP c m n) = (True, [])" by (auto simp: k_def sk_def Let_def)
    then show ?thesis by (simp add: shape_ok_def)
  next
    case False
    then have sh: "shape (REP c m n) = sk" by (auto simp: k_def sk_def Let_def)
    from False ex(2) have m: "m \<ge> 1" by simp
    then have kb: "1 \<le> k" "k \<le> m" "k = 1 \<longleftrightarrow> m = 1"
      using rep_copies_bounds rep_copies_one by (simp_all add: k_def)
    have "nat k = i \<or> fst sk \<or> length (snd sk) \<noteq> 1"
    proof (rule ccontr)
      assume "\<not> ?thesis"
      then have a: "nat k \<noteq> i" "\<not> fst sk" "length (snd sk) = 1" by auto
      with kb(1) have "\<not> fst (shape c)" by (simp add: sk_def shape_iter_fst)
      with a(3) have "nat k = 1" by (simp add: sk_def shape_iter_length)
      with a(2,3) False kb(3) i a(1) show False by auto
    qed
    then show ?thesis
      using shape_ok_iter_more[where M = "rx_match c" and k = "nat k" and sk = sk,
        OF REP.IH[OF ex(1)] i(3)] kb i(1) sh sk_def by simp
  qed
qed (auto simp: shape_ok_def dest: lev_0)

section \<open>The walk leaves the shape in the run\<close>

lemma accum_add_overflowed [simp]: "overflowed a \<Longrightarrow> accum_add fo t a = a"
  by (simp add: accum_add_def)

lemma accum_add_or_overflowed [simp]: "overflowed (accum_add_or ts a) = overflowed a"
  by (simp add: accum_add_or_def)

lemma accum_add_mono: "overflowed a \<Longrightarrow> overflowed (accum_add fo t a)"
  by simp

lemma emit_window_mono: "overflowed a \<Longrightarrow> overflowed (emit_window fo w a)"
  by (cases w) (auto simp: emit_window_def Let_def)

lemma fold_overflow_mono:
  "(\<And>x a. overflowed a \<Longrightarrow> overflowed (f x a)) \<Longrightarrow> overflowed a \<Longrightarrow> overflowed (fold f xs a)"
  by (induction xs arbitrary: a) auto

lemma run_emit_mono: "overflowed a \<Longrightarrow> overflowed (run_emit fo r a)"
  unfolding run_emit_def by (rule fold_overflow_mono[OF emit_window_mono])

lemma accum_intersect_mono: "overflowed ac \<Longrightarrow> overflowed (accum_intersect fo a b ac)"
  unfolding accum_intersect_def by (rule fold_overflow_mono) auto

lemma run_flush_sel [simp]:
  "run (run_flush fo lc) = []" "flushes (run_flush fo lc) = Suc (flushes lc)"
  "acc (run_flush fo lc) = run_emit fo (run lc) (acc lc)"
  by (simp_all add: run_flush_def)

lemma lin_append_node_overflowed: "overflowed (acc lc) \<Longrightarrow> lin_append_node fo ast lc = lc"
  by (cases ast) auto

lemma funpow_fixpoint: "f x = x \<Longrightarrow> (f ^^ k) x = x"
  by (induction k) auto

lemma lin_pow_overflowed:
  "overflowed (acc lc) \<Longrightarrow> (lin_append_node fo ast ^^ k) lc = lc"
  by (rule funpow_fixpoint) (rule lin_append_node_overflowed)

text \<open>\<open>run_after sh lc lc'\<close>: \<open>lc'\<close> has the run and the flush counter that the shape gives.\<close>

definition run_after :: "run_shape \<Rightarrow> LinCtx \<Rightarrow> LinCtx \<Rightarrow> bool" where
  "run_after sh lc lc' \<longleftrightarrow>
     run lc' = (if fst sh then snd sh else run lc @ snd sh)
     \<and> (if fst sh then flushes lc < flushes lc' else flushes lc' = flushes lc)"

lemma run_after_comp:
  "run_after x lc lc1 \<Longrightarrow> run_after y lc1 lc2 \<Longrightarrow> run_after (shape_comp x y) lc lc2"
  by (auto simp: run_after_def shape_comp_def split: if_splits)

lemma run_after_Nil: "run_after (False, []) lc lc"
  by (simp add: run_after_def)

lemma run_after_flush: "run_after x lc lc1 \<Longrightarrow> run_after (True, []) lc (run_flush fo lc1)"
  by (auto simp: run_after_def split: if_splits)

lemma run_after_pow:
  assumes step: "\<And>lc. \<not> overflowed (acc (f lc)) \<Longrightarrow> run_after sh lc (f lc)"
    and over: "\<And>lc. overflowed (acc lc) \<Longrightarrow> f lc = lc"
    and "\<not> overflowed (acc ((f ^^ k) lc))"
  shows "run_after (((\<lambda>x. shape_comp x sh) ^^ k) (False, [])) lc ((f ^^ k) lc)"
  using assms(3)
proof (induction k)
  case (Suc k)
  have "\<not> overflowed (acc ((f ^^ k) lc))" using Suc.prems over by fastforce
  with Suc step show ?case by (auto intro: run_after_comp)
qed (simp add: run_after_Nil)

lemma run_after_flushed_iff: "run_after sh lc lc' \<Longrightarrow> fst sh \<longleftrightarrow> flushes lc' \<noteq> flushes lc"
  by (auto simp: run_after_def split: if_splits)

lemma lin_append_node_REP:
  assumes "m \<noteq> 0" and "\<not> overflowed (acc lc)"
    and "k = rep_copies c m n" and "lc1 = (lin_append_node fo c ^^ nat k) lc"
  shows "lin_append_node fo (REP c m n) lc =
    (if n \<noteq> m \<and> k = 1 \<and> flushes lc1 = flushes lc
        \<and> int (length (run lc1)) - int (length (run lc)) \<le> 1 then run_flush fo lc1 else lc1)"
  unfolding lin_append_node.simps Let_def assms(3,4) using assms(1,2) by presburger

lemma lin_append_node_shape:
  "\<not> overflowed (acc (lin_append_node fo ast lc)) \<Longrightarrow> run_after (shape ast) lc (lin_append_node fo ast lc)"
proof (induction ast arbitrary: lc)
  case (LITERAL c)
  then show ?case by (auto simp: run_after_def run_append_cp_def)
next
  case ANY
  then show ?case by (auto simp: run_after_def split: if_splits)
next
  case (CLASS negated cs)
  show ?case using run_append_class_cases[of negated cs] CLASS
    by (auto simp: run_after_def lin_init_def split: if_splits)
next
  case (ANCHOR w)
  then show ?case by (simp add: run_after_Nil)
next
  case (CONCAT l r)
  then have "\<not> overflowed (acc (lin_append_node fo l lc))"
    using lin_append_node_overflowed by (fastforce split: if_splits)
  with CONCAT show ?case by (auto intro: run_after_comp split: if_splits)
next
  case (ALT l r)
  then show ?case by (auto simp: run_after_def Let_def split: if_splits)
next
  case (REP c m n)
  define k where "k = rep_copies c m n"
  define sk where "sk = ((\<lambda>x. shape_comp x (shape c)) ^^ nat k) (False, [])"
  define lc1 where "lc1 = (lin_append_node fo c ^^ nat k) lc"
  have o: "\<not> overflowed (acc lc)" using REP.prems by (auto split: if_splits)
  show ?case
  proof (cases "m = 0")
    case True
    with o show ?thesis by (simp add: run_after_def)
  next
    case False
    have o1: "\<not> overflowed (acc lc1)"
      using REP.prems False o run_emit_mono
      by (auto simp: lc1_def k_def Let_def split: if_splits)
    then have ra: "run_after sk lc lc1"
      unfolding lc1_def sk_def
      by (intro run_after_pow[OF REP.IH]) (auto simp: lin_append_node_overflowed)
    have "(flushes lc1 = flushes lc \<and> int (length (run lc1)) - int (length (run lc)) \<le> 1)
        \<longleftrightarrow> (\<not> fst sk \<and> length (snd sk) \<le> 1)"
      using ra by (auto simp: run_after_def split: if_splits)
    moreover note lin_append_node_REP[OF False o k_def lc1_def]
    moreover have "shape (REP c m n) =
        (if n \<noteq> m \<and> k = 1 \<and> \<not> fst sk \<and> length (snd sk) \<le> 1 then (True, []) else sk)"
      unfolding shape.simps Let_def k_def sk_def using False by presburger
    ultimately show ?thesis using ra run_after_flush[OF ra] by presburger
  qed
next
  case (APPROX c k)
  then show ?case by (auto split: if_splits)
qed

section \<open>The accumulator holds required trigrams\<close>

definition alt_ok :: "trigram list \<Rightarrow> int list \<Rightarrow> bool" where
  "alt_ok ts P \<longleftrightarrow> (\<exists>t \<in> set ts. t \<in> set (windows3 P))"

definition acc_ok :: "TrigramAccum \<Rightarrow> int list \<Rightarrow> bool" where
  "acc_ok a P \<longleftrightarrow> set (tris a) \<subseteq> set (windows3 P) \<and> (\<forall>g \<in> set (or_tris a). alt_ok g P)"

lemma acc_ok_mono:
  assumes "acc_ok a P" and "sublist P Q"
  shows "acc_ok a Q"
  using assms(1) set_windows3_mono[OF assms(2)] unfolding acc_ok_def alt_ok_def by blast

lemma acc_ok_init [simp]: "acc_ok accum_init P"
  by (simp add: acc_ok_def accum_init_def)

lemma acc_ok_add: "acc_ok a P \<Longrightarrow> t \<in> set (windows3 P) \<Longrightarrow> acc_ok (accum_add fo t a) P"
  by (auto simp: acc_ok_def accum_add_def)

lemma acc_ok_add_or: "acc_ok a P \<Longrightarrow> alt_ok ts P \<Longrightarrow> acc_ok (accum_add_or ts a) P"
  by (auto simp: acc_ok_def accum_add_or_def)

lemma acc_ok_fold:
  "(\<And>x a. x \<in> set xs \<Longrightarrow> acc_ok a P \<Longrightarrow> acc_ok (f x a) P) \<Longrightarrow> acc_ok a P \<Longrightarrow> acc_ok (fold f xs a) P"
  by (induction xs arbitrary: a) auto

lemma acc_ok_emit_window:
  assumes "acc_ok ac P" and "posmatch [a, b, c] v" and "sublist v P"
  shows "acc_ok (emit_window fo (a, b, c) ac) P"
proof -
  from assms(2) obtain x y z where v: "v = [x, y, z]" "x \<in> set a" "y \<in> set b" "z \<in> set c"
    by (auto simp: posmatch_Cons_left)
  then have win: "(x, y, z) \<in> set (windows3 P)" using assms(3) by (simp add: windows3_sublist)
  with v have alts: "alt_ok (window_alts a b c) P"
    by (force simp: alt_ok_def window_alts_def)
  have "(hd a, hd b, hd c) = (x, y, z)" if "length a * length b * length c = 1"
    using that v(2-4) by (auto simp: length_Suc_conv)
  with win alts assms(1) show ?thesis
    by (auto simp: emit_window_def Let_def intro: acc_ok_add acc_ok_add_or)
qed

lemma acc_ok_run_emit:
  assumes "acc_ok ac P" and "win_ok r P"
  shows "acc_ok (run_emit fo r ac) P"
  unfolding run_emit_def
proof (rule acc_ok_fold)
  fix w ac assume w: "w \<in> set (windows3 r)" and "acc_ok ac P"
  obtain a b c where abc [simp]: "w = (a, b, c)" by (cases w)
  from w have "sublist [a, b, c] r" by (simp add: windows3_sublist)
  with assms(2) obtain v where "posmatch [a, b, c] v" "sublist v P"
    by (auto simp: win_ok_def)
  then show "acc_ok (emit_window fo w ac) P"
    using \<open>acc_ok ac P\<close> by (simp only: abc acc_ok_emit_window)
qed (rule assms(1))

lemma acc_ok_intersect:
  assumes "acc_ok ac P" and "set (tris a) \<inter> set (tris b) \<subseteq> set (windows3 P)"
  shows "acc_ok (accum_intersect fo a b ac) P"
  unfolding accum_intersect_def
  by (rule acc_ok_fold) (use assms in \<open>auto intro: acc_ok_add\<close>)

text \<open>
  The invariant of the walk after the text \<open>P\<close>: what was collected occurs in \<open>P\<close>, and the
  run still open ends where \<open>P\<close> ends.
\<close>

definition lin_ok :: "LinCtx \<Rightarrow> int list \<Rightarrow> bool" where
  "lin_ok lc P \<longleftrightarrow> acc_ok (acc lc) P \<and> (\<not> overflowed (acc lc) \<longrightarrow> tail_ok (run lc) P)"

lemma lin_ok_run_emit:
  assumes "lin_ok lc P"
  shows "acc_ok (run_emit fo (run lc) (acc lc)) P"
proof (cases "overflowed (acc lc)")
  case True
  have "fold (emit_window fo) ws a = a" if "overflowed a" for ws a
    using that by (induction ws) (auto simp: emit_window_def Let_def accum_add_or_def)
  with True assms show ?thesis by (simp add: lin_ok_def run_emit_def)
next
  case False
  with assms show ?thesis by (simp add: lin_ok_def tail_ok_def acc_ok_run_emit)
qed

lemma run_after_tail_ok:
  assumes "tail_ok (run lc) P" and "run_after sh lc lc'" and "shape_ok sh s"
  shows "tail_ok (run lc') (P @ s)"
  using assms by (auto simp: run_after_def shape_ok_def intro: tail_ok_append tail_ok_append_left split: if_splits)

text \<open>It is enough to show the accumulator part: the run part follows from the shape.\<close>

lemma lin_okI:
  assumes "lin_ok lc P" and "exact_ast ast" and "rx_match ast b e s"
    and "acc_ok (acc (lin_append_node fo ast lc)) (P @ s)"
  shows "lin_ok (lin_append_node fo ast lc) (P @ s)"
proof -
  let ?lc = "lin_append_node fo ast lc"
  have "tail_ok (run ?lc) (P @ s)" if o: "\<not> overflowed (acc ?lc)"
  proof -
    have "\<not> overflowed (acc lc)" using o lin_append_node_overflowed by metis
    with assms(1) have "tail_ok (run lc) P" by (simp add: lin_ok_def)
    then show ?thesis
      using lin_append_node_shape[OF o] shape_sound[OF assms(2,3)] by (rule run_after_tail_ok)
  qed
  with assms(4) show ?thesis by (simp add: lin_ok_def)
qed

lemma lin_ok_iter:
  assumes step: "\<And>lc P b e s. lin_ok lc P \<Longrightarrow> M b e s \<Longrightarrow> lin_ok (f lc) (P @ s)"
    and "lin_ok lc P" and "iter_match M k b e s"
  shows "lin_ok ((f ^^ k) lc) (P @ s)"
  using assms(2,3)
proof (induction k arbitrary: lc P b s)
  case (Suc k)
  then obtain u v where uv: "s = u @ v" "M b (e \<and> v = []) u" "iter_match M k (b \<and> u = []) e v"
    by auto
  have "lin_ok (f lc) (P @ u)" using step Suc.prems(1) uv(2) by blast
  from Suc.IH[OF this uv(3)] uv(1) show ?case by (simp add: funpow_swap1)
qed simp

lemma lin_ok_fresh: "lin_ok (lc\<lparr> acc := accum_init, run := [] \<rparr>) []"
  by (simp add: lin_ok_def)

lemma lin_ok_flush:
  assumes "lin_ok lc P"
  shows "acc_ok (acc (run_flush fo lc)) (P @ s)"
  using acc_ok_mono[OF lin_ok_run_emit[OF assms], of "P @ s"] by simp

lemma lin_ok_acc: "lin_ok lc P \<Longrightarrow> acc_ok (acc lc) (P @ s)"
  using acc_ok_mono[of "acc lc" P "P @ s"] by (simp add: lin_ok_def)

theorem lin_append_node_ok:
  "exact_ast ast \<Longrightarrow> rx_match ast b e s \<Longrightarrow> lin_ok lc P \<Longrightarrow> lin_ok (lin_append_node fo ast lc) (P @ s)"
proof (induction ast arbitrary: b e s lc P)
  case (LITERAL c)
  show ?case
    by (rule lin_okI[OF LITERAL(3,1,2)]) (simp add: run_append_cp_def lin_ok_acc[OF LITERAL(3)])
next
  case ANY
  show ?case
    by (rule lin_okI[OF ANY(3,1,2)]) (simp add: lin_ok_acc[OF ANY(3)] lin_ok_flush[OF ANY(3), simplified])
next
  case (CLASS negated cs)
  show ?case
    by (rule lin_okI[OF CLASS(3,1,2)])
       (auto simp: lin_ok_acc[OF CLASS(3)] lin_ok_flush[OF CLASS(3), simplified]
          dest: run_append_class_Some split: option.split)
next
  case (ANCHOR w)
  then show ?case by auto
next
  case (CONCAT l r)
  from CONCAT.prems(2) obtain u v where uv: "s = u @ v" "rx_match l b (e \<and> v = []) u"
      "rx_match r (b \<and> u = []) e v" by auto
  have "lin_ok (lin_append_node fo r (lin_append_node fo l lc)) (P @ s)"
    using CONCAT.IH(2)[OF _ uv(3) CONCAT.IH(1)[OF _ uv(2) CONCAT.prems(3)]] CONCAT.prems(1) uv(1)
    by simp
  with lin_ok_acc[OF CONCAT.prems(3), of s] show ?case by (simp add: lin_ok_def)
next
  case (ALT l r)
  define lca where "lca = lin_append_node fo l (lc\<lparr> acc := accum_init, run := [] \<rparr>)"
  define lcb where "lcb = lin_append_node fo r (lc\<lparr> acc := accum_init, run := [] \<rparr>)"
  have "acc_ok (run_emit fo (run lca) (acc lca)) s \<or> acc_ok (run_emit fo (run lcb) (acc lcb)) s"
    using ALT.prems(1,2) ALT.IH(1)[OF _ _ lin_ok_fresh] ALT.IH(2)[OF _ _ lin_ok_fresh]
    by (auto simp: lca_def lcb_def intro: lin_ok_run_emit)
  then have "set (tris (run_emit fo (run lca) (acc lca))) \<inter>
      set (tris (run_emit fo (run lcb) (acc lcb))) \<subseteq> set (windows3 (P @ s))"
    using set_windows3_mono[of s "P @ s"] by (auto simp: acc_ok_def)
  then show ?case
    by (intro lin_okI[OF ALT.prems(3,1,2)])
       (simp add: Let_def lin_ok_acc[OF ALT.prems(3)] acc_ok_intersect
          lin_ok_flush[OF ALT.prems(3), simplified] flip: lca_def lcb_def)
next
  case (REP c m n)
  then have ex: "exact_ast c" "0 \<le> m" by simp_all
  from REP.prems(2) obtain i where i: "m \<le> int i" "iter_match (rx_match c) i b e s" by auto
  define k where "k = rep_copies c m n"
  have "acc_ok (acc (lin_append_node fo (REP c m n) lc)) (P @ s)"
  proof (cases "m = 0")
    case True
    then show ?thesis
      by (simp add: lin_ok_acc[OF REP.prems(3)] lin_ok_flush[OF REP.prems(3), simplified])
  next
    case False
    with ex(2) have "1 \<le> k \<and> k \<le> m" using rep_copies_bounds[of m c n] by (simp add: k_def)
    with i(1) have "nat k \<le> i" by linarith
    with i(2) have "iter_match (rx_match c) (nat k + (i - nat k)) b e s" by simp
    then obtain u v b1 e1 where uv: "s = u @ v" "iter_match (rx_match c) (nat k) b1 e1 u"
      unfolding iter_match_split by blast
    define lc1 where "lc1 = (lin_append_node fo c ^^ nat k) lc"
    have ok: "lin_ok lc1 (P @ u)"
      unfolding lc1_def using lin_ok_iter[OF REP.IH[OF ex(1)] REP.prems(3) uv(2)] by simp
    show ?thesis
    proof (cases "overflowed (acc lc)")
      case True
      then show ?thesis using lin_ok_acc[OF REP.prems(3)] by simp
    next
      case o: False
      from lin_ok_acc[OF ok, of v] lin_ok_flush[OF ok, of fo v] uv(1) show ?thesis
        by (simp add: lin_append_node_REP[OF False o k_def lc1_def] del: lin_append_node.simps)
    qed
  qed
  then show ?case by (rule lin_okI[OF REP.prems(3,1,2)])
next
  case (APPROX c k)
  then have "rx_match c b e s" by (auto dest: lev_0)
  from APPROX.IH[OF _ this APPROX.prems(3)] APPROX.prems(1) lin_ok_acc[OF APPROX.prems(3), of s]
  show ?case by (simp add: lin_ok_def)
qed

section \<open>Soundness of the CNF query\<close>

definition cnf_query :: "hashfn \<Rightarrow> int \<Rightarrow> RegexAst \<Rightarrow> int \<Rightarrow> TrigramQuery" where
  "cnf_query hf fo ast max_cost =
     (let lc = lin_append_node fo ast lin_init
      in accum_to_query hf (run_emit fo (run lc) (acc lc)) max_cost)"

lemma accum_to_query_accepts:
  assumes "acc_ok a P" and "sublist P txt"
  shows "tq_accepts (accum_to_query hf a max_cost) (text_hashes hf txt)"
proof -
  have "acc_ok a txt" using assms by (rule acc_ok_mono)
  then show ?thesis
    by (auto simp: tq_accepts_def accum_to_query_def Let_def acc_ok_def alt_ok_def tq_zero_def
        text_hashes_def) (blast intro: imageI)+
qed

theorem cnf_query_sound:
  assumes "exact_ast ast" and "row_match ast txt"
  shows "tq_accepts (cnf_query hf fo ast max_cost) (text_hashes hf txt)"
proof -
  from assms(2) obtain pre s suf where s: "txt = pre @ s @ suf" "rx_match ast (pre = []) (suf = []) s"
    by (auto simp: row_match_def)
  have "lin_ok lin_init []" by (simp add: lin_ok_def lin_init_def)
  from lin_append_node_ok[OF assms(1) s(2) this, of fo]
  have "acc_ok (run_emit fo (run (lin_append_node fo ast lin_init)) (acc (lin_append_node fo ast lin_init))) s"
    by (auto intro: lin_ok_run_emit)
  moreover have "sublist s txt" using s(1) by simp
  ultimately show ?thesis unfolding cnf_query_def Let_def by (rule accum_to_query_accepts)
qed

end
