(* ===== verification/Extract_Pieces.thy ===== *)
theory Extract_Pieces
  imports Extract_Sound
begin

text \<open>
  The exact-pieces expansion \<open>try_build_run_pieces\<close>: the mixed-radix counter visits every
  choice of one character per position exactly once, so the pieces are the trigrams of the
  concrete strings of the run. The expansion is sound when the run is the whole pattern,
  which holds when every repetition was inlined exactly.
\<close>

section \<open>The counter\<close>

primrec radix_digits :: "RunPos list \<Rightarrow> nat \<Rightarrow> nat list" where
  "radix_digits [] v = []"
| "radix_digits (p # ps) v = (v mod length p) # radix_digits ps (v div length p)"

primrec radix_value :: "RunPos list \<Rightarrow> nat list \<Rightarrow> nat" where
  "radix_value [] ds = 0"
| "radix_value (p # ps) ds = hd ds + length p * radix_value ps (tl ds)"

definition radix_ok :: "RunPos list \<Rightarrow> nat list \<Rightarrow> bool" where
  "radix_ok ps ds \<longleftrightarrow> list_all2 (\<lambda>p d. d < length p) ps ds"

lemma radix_digits_length [simp]: "length (radix_digits r v) = length r"
  by (induction r arbitrary: v) auto

lemma radix_digits_zero: "radix_digits r 0 = replicate (length r) 0"
  by (induction r) auto

lemma radix_digits_Suc:
  "\<forall>p \<in> set r. p \<noteq> [] \<Longrightarrow> digit_incr r (radix_digits r v) = radix_digits r (Suc v)"
proof (induction r arbitrary: v)
  case (Cons p ps)
  have "length p > 0" using Cons.prems by simp
  then have "v mod length p < length p" by (rule mod_less_divisor)
  then have "Suc (v mod length p) < length p \<longleftrightarrow> Suc (v mod length p) \<noteq> length p" by linarith
  with Cons show ?case
    by (auto simp: mod_Suc div_Suc)
qed simp

lemma radix_digits_ok: "\<forall>p \<in> set r. p \<noteq> [] \<Longrightarrow> radix_ok r (radix_digits r v)"
  by (induction r arbitrary: v) (auto simp: radix_ok_def)

lemma radix_value_digits:
  "radix_ok r ds \<Longrightarrow> radix_digits r (radix_value r ds) = ds
     \<and> radix_value r ds < prod_list (map length r)"
proof (induction r arbitrary: ds)
  case (Cons p ps)
  then obtain d ds' where ds: "ds = d # ds'" "d < length p" "radix_ok ps ds'"
    by (auto simp: radix_ok_def list_all2_Cons1)
  with Cons.IH[OF ds(3)] have
    rec: "radix_digits ps (radix_value ps ds') = ds'" "radix_value ps ds' < prod_list (map length ps)"
    by simp_all
  have "d + length p * radix_value ps ds' < length p * Suc (radix_value ps ds')" using ds(2) by simp
  also have "\<dots> \<le> length p * prod_list (map length ps)"
    using rec(2) by (intro mult_le_mono2) simp
  finally have "d + length p * radix_value ps ds' < length p * prod_list (map length ps)" .
  moreover have "(d + length p * radix_value ps ds') div length p = radix_value ps ds'"
    using ds(2) by (subst div_mult_self2) auto
  ultimately show ?case using ds rec by simp
qed (simp add: radix_ok_def)

lemma run_pieces_digits:
  assumes "\<forall>p \<in> set r. p \<noteq> []"
  shows "run_pieces hf r n (radix_digits r v)
    = map (\<lambda>i. run_piece hf r (radix_digits r i)) [v..<v + n]"
proof (induction n arbitrary: v)
  case (Suc n)
  have "[v..<v + Suc n] = v # [Suc v..<Suc v + n]" by (simp add: upt_rec)
  then show ?case using Suc[of "Suc v"] by (simp only: run_pieces.simps radix_digits_Suc[OF assms] list.map)
qed simp

section \<open>The pieces are the concrete strings\<close>

definition pick :: "RunPos list \<Rightarrow> nat list \<Rightarrow> int list" where
  "pick r ds = map2 (\<lambda>p d. p ! d) r ds"

lemma run_piece_pick:
  assumes "length ds = length r"
  shows "run_piece hf r ds = map (tq_alt hf) (windows3 (pick r ds))"
  using assms by (auto simp: run_piece_def windows3_conv_nth pick_def)

lemma pick_posmatch: "radix_ok r ds \<Longrightarrow> posmatch r (pick r ds)"
  unfolding radix_ok_def posmatch_def pick_def
  by (auto simp: list_all2_conv_all_nth)

lemma posmatch_pick: "posmatch r w \<Longrightarrow> \<exists>ds. radix_ok r ds \<and> pick r ds = w"
proof (induction r arbitrary: w)
  case (Cons p r)
  then obtain c v where w: "w = c # v" "c \<in> set p" "posmatch r v" by (auto simp: posmatch_Cons_left)
  from Cons.IH[OF w(3)] obtain ds where ds: "radix_ok r ds" "pick r ds = v" by blast
  from w(2) obtain d where d: "d < length p" "p ! d = c" by (auto simp: in_set_conv_nth)
  with ds w(1) have "radix_ok (p # r) (d # ds) \<and> pick (p # r) (d # ds) = w"
    by (simp add: radix_ok_def pick_def)
  then show ?case by blast
qed (auto simp: radix_ok_def pick_def)

lemma run_product_Some:
  "run_product pr r = Some q \<Longrightarrow> q = pr * prod_list (map length r)"
proof (induction r arbitrary: pr)
  case (Cons p r)
  then have "q = pr * length p * prod_list (map length r)" by (simp split: if_splits)
  then show ?case by (simp add: mult.assoc)
qed simp

theorem run_pieces_strings:
  assumes "\<forall>p \<in> set r. p \<noteq> []" and "try_build_run_pieces hf r max_cost = Some q"
  shows "set (conjuncts q) = {map (tq_alt hf) (windows3 w) | w. posmatch r w}"
proof -
  from assms(2) have c: "conjuncts q
      = run_pieces hf r (prod_list (map length r)) (replicate (length r) 0)"
    by (auto simp: try_build_run_pieces_def tq_zero_def dest!: run_product_Some
        split: if_splits option.splits)
  have "set (conjuncts q) = (\<lambda>i. map (tq_alt hf) (windows3 (pick r (radix_digits r i))))
      ` {0..<prod_list (map length r)}"
    unfolding c using run_pieces_digits[OF assms(1), of hf "prod_list (map length r)" 0]
    by (simp add: radix_digits_zero run_piece_pick)
  also have "\<dots> = {map (tq_alt hf) (windows3 w) | w. posmatch r w}" (is "?A = ?B")
  proof
    show "?A \<subseteq> ?B" using radix_digits_ok[OF assms(1)] pick_posmatch by blast
    show "?B \<subseteq> ?A"
    proof
      fix x assume "x \<in> ?B"
      then obtain w ds where "x = map (tq_alt hf) (windows3 w)" "radix_ok r ds" "pick r ds = w"
        using posmatch_pick by blast
      with radix_value_digits[of r ds] show "x \<in> ?A" by (auto intro!: image_eqI[of _ _ "radix_value r ds"])
    qed
  qed
  finally show ?thesis .
qed

section \<open>When the run is the whole pattern\<close>

text \<open>Every repetition is inlined as often as it can occur.\<close>

primrec rep_exact :: "RegexAst \<Rightarrow> bool" where
  "rep_exact (LITERAL c) = True"
| "rep_exact ANY = True"
| "rep_exact (CLASS negated cs) = True"
| "rep_exact (ANCHOR w) = True"
| "rep_exact (CONCAT l r) = (rep_exact l \<and> rep_exact r)"
| "rep_exact (ALT l r) = True"
| "rep_exact (REP c m n) = (m = 0 \<or> n = m \<and> rep_copies c m n = m \<and> rep_exact c)"
| "rep_exact (APPROX c k) = rep_exact c"

lemma iter_posmatch:
  assumes "\<And>b e s. M b e s \<Longrightarrow> posmatch R s" and "iter_match M k b e s"
  shows "posmatch (concat (replicate k R)) s"
  using assms(2)
proof (induction k arbitrary: b s)
  case (Suc k)
  then show ?case using assms(1) by (auto intro: posmatch_append)
qed simp

lemma shape_posmatch:
  "exact_ast ast \<Longrightarrow> rep_exact ast \<Longrightarrow> \<not> fst (shape ast) \<Longrightarrow> rx_match ast b e s \<Longrightarrow>
     posmatch (snd (shape ast)) s"
proof (induction ast arbitrary: b e s)
  case (CLASS negated cs)
  then show ?case using run_append_class_cases[of negated cs]
    by (auto simp: lin_init_def set_class_members)
next
  case (CONCAT l r)
  then show ?case by (auto simp: shape_comp_def intro: posmatch_append split: if_splits)
next
  case (REP c m n)
  have "m \<noteq> 0" using REP.prems(3) by auto
  with REP.prems(1,2) have m: "n = m" "rep_copies c m n = m" "rep_exact c" "m \<ge> 1" "exact_ast c"
    by auto
  from m have sh: "shape (REP c m n) = ((\<lambda>x. shape_comp x (shape c)) ^^ nat m) (False, [])"
    by (simp add: Let_def)
  with REP.prems(3) m(4) have nf: "\<not> fst (shape c)" by (simp add: shape_iter_fst)
  from REP.prems(4) m obtain i where "i = nat m" "iter_match (rx_match c) i b e s" by auto
  then show ?case
    using iter_posmatch[OF REP.IH[OF m(5,3) nf]] by (simp only: sh shape_iter_unflushed[OF nf] snd_conv)
qed (auto dest: lev_0)

lemma class_total_ge: "ranges_ok cs \<Longrightarrow> class_total t cs = Some u \<Longrightarrow> t \<le> u"
  by (induction t cs rule: class_total.induct) (auto simp: ranges_ok_def Let_def split: if_splits)

lemma class_total_pos:
  "class_total t cs = Some u \<Longrightarrow> t < u \<Longrightarrow> class_members cs \<noteq> []"
  by (induction t cs rule: class_total.induct)
     (auto simp: class_members_def Let_def split: if_splits)

lemma run_append_class_nonempty:
  "run_append_class negated cs lin_init = Some lc \<Longrightarrow> class_members cs \<noteq> []"
  using class_total_pos[of 0 cs] by (auto simp: run_append_class_def split: if_splits option.splits)

lemma shape_nonempty: "p \<in> set (snd (shape ast)) \<Longrightarrow> p \<noteq> []"
proof (induction ast arbitrary: p)
  case (CLASS negated cs)
  then show ?case using run_append_class_nonempty[of negated cs]
    by (auto simp: lin_init_def dest!: run_append_class_Some split: option.splits)
next
  case (CONCAT l r)
  then show ?case by (auto simp: shape_comp_def split: if_splits)
next
  case (REP c m n)
  have "set (snd (((\<lambda>x. shape_comp x (shape c)) ^^ k) (False, []))) \<subseteq> set (snd (shape c))" for k
    by (induction k) (auto simp: shape_comp_def)
  with REP show ?case by (auto simp: Let_def split: if_splits)
qed auto

text \<open>The pieces are sound when the run is the whole match.\<close>

lemma run_pieces_sound:
  assumes "\<forall>p \<in> set r. p \<noteq> []" and "try_build_run_pieces hf r max_cost = Some q"
    and "posmatch r s" and "sublist s txt"
  shows "tq_accepts q (text_hashes hf txt)"
proof -
  have "map (tq_alt hf) (windows3 s) \<in> set (conjuncts q)"
    using run_pieces_strings[OF assms(1,2)] assms(3) by blast
  moreover have "mode q = TRIGRAM_QUERY_PIECES"
    using assms(2) by (auto simp: try_build_run_pieces_def tq_zero_def split: if_splits option.splits)
  moreover have "text_hashes hf s \<subseteq> text_hashes hf txt" using assms(4) by (rule text_hashes_mono)
  ultimately show ?thesis
    unfolding tq_accepts_def by (force simp: text_hashes_def)
qed

section \<open>The anchored prefix\<close>

text \<open>The leaves of the concatenation spine, left to right, and how far left it nests.\<close>

primrec concat_leaves :: "RegexAst \<Rightarrow> RegexAst list" where
  "concat_leaves (LITERAL c) = [LITERAL c]"
| "concat_leaves ANY = [ANY]"
| "concat_leaves (CLASS negated cs) = [CLASS negated cs]"
| "concat_leaves (ANCHOR w) = [ANCHOR w]"
| "concat_leaves (CONCAT l r) = concat_leaves l @ concat_leaves r"
| "concat_leaves (ALT l r) = [ALT l r]"
| "concat_leaves (REP c m n) = [REP c m n]"
| "concat_leaves (APPROX c k) = [APPROX c k]"

primrec left_depth :: "RegexAst \<Rightarrow> nat" where
  "left_depth (LITERAL c) = 0"
| "left_depth ANY = 0"
| "left_depth (CLASS negated cs) = 0"
| "left_depth (ANCHOR w) = 0"
| "left_depth (CONCAT l r) = max (Suc (left_depth l)) (left_depth r)"
| "left_depth (ALT l r) = 0"
| "left_depth (REP c m n) = 0"
| "left_depth (APPROX c k) = 0"

text \<open>The walk without its stack.\<close>

fun leaves_key :: "RegexAst list \<Rightarrow> int list \<Rightarrow> bool \<Rightarrow> uint64 option" where
  "leaves_key (ANCHOR w # as) cps seen =
     (if w = REGEX_ANCHOR_START \<and> cps = [] then leaves_key as cps True
      else if length cps < 3 then None else leaves_key as cps seen)"
| "leaves_key (LITERAL c # as) cps seen =
     (if \<not> seen then None
      else if length cps \<ge> 2
      then Some (pg_tre_trigram_key_cp ((cps @ [c]) ! 0, (cps @ [c]) ! 1, (cps @ [c]) ! 2))
      else leaves_key as (cps @ [c]) seen)"
| "leaves_key as cps seen = None"

fun stack_fits :: "RegexAst list \<Rightarrow> bool" where
  "stack_fits [] = True"
| "stack_fits (n # st) = (left_depth n + length st \<le> PREFIX_STACK_MAX \<and> stack_fits st)"

lemma prefix_walk_leaves:
  "stack_fits (case n of None \<Rightarrow> st | Some a \<Rightarrow> a # st) \<Longrightarrow>
     prefix_walk n st cps seen =
       leaves_key (concat (map concat_leaves (case n of None \<Rightarrow> st | Some a \<Rightarrow> a # st))) cps seen"
  by (induction n st cps seen rule: prefix_walk.induct) (auto simp: Let_def nat_add_max_left)

primrec leaves_match :: "RegexAst list \<Rightarrow> bool \<Rightarrow> bool \<Rightarrow> int list \<Rightarrow> bool" where
  "leaves_match [] b e s \<longleftrightarrow> s = []"
| "leaves_match (a # as) b e s \<longleftrightarrow>
     (\<exists>u v. s = u @ v \<and> rx_match a b (e \<and> v = []) u \<and> leaves_match as (b \<and> u = []) e v)"

lemma leaves_match_append:
  "leaves_match (as @ bs) b e s \<longleftrightarrow>
     (\<exists>u v. s = u @ v \<and> leaves_match as b (e \<and> v = []) u \<and> leaves_match bs (b \<and> u = []) e v)"
proof (induction as arbitrary: b s)
  case (Cons a as)
  have "leaves_match ((a # as) @ bs) b e s \<longleftrightarrow>
    (\<exists>u1 u2 v. s = u1 @ u2 @ v \<and> rx_match a b (e \<and> u2 @ v = []) u1
      \<and> leaves_match as (b \<and> u1 = []) (e \<and> v = []) u2
      \<and> leaves_match bs (b \<and> u1 = [] \<and> u2 = []) e v)"
    unfolding append_Cons leaves_match.simps Cons conj_assoc by blast
  also have "\<dots> \<longleftrightarrow> (\<exists>u v. s = u @ v \<and> leaves_match (a # as) b (e \<and> v = []) u
      \<and> leaves_match bs (b \<and> u = []) e v)"
    unfolding leaves_match.simps by (rule iff_exI_append)
  finally show ?case .
qed simp

lemma leaves_match_single: "leaves_match [a] b e s \<longleftrightarrow> rx_match a b e s"
  by simp

lemma rx_match_leaves: "rx_match ast b e s \<longleftrightarrow> leaves_match (concat_leaves ast) b e s"
proof (induction ast arbitrary: b e s)
  case (CONCAT l r)
  then show ?case by (simp only: rx_match.simps concat_leaves.simps leaves_match_append)
qed (simp_all only: concat_leaves.simps leaves_match_single)

lemma leaves_key_sound:
  "leaves_key as cps seen = Some k \<Longrightarrow> leaves_match as b e s \<Longrightarrow> (cps = [] \<Longrightarrow> b = b0) \<Longrightarrow>
   (seen \<Longrightarrow> b0) \<Longrightarrow> length cps < 3 \<Longrightarrow>
     b0 \<and> (\<exists>c0 c1 c2 r. cps @ s = c0 # c1 # c2 # r \<and> k = pg_tre_trigram_key_cp (c0, c1, c2))"
proof (induction as cps seen arbitrary: b s rule: leaves_key.induct)
  case (1 w as cps seen)
  then show ?case by (cases "w = REGEX_ANCHOR_START \<and> cps = []") auto
next
  case (2 c as cps seen)
  then have seen: seen and b0: b0 by (auto split: if_splits)
  from 2(3) obtain v where s: "s = c # v" "leaves_match as False e v" by auto
  show ?case
  proof (cases "length cps \<ge> 2")
    case True
    with 2(6) have "length cps = Suc (Suc 0)" by simp
    then obtain c0 c1 where "cps = [c0, c1]" by (auto simp only: length_Suc_conv length_0_conv)
    with 2(2) seen s(1) b0 show ?thesis by simp
  next
    case False
    with 2(2) seen have "leaves_key as (cps @ [c]) seen = Some k" by simp
    from 2(1)[OF _ False this s(2)] seen False b0 s(1) show ?thesis by auto
  qed
qed auto

end
