(* ===== verification/Uleven.thy ===== *)
theory Uleven
  imports Trigram_Hash
begin

text \<open>
  \<open>src/query/uleven.c\<close>: the edit neighbourhood of a trigram, over bytes and over
  characters. Result \<open>None\<close> is the C functions' \<open>-1\<close> (the output array would overflow).
\<close>

type_synonym byte_tri = "uint8 \<times> uint8 \<times> uint8"

text \<open>The in-place quadratic deduplication keeps the first of equal entries.\<close>

definition dedupe_step :: "'a \<Rightarrow> 'a list \<Rightarrow> 'a list" where
  "dedupe_step t out = (if t \<in> set out then out else out @ [t])"

definition dedupe_trigrams :: "byte_tri list \<Rightarrow> byte_tri list" where
  "dedupe_trigrams ts = fold dedupe_step ts []"

definition dedupe_trigrams_cp :: "trigram list \<Rightarrow> trigram list" where
  "dedupe_trigrams_cp ts = fold dedupe_step ts []"

text \<open>The byte loop \<open>for (c = 0; c < 256; c++)\<close>.\<close>

definition all_bytes :: "uint8 list" where
  "all_bytes = map word_of_nat [0..<256]"

text \<open>What \<open>uleven_expand_k1\<close> writes, in the order it writes it.\<close>

definition k1_entries :: "byte_tri \<Rightarrow> byte_tri list" where
  "k1_entries tri = (case tri of (t0, t1, t2) \<Rightarrow>
     [(t0, t1, t2)]
     @ map (\<lambda>c. (c, t1, t2)) (filter (\<lambda>c. c \<noteq> t0) all_bytes)
     @ map (\<lambda>c. (t0, c, t2)) (filter (\<lambda>c. c \<noteq> t1) all_bytes)
     @ map (\<lambda>c. (t0, t1, c)) (filter (\<lambda>c. c \<noteq> t2) all_bytes)
     @ [(t1, t2, 0), (t0, t2, 0), (t0, t1, 0)]
     @ concat (map (\<lambda>c. [(c, t0, t1), (t0, c, t1), (t0, t1, c)]) all_bytes))"

text \<open>Every write is guarded by \<open>n >= max_out\<close>: the function fails iff not all entries fit.\<close>

definition uleven_expand_k1 :: "byte_tri \<Rightarrow> nat \<Rightarrow> byte_tri list option" where
  "uleven_expand_k1 tri max_out =
     (if length (k1_entries tri) > max_out then None
      else Some (dedupe_trigrams (k1_entries tri)))"

definition ULEVEN_TEMP :: nat where "ULEVEN_TEMP = 16384"

text \<open>
  The second level of the radius-2 expansion: every neighbour of \<open>temp[i]\<close> is expanded into
  the rest of the temporary array and appended to \<open>out\<close>. The bound \<open>n + j < 16384\<close> of the
  copying loop is never the one that stops it when \<open>max_out \<le> 16384\<close>, which holds for the
  only caller (4096).
\<close>

fun uleven_expand_k2 :: "nat \<Rightarrow> byte_tri list \<Rightarrow> byte_tri list \<Rightarrow> nat \<Rightarrow> byte_tri list option" where
  "uleven_expand_k2 n1 [] out max_out = Some (dedupe_trigrams out)"
| "uleven_expand_k2 n1 (t # ts) out max_out =
     (case uleven_expand_k1 t (ULEVEN_TEMP - n1) of
        None \<Rightarrow> None
      | Some batch \<Rightarrow>
          if length out + length batch > max_out then None
          else uleven_expand_k2 n1 ts (out @ batch) max_out)"

definition pg_tre_uleven_expand :: "byte_tri \<Rightarrow> int \<Rightarrow> nat \<Rightarrow> byte_tri list option" where
  "pg_tre_uleven_expand tri k max_out =
     (if k < 0 \<or> max_out = 0 then Some []
      else if k = 0 then Some [tri]
      else if k = 1 then uleven_expand_k1 tri max_out
      else if k = 2 then
        (case uleven_expand_k1 tri ULEVEN_TEMP of
           None \<Rightarrow> None
         | Some temp \<Rightarrow> uleven_expand_k2 (length temp) temp [] max_out)
      else None)"

definition all_ascii :: "trigram \<Rightarrow> bool" where
  "all_ascii tri = (case tri of (t0, t1, t2) \<Rightarrow>
     0 \<le> t0 \<and> t0 \<le> 127 \<and> 0 \<le> t1 \<and> t1 \<le> 127 \<and> 0 \<le> t2 \<and> t2 \<le> 127)"

definition bytes_of :: "trigram \<Rightarrow> byte_tri" where
  "bytes_of tri = (case tri of (t0, t1, t2) \<Rightarrow> (word_of_int t0, word_of_int t1, word_of_int t2))"

definition cps_of :: "byte_tri \<Rightarrow> trigram" where
  "cps_of tri = (case tri of (b0, b1, b2) \<Rightarrow> (uint b0, uint b1, uint b2))"

definition pg_tre_uleven_expand_cp :: "trigram \<Rightarrow> int \<Rightarrow> nat \<Rightarrow> trigram list option" where
  "pg_tre_uleven_expand_cp tri k max_out =
     (if k < 0 \<or> max_out = 0 then Some []
      else if k = 0 \<or> \<not> all_ascii tri then Some [tri]
      else (case pg_tre_uleven_expand (bytes_of tri) k max_out of
              None \<Rightarrow> None
            | Some btmp \<Rightarrow> Some (dedupe_trigrams_cp (map cps_of btmp))))"

section \<open>Deduplication\<close>

lemma dedupe_fold:
  "set (fold dedupe_step ts out) = set ts \<union> set out \<and>
   (distinct out \<longrightarrow> distinct (fold dedupe_step ts out)) \<and>
   length out \<le> length (fold dedupe_step ts out) \<and>
   length (fold dedupe_step ts out) \<le> length out + length ts"
proof (induction ts arbitrary: out)
  case (Cons t ts)
  show ?case using Cons[of "dedupe_step t out"] by (auto simp: dedupe_step_def)
qed simp

lemma set_dedupe_trigrams [simp]: "set (dedupe_trigrams ts) = set ts"
  using dedupe_fold[of ts "[]"] by (simp add: dedupe_trigrams_def)

lemma set_dedupe_trigrams_cp [simp]: "set (dedupe_trigrams_cp ts) = set ts"
  using dedupe_fold[of ts "[]"] by (simp add: dedupe_trigrams_cp_def)

lemma distinct_dedupe_trigrams: "distinct (dedupe_trigrams ts)"
  using dedupe_fold[of ts "[]"] by (simp add: dedupe_trigrams_def)

lemma distinct_dedupe_trigrams_cp: "distinct (dedupe_trigrams_cp ts)"
  using dedupe_fold[of ts "[]"] by (simp add: dedupe_trigrams_cp_def)

lemma length_dedupe_trigrams: "length (dedupe_trigrams ts) = card (set ts)"
  using distinct_card[OF distinct_dedupe_trigrams, of ts] by simp

section \<open>The neighbourhood\<close>

lemma set_all_bytes [simp]: "set all_bytes = UNIV"
proof -
  have "b \<in> set all_bytes" for b
  proof -
    have "unat b < 256" using unsigned_less[of b, where 'a = nat] by simp
    moreover have "b = word_of_nat (unat b)" by simp
    ultimately show ?thesis unfolding all_bytes_def set_map set_upt
      by (metis atLeastLessThan_iff imageI le0)
  qed
  then show ?thesis by blast
qed

lemma length_all_bytes: "length all_bytes = 256"
  by (simp add: all_bytes_def)

lemma distinct_all_bytes: "distinct all_bytes"
proof -
  have "card (set all_bytes) = length all_bytes"
    unfolding set_all_bytes length_all_bytes by (simp add: card_word)
  then show ?thesis by (rule card_distinct)
qed

lemma length_filter_other: "length (filter (\<lambda>c. c \<noteq> t) all_bytes) = 255"
proof -
  have "set (filter (\<lambda>c. c \<noteq> t) all_bytes) = UNIV - {t}" by auto
  then have "length (filter (\<lambda>c. c \<noteq> t) all_bytes) = card (UNIV - {t})"
    using distinct_card[OF distinct_filter[OF distinct_all_bytes, of "\<lambda>c. c \<noteq> t"]] by argo
  then show ?thesis by (simp add: card_Diff_singleton card_word)
qed

lemma length_k1_entries: "length (k1_entries tri) = 1537"
proof -
  have "length (concat (map (\<lambda>c. [f c, g c, h c]) xs)) = 3 * length xs" for f g h :: "uint8 \<Rightarrow> byte_tri" and xs
    by (induction xs) auto
  then show ?thesis
    by (cases tri) (simp add: k1_entries_def length_filter_other length_all_bytes)
qed

text \<open>The entries: the trigram, its substitutions, the padded deletions and the insertions.\<close>

lemma set_k1_entries:
  "set (k1_entries (t0, t1, t2)) =
     {(c, t1, t2) | c. True} \<union> {(t0, c, t2) | c. True} \<union> {(t0, t1, c) | c. True}
     \<union> {(t1, t2, 0), (t0, t2, 0), (t0, t1, 0)} \<union> {(c, t0, t1) | c. True} \<union> {(t0, c, t1) | c. True}"
  by (auto simp: k1_entries_def)

lemma k1_entries_self: "tri \<in> set (k1_entries tri)"
  by (cases tri) (simp add: k1_entries_def)

lemma k1_entries_card: "card (set (k1_entries tri)) \<ge> 256"
proof -
  obtain t0 t1 t2 where [simp]: "tri = (t0, t1, t2)" by (cases tri)
  have "card (range (\<lambda>c :: uint8. (c, t1, t2))) = card (UNIV :: uint8 set)"
    by (rule card_image) (simp add: inj_def)
  moreover have "range (\<lambda>c. (c, t1, t2)) \<subseteq> set (k1_entries tri)" by (auto simp: set_k1_entries)
  ultimately show ?thesis using card_mono[OF finite_set, of "range (\<lambda>c. (c, t1, t2))" "k1_entries tri"]
    by (simp add: card_word)
qed

lemma uleven_expand_k1_Some:
  "uleven_expand_k1 tri max_out = Some ns \<Longrightarrow> set ns = set (k1_entries tri) \<and> 256 \<le> length ns"
  using k1_entries_card[of tri]
  by (auto simp: uleven_expand_k1_def length_dedupe_trigrams split: if_splits)

lemma uleven_expand_k1_total: "1537 \<le> max_out \<Longrightarrow> \<exists>ns. uleven_expand_k1 tri max_out = Some ns"
  by (simp add: uleven_expand_k1_def length_k1_entries)

lemma uleven_expand_k2_overflow:
  "max_out < length out + 256 * length ts \<Longrightarrow> uleven_expand_k2 n1 ts out max_out = None \<or> ts = []"
proof (induction ts arbitrary: out)
  case (Cons t ts)
  show ?case
  proof (cases "uleven_expand_k1 t (ULEVEN_TEMP - n1)")
    case (Some batch)
    then have "256 \<le> length batch" using uleven_expand_k1_Some by blast
    with Cons.prems have "max_out < length (out @ batch) + 256 * length ts" by simp
    from Cons.IH[OF this] this Some show ?thesis by auto
  qed simp
qed simp

text \<open>
  The radius-2 expansion never fits the caller's 4096 entries: each of the at least 256
  neighbours contributes at least 256 more before the final deduplication.
\<close>

lemma uleven_k2_overflows: "max_out \<le> 65535 \<Longrightarrow> max_out > 0 \<Longrightarrow> pg_tre_uleven_expand tri 2 max_out = None"
proof -
  assume a: "max_out \<le> 65535" "max_out > 0"
  obtain temp where t: "uleven_expand_k1 tri ULEVEN_TEMP = Some temp"
    using uleven_expand_k1_total[of ULEVEN_TEMP tri] by (auto simp: ULEVEN_TEMP_def)
  then have "256 \<le> length temp" using uleven_expand_k1_Some by blast
  with a(1) uleven_expand_k2_overflow[of max_out "[]" temp "length temp"]
  have "uleven_expand_k2 (length temp) temp [] max_out = None" by auto
  with t a(2) show ?thesis by (simp add: pg_tre_uleven_expand_def)
qed

lemma uleven_expand_cp_big:
  "k \<ge> 2 \<Longrightarrow> 0 < max_out \<Longrightarrow> max_out \<le> 65535 \<Longrightarrow>
     pg_tre_uleven_expand_cp tri k max_out = (if all_ascii tri then None else Some [tri])"
  using uleven_k2_overflows[of max_out "bytes_of tri"]
  by (cases "k = 2") (auto simp: pg_tre_uleven_expand_cp_def pg_tre_uleven_expand_def)

lemma cps_of_bytes_of: "all_ascii tri \<Longrightarrow> cps_of (bytes_of tri) = tri"
  by (cases tri) (simp add: all_ascii_def cps_of_def bytes_of_def take_bit_int_eq_self unsigned_of_int)

text \<open>The trigram itself is always among the alternatives.\<close>

lemma uleven_expand_cp_self:
  assumes "pg_tre_uleven_expand_cp tri k max_out = Some ns" and "0 \<le> k" and "max_out > 0"
    and "max_out \<le> 65535"
  shows "tri \<in> set ns"
proof (cases "k = 0 \<or> \<not> all_ascii tri")
  case True
  with assms show ?thesis by (auto simp: pg_tre_uleven_expand_cp_def split: if_splits)
next
  case False
  with assms have "k = 1" using uleven_expand_cp_big[of k max_out tri] by (cases "k \<ge> 2") auto
  with assms False obtain btmp where "uleven_expand_k1 (bytes_of tri) max_out = Some btmp"
      "set ns = cps_of ` set btmp"
    by (auto simp: pg_tre_uleven_expand_cp_def pg_tre_uleven_expand_def split: option.splits)
  then have "cps_of (bytes_of tri) \<in> set ns"
    using uleven_expand_k1_Some k1_entries_self by blast
  with False show ?thesis by (simp add: cps_of_bytes_of)
qed

text \<open>At radius 1 so is every substitution of one character by a single byte.\<close>

lemma uleven_expand_cp_subst:
  assumes "pg_tre_uleven_expand_cp (a, b, c) 1 max_out = Some ns" and "max_out > 0"
    and "all_ascii (a, b, c)" and "0 \<le> x" and "x \<le> 255"
  shows "(x, b, c) \<in> set ns" "(a, x, c) \<in> set ns" "(a, b, x) \<in> set ns"
proof -
  from assms(1-3) obtain btmp where "uleven_expand_k1 (bytes_of (a, b, c)) max_out = Some btmp"
      "set ns = cps_of ` set btmp"
    by (auto simp: pg_tre_uleven_expand_cp_def pg_tre_uleven_expand_def split: option.splits)
  then have ns: "set ns = cps_of ` set (k1_entries (bytes_of (a, b, c)))"
    using uleven_expand_k1_Some by blast
  have u: "uint (word_of_int y :: uint8) = y" if "0 \<le> y" "y \<le> 255" for y
    using that by (simp add: unsigned_of_int take_bit_int_eq_self)
  have abc: "0 \<le> a" "a \<le> 255" "0 \<le> b" "b \<le> 255" "0 \<le> c" "c \<le> 255"
    using assms(3) by (auto simp: all_ascii_def)
  let ?w = "word_of_int :: int \<Rightarrow> uint8"
  have "cps_of (?w x, ?w b, ?w c) \<in> set ns" "cps_of (?w a, ?w x, ?w c) \<in> set ns"
      "cps_of (?w a, ?w b, ?w x) \<in> set ns"
    unfolding ns by (intro imageI, simp add: bytes_of_def set_k1_entries)+
  then show "(x, b, c) \<in> set ns" "(a, x, c) \<in> set ns" "(a, b, x) \<in> set ns"
    using u abc assms(4,5) by (simp_all add: cps_of_def)
qed

end
