(* ===== verification/Tiling.thy ===== *)
theory Tiling
  imports Uleven Trigram_Query Regex_Ast
begin

text \<open>
  \<open>src/query/tiling.c\<close>: the filter for a positive edit budget \<open>k\<close>, by exact pieces when the
  literal runs are long enough and by tiles of trigram neighbourhoods otherwise.

  \<open>pg_tre_db_max_char_len()\<close> (the server's encoding) and the GUC
  \<open>pg_tre_max_extraction_fanout\<close> are arguments. Counts are unbounded integers: for budgets
  below \<open>2^31 - 1\<close> the 32-bit \<open>k + 1\<close> does not wrap, and where \<open>3 * k\<close> would wrap the test
  that follows it gives up in the same way.
\<close>

definition LIN_CAP :: nat where "LIN_CAP = 1024"
definition MAX_RUNS :: nat where "MAX_RUNS = 512"
definition EXPAND_CAP :: nat where "EXPAND_CAP = 4096"

section \<open>Literal runs\<close>

text \<open>The separator \<open>-1\<close> stands for text the spine does not see. \<open>None\<close>: more than \<open>cap\<close> items.\<close>

primrec linearize_literals :: "RegexAst \<Rightarrow> nat \<Rightarrow> int list option" where
  "linearize_literals (LITERAL c) cap =
     (if c \<ge> 0 then (if cap = 0 then None else Some [c]) else Some [])"
| "linearize_literals (CONCAT l r) cap =
     (case linearize_literals l cap of
        None \<Rightarrow> None
      | Some bl \<Rightarrow>
          (case linearize_literals r (cap - length bl) of
             None \<Rightarrow> None
           | Some br \<Rightarrow> Some (bl @ br)))"
| "linearize_literals (ANCHOR w) cap = Some []"
| "linearize_literals ANY cap = (if cap = 0 then None else Some [-1])"
| "linearize_literals (CLASS negated cs) cap = (if cap = 0 then None else Some [-1])"
| "linearize_literals (ALT l r) cap = (if cap = 0 then None else Some [-1])"
| "linearize_literals (REP c m n) cap = (if cap = 0 then None else Some [-1])"
| "linearize_literals (APPROX c k) cap = (if cap = 0 then None else Some [-1])"

record SpineEntry =
  trigram_of :: trigram
  pattern_offset :: int

text \<open>The offsets whose three characters lie in one run.\<close>

definition spine_offsets :: "int list \<Rightarrow> nat list" where
  "spine_offsets buf =
     filter (\<lambda>i. \<not> (buf ! i < 0 \<or> buf ! (i + 1) < 0 \<or> buf ! (i + 2) < 0)) [0..<length buf - 2]"

definition spine_entry :: "int list \<Rightarrow> nat \<Rightarrow> SpineEntry" where
  "spine_entry buf i =
     \<lparr> trigram_of = (buf ! i, buf ! (i + 1), buf ! (i + 2)), pattern_offset = int i \<rparr>"

definition extract_spine_from_ast :: "RegexAst \<Rightarrow> nat \<Rightarrow> SpineEntry list option" where
  "extract_spine_from_ast ast max_out =
     (case linearize_literals ast LIN_CAP of
        None \<Rightarrow> None
      | Some buf \<Rightarrow>
          if length (spine_offsets buf) > max_out then None
          else Some (map (spine_entry buf) (spine_offsets buf)))"

section \<open>Tiles of neighbourhoods\<close>

text \<open>First pass over a tile: the number of alternatives, or failure.\<close>

fun tile_count :: "int \<Rightarrow> int \<Rightarrow> int \<Rightarrow> SpineEntry list \<Rightarrow> int option" where
  "tile_count fanout tile_k total_alts [] = Some total_alts"
| "tile_count fanout tile_k total_alts (e # es) =
     (case pg_tre_uleven_expand_cp (trigram_of e) tile_k EXPAND_CAP of
        None \<Rightarrow> None
      | Some expanded \<Rightarrow>
          if total_alts + int (length expanded) > fanout then None
          else tile_count fanout tile_k (total_alts + int (length expanded)) es)"

text \<open>Second pass: the alternatives of one entry, with widened offsets.\<close>

definition entry_alts :: "hashfn \<Rightarrow> int \<Rightarrow> int \<Rightarrow> SpineEntry \<Rightarrow> TrigramDisjunct list" where
  "entry_alts hf k tile_k e =
     (case pg_tre_uleven_expand_cp (trigram_of e) tile_k EXPAND_CAP of
        None \<Rightarrow> []
      | Some expanded \<Rightarrow>
          map (\<lambda>t. \<lparr> trigram_hash = pg_tre_hash_trigram_cp hf t,
                     min_offset = (if pattern_offset e > k then pattern_offset e - k else 0),
                     max_offset = pattern_offset e + k \<rparr>) expanded)"

definition exact_alt :: "hashfn \<Rightarrow> SpineEntry \<Rightarrow> TrigramDisjunct" where
  "exact_alt hf e = \<lparr> trigram_hash = pg_tre_hash_trigram_cp hf (trigram_of e),
     min_offset = pattern_offset e, max_offset = pattern_offset e \<rparr>"

text \<open>
  The loop over the tiles; \<open>Inl\<close> is the early return, with the conjuncts written so far
  (the others stay zeroed).
\<close>

fun tile_loop :: "hashfn \<Rightarrow> int \<Rightarrow> int \<Rightarrow> int \<Rightarrow> nat \<Rightarrow> SpineEntry list \<Rightarrow> nat list
    \<Rightarrow> TrigramConjunct list \<Rightarrow> TrigramConjunct list + TrigramConjunct list" where
  "tile_loop hf fanout k tile_k tile_size spine [] cj = Inr cj"
| "tile_loop hf fanout k tile_k tile_size spine (t # ts) cj =
     (let tile_start = t * tile_size;
          tile_end = min (tile_start + tile_size) (length spine);
          tile = take (tile_end - tile_start) (drop tile_start spine)
      in if tile_end \<le> tile_start then tile_loop hf fanout k tile_k tile_size spine ts cj
         else if tile_k > 0 then
           (case tile_count fanout tile_k 0 tile of
              None \<Rightarrow> Inl cj
            | Some total_alts \<Rightarrow>
                tile_loop hf fanout k tile_k tile_size spine ts
                  (cj[t := concat (map (entry_alts hf k tile_k) tile)]))
         else tile_loop hf fanout k tile_k tile_size spine ts (cj[t := map (exact_alt hf) tile]))"

definition give_up :: "TrigramQuery \<Rightarrow> TrigramQuery" where
  "give_up out = out\<lparr> always_true := True, mode := TRIGRAM_QUERY_CNF \<rparr>"

text \<open>The result pairs the C return value with \<open>*out\<close>.\<close>

definition pg_tre_tile_spine ::
    "hashfn \<Rightarrow> int \<Rightarrow> int \<Rightarrow> SpineEntry list \<Rightarrow> int \<Rightarrow> TrigramQuery \<Rightarrow> bool \<times> TrigramQuery" where
  "pg_tre_tile_spine hf fanout max_char_len spine k out =
     (let tile_k = (if k > 2 then 2 else k);
          spine_n = int (length spine);
          any_exact_only = (max_char_len > 1 \<or>
            list_ex (\<lambda>e. case trigram_of e of (a, b, c) \<Rightarrow> a > 127 \<or> b > 127 \<or> c > 127) spine)
      in if spine_n \<le> 0 \<or> k < 0 then (False, give_up out)
         else if any_exact_only \<and> spine_n \<le> 3 * k then (False, give_up out)
         else if k + 1 > spine_n then (False, give_up out)
         else (let n_tiles = nat (k + 1);
                   tile_size = (length spine + n_tiles - 1) div n_tiles;
                   out' = out\<lparr> mode := TRIGRAM_QUERY_DNF, always_true := False,
                             global_max_cost := k, min_match_len := 3 \<rparr>
               in case tile_loop hf fanout k tile_k tile_size spine [0..<n_tiles] (replicate n_tiles []) of
                    Inl cj \<Rightarrow> (False, give_up (out'\<lparr> conjuncts := cj \<rparr>))
                  | Inr cj \<Rightarrow> (True, out'\<lparr> conjuncts := cj \<rparr>)))"

section \<open>Exact pieces\<close>

text \<open>
  The scan for literal runs of at least three characters: from \<open>i\<close>, the run up to the next
  separator, then on behind that separator. \<open>None\<close>: more than 512 runs.
\<close>

definition run_end :: "int list \<Rightarrow> nat \<Rightarrow> nat" where
  "run_end buf i = i + length (takeWhile (\<lambda>c. c \<ge> 0) (drop i buf))"

lemma run_end_ge: "i \<le> run_end buf i"
  by (simp add: run_end_def)

function find_runs :: "int list \<Rightarrow> nat \<Rightarrow> (nat \<times> nat) list \<Rightarrow> (nat \<times> nat) list option" where
  "find_runs buf i runs =
     (if i < length buf
      then (let j = run_end buf i
            in if j - i \<ge> 3
               then (if length runs \<ge> MAX_RUNS then None
                     else find_runs buf (j + 1) (runs @ [(i, j - i)]))
               else find_runs buf (j + 1) runs)
      else Some runs)"
  by pat_completeness auto
termination
  by (relation "measure (\<lambda>(buf, i, runs). length buf - i)") (auto simp: run_end_def)

declare find_runs.simps [simp del]

text \<open>
  One round of the greedy distribution. \<open>best\<close> is the best run so far with the quotient
  \<open>run_len / (pieces + 1)\<close> as a fraction; the C code compares the quotients as doubles,
  which order fractions of such small numerators and denominators exactly.
\<close>

fun best_run :: "nat list \<Rightarrow> nat list \<Rightarrow> nat \<Rightarrow> (nat \<times> nat \<times> nat) option \<Rightarrow> (nat \<times> nat \<times> nat) option" where
  "best_run (len # lens) (p # ps) r best =
     (let better = (case best of None \<Rightarrow> len > 0 | Some (b, num, den) \<Rightarrow> len * den > num * (p + 1))
      in best_run lens ps (r + 1) (if len \<ge> 3 * (p + 1) \<and> better then Some (r, len, p + 1) else best))"
| "best_run lens ps r best = best"

primrec hand_out :: "nat list \<Rightarrow> nat \<Rightarrow> nat list \<Rightarrow> nat list option" where
  "hand_out lens 0 pieces = Some pieces"
| "hand_out lens (Suc t) pieces =
     (case best_run lens pieces 0 None of
        None \<Rightarrow> None
      | Some (best, _, _) \<Rightarrow> hand_out lens t (pieces[best := pieces ! best + 1]))"

text \<open>The even split of a run into its pieces, and the trigrams of one piece.\<close>

definition run_cuts :: "nat \<times> nat \<Rightarrow> nat \<Rightarrow> (nat \<times> nat) list" where
  "run_cuts rn pieces = (case rn of (start, len) \<Rightarrow>
     map (\<lambda>p. (start + (len * p) div pieces, start + (len * (p + 1)) div pieces)) [0..<pieces])"

definition piece_alts :: "hashfn \<Rightarrow> int list \<Rightarrow> nat \<times> nat \<Rightarrow> TrigramConjunct" where
  "piece_alts hf buf ab = (case ab of (a, b) \<Rightarrow>
     map (\<lambda>j. tq_alt hf (buf ! (a + j), buf ! (a + j + 1), buf ! (a + j + 2))) [0..<b - a - 2])"

definition tile_pieces :: "hashfn \<Rightarrow> RegexAst \<Rightarrow> int \<Rightarrow> TrigramQuery \<Rightarrow> TrigramQuery option" where
  "tile_pieces hf ast k out =
     (if k < 1 \<or> k > 64 then None
      else case linearize_literals ast LIN_CAP of
        None \<Rightarrow> None
      | Some buf \<Rightarrow>
          (case find_runs buf 0 [] of
             None \<Rightarrow> None
           | Some runs \<Rightarrow>
               (case hand_out (map snd runs) (nat (k + 1)) (replicate (length runs) 0) of
                  None \<Rightarrow> None
                | Some pieces \<Rightarrow>
                    Some (out\<lparr> conjuncts := map (piece_alts hf buf) (concat (map2 run_cuts runs pieces)),
                      mode := TRIGRAM_QUERY_PIECES, always_true := False,
                      global_max_cost := k, min_match_len := 3 \<rparr>))))"

definition pg_tre_tile_query ::
    "hashfn \<Rightarrow> int \<Rightarrow> int \<Rightarrow> RegexAst \<Rightarrow> int \<Rightarrow> TrigramQuery \<Rightarrow> bool \<times> TrigramQuery" where
  "pg_tre_tile_query hf fanout max_char_len ast k out =
     (case tile_pieces hf ast k out of
        Some q \<Rightarrow> (True, q)
      | None \<Rightarrow>
          (case extract_spine_from_ast ast LIN_CAP of
             None \<Rightarrow> (False, give_up out)
           | Some spine \<Rightarrow> pg_tre_tile_spine hf fanout max_char_len spine k out))"

end
