(* ===== verification/Tiling_Sound.thy ===== *)
theory Tiling_Sound
  imports Tiling Regex_Semantics
begin

text \<open>
  Soundness of the approximate filters: at most \<open>k\<close> edits cannot touch all of \<open>k + 1\<close>
  disjoint pieces of a match, so one piece is still there, contiguous, in the text.
\<close>

section \<open>Linearised patterns\<close>

text \<open>The text that a linearised pattern describes; a separator is any text.\<close>

fun lin_match :: "int list \<Rightarrow> int list \<Rightarrow> bool" where
  "lin_match [] s \<longleftrightarrow> s = []"
| "lin_match (c # buf) s \<longleftrightarrow>
     (if c \<ge> 0 then (\<exists>v. s = c # v \<and> lin_match buf v) else (\<exists>u v. s = u @ v \<and> lin_match buf v))"

lemma lin_match_append:
  "lin_match (x @ y) s \<longleftrightarrow> (\<exists>u v. s = u @ v \<and> lin_match x u \<and> lin_match y v)"
proof (induction x arbitrary: s)
  case (Cons c x)
  show ?case
  proof (cases "c \<ge> 0")
    case True
    then show ?thesis by (auto simp: Cons) (metis append_Cons, blast)
  next
    case False
    have "lin_match ((c # x) @ y) s \<longleftrightarrow> (\<exists>u u' v. s = u @ u' @ v \<and> lin_match x u' \<and> lin_match y v)"
      using False by (auto simp: Cons)
    also have "\<dots> \<longleftrightarrow> (\<exists>w v. s = w @ v \<and> (\<exists>u u'. w = u @ u' \<and> lin_match x u') \<and> lin_match y v)"
      by (metis append_assoc)
    finally show ?thesis using False by simp
  qed
qed simp

lemma lin_match_literals: "\<forall>c \<in> set p. c \<ge> 0 \<Longrightarrow> lin_match p s \<longleftrightarrow> s = p"
  by (induction p arbitrary: s) auto

text \<open>The literals the spine sees are characters.\<close>

primrec spine_chars :: "RegexAst \<Rightarrow> bool" where
  "spine_chars (LITERAL c) = (c \<ge> 0)"
| "spine_chars ANY = True"
| "spine_chars (CLASS negated cs) = True"
| "spine_chars (ANCHOR w) = True"
| "spine_chars (CONCAT l r) = (spine_chars l \<and> spine_chars r)"
| "spine_chars (ALT l r) = True"
| "spine_chars (REP c m n) = True"
| "spine_chars (APPROX c k) = True"

lemma rx_match_linearize:
  "spine_chars ast \<Longrightarrow> linearize_literals ast cap = Some buf \<Longrightarrow> rx_match ast b e s \<Longrightarrow> lin_match buf s"
proof (induction ast arbitrary: cap buf b e s)
  case (CONCAT l r)
  then obtain bl br where b: "linearize_literals l cap = Some bl"
      "linearize_literals r (cap - length bl) = Some br" "buf = bl @ br"
    by (auto split: option.splits)
  from CONCAT.prems(3) obtain u v where uv: "s = u @ v" "rx_match l b (e \<and> v = []) u"
      "rx_match r (b \<and> u = []) e v" by auto
  have "lin_match bl u" "lin_match br v"
    using CONCAT.IH(1)[OF _ b(1) uv(2)] CONCAT.IH(2)[OF _ b(2) uv(3)] CONCAT.prems(1) by simp_all
  with b(3) uv(1) show ?case by (auto simp: lin_match_append)
qed (auto split: if_splits)

lemma linearize_length: "linearize_literals ast cap = Some buf \<Longrightarrow> length buf \<le> cap"
proof (induction ast arbitrary: cap buf)
  case (CONCAT l r)
  then obtain bl br where b: "linearize_literals l cap = Some bl"
      "linearize_literals r (cap - length bl) = Some br" "buf = bl @ br"
    by (auto split: option.splits)
  from CONCAT.IH(1)[OF b(1)] CONCAT.IH(2)[OF b(2)] b(3) show ?case by simp
qed (auto split: if_splits)

section \<open>Disjoint pieces\<close>

definition segment :: "'a list \<Rightarrow> nat \<Rightarrow> nat \<Rightarrow> 'a list" where
  "segment xs a b = take (b - a) (drop a xs)"

fun ivs_ok :: "int list \<Rightarrow> nat \<Rightarrow> (nat \<times> nat) list \<Rightarrow> bool" where
  "ivs_ok buf z [] = True"
| "ivs_ok buf z ((a, b) # ivs) =
     (z \<le> a \<and> a \<le> b \<and> b \<le> length buf \<and> (\<forall>c \<in> set (segment buf a b). c \<ge> 0) \<and> ivs_ok buf b ivs)"

lemma drop_segment: "z \<le> a \<Longrightarrow> a \<le> b \<Longrightarrow> b \<le> length xs \<Longrightarrow>
    drop z xs = segment xs z a @ segment xs a b @ drop b xs"
  unfolding segment_def
  by (metis append_take_drop_id drop_drop le_add_diff_inverse2)

text \<open>The pigeonhole: more disjoint pieces than edits.\<close>

theorem pieces_survive:
  assumes "ivs_ok buf z ivs" and "k < length ivs" and "lin_match (drop z buf) s" and "lev k s t"
  shows "\<exists>(a, b) \<in> set ivs. sublist (segment buf a b) t"
  using assms
proof (induction ivs arbitrary: z k s t)
  case (Cons iv ivs)
  obtain a b where iv: "iv = (a, b)" by (cases iv)
  with Cons.prems have ok: "z \<le> a" "a \<le> b" "b \<le> length buf" "\<forall>c \<in> set (segment buf a b). c \<ge> 0"
      "ivs_ok buf b ivs" by auto
  from Cons.prems(3) drop_segment[OF ok(1-3)] obtain s1 s3
    where s: "s = s1 @ segment buf a b @ s3" "lin_match (drop b buf) s3"
    by (auto simp: lin_match_append lin_match_literals[OF ok(4)])
  from Cons.prems(4) s(1) obtain i j t1 t2 where
      1: "i + j \<le> k" "t = t1 @ t2" "lev j (segment buf a b @ s3) t2"
    using lev_append_split by blast
  from lev_append_split[OF 1(3)] obtain i' j' u1 u2 where
      2: "i' + j' \<le> j" "t2 = u1 @ u2" "lev i' (segment buf a b) u1" "lev j' s3 u2" by blast
  show ?case
  proof (cases "i' = 0")
    case True
    with 2(3) have "segment buf a b = u1" by (simp add: lev_0)
    with 1(2) 2(2) iv show ?thesis by auto
  next
    case False
    with 1(1) 2(1) Cons.prems(2) have "j' < length ivs" by simp
    from Cons.IH[OF ok(5) this s(2) 2(4)] 1(2) 2(2) show ?thesis
      by (auto intro: factor_intros)
  qed
qed simp

section \<open>The pieces of the runs\<close>

lemma set_segment_conv: "b \<le> length xs \<Longrightarrow> set (segment xs a b) = (\<lambda>i. xs ! i) ` {a..<b}"
proof -
  assume b: "b \<le> length xs"
  have "segment xs a b = map (\<lambda>i. xs ! i) [a..<b]"
    using b by (auto simp: segment_def intro!: nth_equalityI)
  then show ?thesis by simp
qed

lemma run_end_le: "i \<le> length buf \<Longrightarrow> run_end buf i \<le> length buf"
  using length_takeWhile_le[of "\<lambda>c. c \<ge> 0" "drop i buf"] by (simp add: run_end_def)

lemma run_end_literals: "c \<in> set (segment buf i (run_end buf i)) \<Longrightarrow> c \<ge> 0"
proof -
  have "take (length (takeWhile P xs)) xs = takeWhile P xs" for P :: "int \<Rightarrow> bool" and xs
    by (metis takeWhile_eq_take)
  then have "segment buf i (run_end buf i) = takeWhile (\<lambda>c. c \<ge> 0) (drop i buf)"
    by (simp add: segment_def run_end_def)
  then show "c \<in> set (segment buf i (run_end buf i)) \<Longrightarrow> c \<ge> 0" by (auto dest: set_takeWhileD)
qed

definition runs_ivs :: "(nat \<times> nat) list \<Rightarrow> (nat \<times> nat) list" where
  "runs_ivs runs = map (\<lambda>(st, len). (st, st + len)) runs"

lemma ivs_ok_append:
  "ivs_ok buf z (xs @ ys) \<longleftrightarrow> ivs_ok buf z xs \<and> ivs_ok buf (if xs = [] then z else snd (last xs)) ys"
  by (induction buf z xs rule: ivs_ok.induct) auto

lemma ivs_ok_mono: "ivs_ok buf z xs \<Longrightarrow> z' \<le> z \<Longrightarrow> ivs_ok buf z' xs"
  by (cases xs) auto

text \<open>The runs found are disjoint, in order, literal, and at least three characters long.\<close>

lemma find_runs_ok:
  "find_runs buf i runs = Some res \<Longrightarrow> ivs_ok buf 0 (runs_ivs runs) \<Longrightarrow>
   (\<forall>(st, len) \<in> set runs. 3 \<le> len \<and> st + len \<le> i) \<Longrightarrow>
     ivs_ok buf 0 (runs_ivs res) \<and> (\<forall>(st, len) \<in> set res. 3 \<le> len)"
proof (induction buf i runs rule: find_runs.induct)
  case (1 buf i runs)
  let ?j = "run_end buf i"
  show ?case
  proof (cases "i < length buf")
    case True
    show ?thesis
    proof (cases "?j - i \<ge> 3")
      case long: True
      with True 1(3) have lt: "\<not> length runs \<ge> MAX_RUNS"
          and rec: "find_runs buf (?j + 1) (runs @ [(i, ?j - i)]) = Some res"
        by (auto simp: find_runs.simps[of buf i] Let_def split: if_splits)
      have le: "(if runs = [] then 0 else snd (last (runs_ivs runs))) \<le> i"
        using 1(5) last_in_set[of runs] by (cases "last runs") (fastforce simp: runs_ivs_def last_map)
      have "ivs_ok buf 0 (runs_ivs (runs @ [(i, ?j - i)]))"
        using 1(4) le run_end_le[of i buf] run_end_literals[of _ buf i] True run_end_ge[of i buf]
        by (auto simp: runs_ivs_def ivs_ok_append split: if_splits)
      moreover have "\<forall>(st, len) \<in> set (runs @ [(i, ?j - i)]). 3 \<le> len \<and> st + len \<le> ?j + 1"
        using 1(5) long run_end_ge[of i buf] by fastforce
      ultimately show ?thesis using 1(1)[OF True refl long lt rec] by blast
    next
      case False
      with True 1(3) have rec: "find_runs buf (?j + 1) runs = Some res"
        by (simp add: find_runs.simps[of buf i] Let_def)
      have "\<forall>(st, len) \<in> set runs. 3 \<le> len \<and> st + len \<le> ?j + 1"
        using 1(5) run_end_ge[of i buf] by fastforce
      with 1(2)[OF True refl False rec] 1(4) show ?thesis by blast
    qed
  next
    case False
    with 1 show ?thesis by (auto simp: find_runs.simps[of buf i])
  qed
qed

text \<open>The greedy distribution hands out every piece, and never makes one shorter than three.\<close>

lemma best_run_sound:
  "best_run lens ps r best = Some (b, nm, dn) \<Longrightarrow>
     best = Some (b, nm, dn) \<or>
     (r \<le> b \<and> b - r < length lens \<and> b - r < length ps \<and> 3 * (ps ! (b - r) + 1) \<le> lens ! (b - r))"
proof (induction lens ps r best rule: best_run.induct)
  case (1 len lens p ps r best)
  define best' where "best' = (if len \<ge> 3 * (p + 1) \<and> (case best of None \<Rightarrow> len > 0
      | Some (b, nm, dn) \<Rightarrow> len * dn > nm * (p + 1)) then Some (r, len, p + 1) else best)"
  from 1(2) have "best_run lens ps (r + 1) best' = Some (b, nm, dn)"
    by (simp add: best'_def Let_def)
  with 1(1)[OF refl] consider "best' = Some (b, nm, dn)"
    | "r + 1 \<le> b" "b - (r + 1) < length lens" "b - (r + 1) < length ps"
      "3 * (ps ! (b - (r + 1)) + 1) \<le> lens ! (b - (r + 1))"
    unfolding best'_def by blast
  then show ?case
  proof cases
    case 1
    then show ?thesis by (auto simp: best'_def split: if_splits)
  next
    case 2
    then obtain d where "b - r = Suc d" "d = b - (r + 1)" by (cases "b - r") auto
    with 2 show ?thesis by simp
  qed
qed auto

definition pieces_ok :: "nat list \<Rightarrow> nat list \<Rightarrow> bool" where
  "pieces_ok lens pieces \<longleftrightarrow> list_all2 (\<lambda>len p. 3 * p \<le> len) lens pieces"

lemma hand_out_ok:
  "hand_out lens t pieces = Some res \<Longrightarrow> pieces_ok lens pieces \<Longrightarrow>
     pieces_ok lens res \<and> sum_list res = sum_list pieces + t"
proof (induction t arbitrary: pieces)
  case (Suc t)
  then obtain b nm dn where br: "best_run lens pieces 0 None = Some (b, nm, dn)"
      and rec: "hand_out lens t (pieces[b := pieces ! b + 1]) = Some res"
    by (auto split: option.splits)
  from best_run_sound[OF br] have b: "b < length lens" "b < length pieces" "3 * (pieces ! b + 1) \<le> lens ! b"
    by auto
  with Suc.prems(2) have "pieces_ok lens (pieces[b := pieces ! b + 1])"
    by (auto simp: pieces_ok_def list_all2_conv_all_nth nth_list_update)
  moreover have "sum_list (pieces[b := pieces ! b + 1]) = sum_list pieces + 1"
  proof -
    have "pieces ! b \<le> sum_list pieces" using b(2) by (simp add: member_le_sum_list)
    then show ?thesis using b(2) by (simp add: sum_list_update)
  qed
  ultimately show ?case using Suc.IH[OF rec] by simp
qed simp

text \<open>The cuts of one run tile it in order; with room for it, each is at least three long.\<close>

lemma run_cuts_steps:
  assumes "0 < p" and "m \<le> p" and "z \<le> st" and "st + len \<le> length buf"
    and "\<forall>c \<in> set (segment buf st (st + len)). c \<ge> 0"
  shows "ivs_ok buf z (map (\<lambda>i. (st + len * i div p, st + len * (i + 1) div p)) [0..<m])"
  using assms(2)
proof (induction m)
  case (Suc m)
  have mono: "len * m div p \<le> len * (m + 1) div p" by (intro div_le_mono) simp
  have "len * (m + 1) \<le> len * p" using Suc.prems by (intro mult_le_mono2) simp
  then have "len * (m + 1) div p \<le> len * p div p" by (rule div_le_mono)
  then have top: "len * (m + 1) div p \<le> len" using assms(1) by simp
  have lit: "\<forall>c \<in> set (segment buf (st + len * m div p) (st + len * (m + 1) div p)). c \<ge> 0"
    using assms(4,5) top by (auto simp: set_segment_conv)
  have "st + len * (m + 1) div p \<le> length buf" using top assms(4) by linarith
  with mono lit Suc assms(3) show ?case
    by (cases m) (simp_all add: ivs_ok_append)
qed simp

lemma run_cuts_ok:
  assumes "z \<le> st" and "st + len \<le> length buf" and "\<forall>c \<in> set (segment buf st (st + len)). c \<ge> 0"
  shows "ivs_ok buf z (run_cuts (st, len) p)"
    and "iv \<in> set (run_cuts (st, len) p) \<Longrightarrow> snd iv \<le> st + len"
proof -
  show "ivs_ok buf z (run_cuts (st, len) p)"
    using run_cuts_steps[of p p z st len buf] assms by (cases "p = 0") (simp_all add: run_cuts_def)
  assume "iv \<in> set (run_cuts (st, len) p)"
  then obtain i where i: "i < p" "snd iv = st + len * (i + 1) div p" by (auto simp: run_cuts_def)
  then have "len * (i + 1) \<le> len * p" by (intro mult_le_mono2) simp
  then have "len * (i + 1) div p \<le> len * p div p" by (rule div_le_mono)
  with i show "snd iv \<le> st + len" by simp
qed

lemma run_cuts_length3:
  assumes "3 * p \<le> len" and "(a, b) \<in> set (run_cuts (st, len) p)"
  shows "a + 3 \<le> b"
proof -
  from assms(2) obtain i where i: "i < p" "a = st + len * i div p" "b = st + len * (i + 1) div p"
    by (auto simp: run_cuts_def)
  have "len * i + 3 * p \<le> len * (i + 1)" using assms(1) by simp
  then have "(len * i + 3 * p) div p \<le> len * (i + 1) div p" by (rule div_le_mono)
  with i show ?thesis by simp
qed

lemma all_cuts_ok:
  "ivs_ok buf z (runs_ivs runs) \<Longrightarrow> length pieces = length runs \<Longrightarrow>
     ivs_ok buf z (concat (map2 run_cuts runs pieces))"
proof (induction runs pieces arbitrary: z rule: list_induct2')
  case (4 rn runs p pieces)
  obtain st len where rn: "rn = (st, len)" by (cases rn)
  from 4(2) rn have ok: "z \<le> st" "st + len \<le> length buf" "\<forall>c \<in> set (segment buf st (st + len)). c \<ge> 0"
      "ivs_ok buf (st + len) (runs_ivs runs)"
    by (auto simp: runs_ivs_def)
  from 4(1)[OF ok(4)] 4(3) have rest: "ivs_ok buf (st + len) (concat (map2 run_cuts runs pieces))" by simp
  let ?c = "run_cuts (st, len) p"
  have "(if ?c = [] then z else snd (last ?c)) \<le> st + len"
    using run_cuts_ok(2)[OF ok(1-3), of "last ?c" p] ok(1) by auto
  then show ?case
    using run_cuts_ok(1)[OF ok(1-3), of p] ivs_ok_mono[OF rest] rn by (simp add: ivs_ok_append)
qed simp_all

lemma length_all_cuts:
  "length pieces = length runs \<Longrightarrow> length (concat (map2 run_cuts runs pieces)) = sum_list pieces"
proof (induction runs pieces rule: list_induct2')
  case (4 rn runs p pieces)
  then show ?case by (cases rn) (simp add: run_cuts_def)
qed simp_all

section \<open>The pieces query\<close>

lemma nth_segment: "b \<le> length xs \<Longrightarrow> i < b - a \<Longrightarrow> segment xs a b ! i = xs ! (a + i)"
  by (simp add: segment_def)

lemma length_segment: "b \<le> length xs \<Longrightarrow> length (segment xs a b) = b - a"
  by (simp add: segment_def)

lemma piece_alts_windows:
  assumes "b \<le> length buf"
  shows "piece_alts hf buf (a, b) = map (tq_alt hf) (windows3 (segment buf a b))"
proof -
  have "windows3 (segment buf a b)
      = map (\<lambda>j. (buf ! (a + j), buf ! (a + j + 1), buf ! (a + j + 2))) [0..<b - a - 2]"
    unfolding windows3_conv_nth length_segment[OF assms]
    by (rule map_cong) (auto simp: nth_segment[OF assms] add.assoc)
  then show ?thesis by (simp add: piece_alts_def)
qed

lemma ivs_ok_bound: "ivs_ok buf z ivs \<Longrightarrow> (a, b) \<in> set ivs \<Longrightarrow> b \<le> length buf"
  by (induction buf z ivs rule: ivs_ok.induct) auto

text \<open>What a successful \<open>tile_pieces\<close> consists of.\<close>

lemma tile_pieces_cuts:
  assumes "tile_pieces hf ast k out = Some q"
  obtains buf cuts where "linearize_literals ast LIN_CAP = Some buf" and "1 \<le> k" and "k \<le> 64"
    and "ivs_ok buf 0 cuts" and "length cuts = nat (k + 1)"
    and "\<forall>(a, b) \<in> set cuts. a + 3 \<le> b"
    and "q = out\<lparr> conjuncts := map (piece_alts hf buf) cuts, mode := TRIGRAM_QUERY_PIECES,
           always_true := False, global_max_cost := k, min_match_len := 3 \<rparr>"
proof -
  from assms obtain buf runs pieces where
      k: "1 \<le> k" "k \<le> 64" and buf: "linearize_literals ast LIN_CAP = Some buf"
      and runs: "find_runs buf 0 [] = Some runs"
      and pieces: "hand_out (map snd runs) (nat (k + 1)) (replicate (length runs) 0) = Some pieces"
      and q: "q = out\<lparr> conjuncts := map (piece_alts hf buf) (concat (map2 run_cuts runs pieces)),
        mode := TRIGRAM_QUERY_PIECES, always_true := False, global_max_cost := k, min_match_len := 3 \<rparr>"
    by (auto simp: tile_pieces_def split: if_splits option.splits)
  have ok: "ivs_ok buf 0 (runs_ivs runs)"
    using find_runs_ok[OF runs] by (simp add: runs_ivs_def)
  have "pieces_ok (map snd runs) (replicate (length runs) 0)"
    by (simp add: pieces_ok_def list_all2_conv_all_nth)
  with hand_out_ok[OF pieces] have p: "pieces_ok (map snd runs) pieces" "sum_list pieces = nat (k + 1)"
    by (simp_all add: sum_list_replicate)
  then have len: "length pieces = length runs" by (auto simp: pieces_ok_def dest: list_all2_lengthD)
  have three: "\<forall>(a, b) \<in> set (concat (map2 run_cuts runs pieces)). a + 3 \<le> b"
  proof clarify
    fix a b assume "(a, b) \<in> set (concat (map2 run_cuts runs pieces))"
    then obtain i where i: "i < length runs" "(a, b) \<in> set (run_cuts (runs ! i) (pieces ! i))"
      using len by (auto simp: set_zip)
    moreover have "3 * pieces ! i \<le> snd (runs ! i)"
      using p(1) i(1) len by (auto simp: pieces_ok_def list_all2_conv_all_nth)
    ultimately show "a + 3 \<le> b" using run_cuts_length3 by (cases "runs ! i") auto
  qed
  have "length (concat (map2 run_cuts runs pieces)) = nat (k + 1)"
    using length_all_cuts[OF len] p(2) by simp
  from that[OF buf k all_cuts_ok[OF ok len] this three q] show ?thesis .
qed

lemma tile_pieces_sound:
  assumes "tile_pieces hf ast k out = Some q" and "spine_chars ast" and "approx_row_match ast (nat k) txt"
  shows "tq_accepts q (text_hashes hf txt)"
proof -
  from assms(1) obtain buf cuts where
      buf: "linearize_literals ast LIN_CAP = Some buf" and k: "1 \<le> k"
      and cuts: "ivs_ok buf 0 cuts" "length cuts = nat (k + 1)"
      and q: "q = out\<lparr> conjuncts := map (piece_alts hf buf) cuts, mode := TRIGRAM_QUERY_PIECES,
           always_true := False, global_max_cost := k, min_match_len := 3 \<rparr>"
    by (rule tile_pieces_cuts) blast
  from assms(3) obtain pre t suf s b e where
      t: "txt = pre @ t @ suf" "rx_match ast b e s" "lev (nat k) s t"
    by (auto simp: approx_row_match_def)
  have "lin_match (drop 0 buf) s" using rx_match_linearize[OF assms(2) buf t(2)] by simp
  from pieces_survive[OF cuts(1) _ this t(3)] cuts(2) k obtain a b where
      ab: "(a, b) \<in> set cuts" "sublist (segment buf a b) t" by auto
  have "sublist (segment buf a b) txt" using ab(2) t(1) by (auto intro: factor_intros)
  then have sub: "text_hashes hf (segment buf a b) \<subseteq> text_hashes hf txt" by (rule text_hashes_mono)
  have "\<forall>x \<in> set (piece_alts hf buf (a, b)). trigram_hash x \<in> text_hashes hf txt"
    using sub ivs_ok_bound[OF cuts(1) ab(1)] by (auto simp: piece_alts_windows text_hashes_def)
  with ab(1) q show ?thesis by (auto simp: tq_accepts_def)
qed

section \<open>The exact trigrams of the spine\<close>

text \<open>Among more than \<open>3k\<close> offsets there are more than \<open>k\<close> that are three apart.\<close>

function spread3 :: "nat list \<Rightarrow> nat list" where
  "spread3 [] = []"
| "spread3 (i # is) = i # spread3 (dropWhile (\<lambda>j. j < i + 3) is)"
  by pat_completeness auto
termination
  by (relation "measure length") (auto simp: length_dropWhile_le le_imp_less_Suc)

lemma takeWhile_short:
  fixes i :: nat
  assumes "sorted_wrt (<) (i # is)"
  shows "length (takeWhile (\<lambda>j. j < i + 3) is) \<le> 2"
proof -
  have "set (takeWhile (\<lambda>j. j < i + 3) is) \<subseteq> {i + 1, i + 2}"
    using assms by (auto dest!: set_takeWhileD)
  then have "card (set (takeWhile (\<lambda>j. j < i + 3) is)) \<le> card {i + 1, i + 2}"
    by (intro card_mono) auto
  moreover have "distinct (takeWhile (\<lambda>j. j < i + 3) is)"
    using assms strict_sorted_iff by (auto intro: distinct_takeWhile)
  ultimately show ?thesis by (simp add: distinct_card)
qed

lemma spread3_length: "sorted_wrt (<) is \<Longrightarrow> length is \<le> 3 * length (spread3 is)"
proof (induction "is" rule: spread3.induct)
  case (2 i "is")
  have "sorted_wrt (<) (dropWhile (\<lambda>j. j < i + 3) is)"
    using 2(2) by (simp add: sorted_wrt_dropWhile)
  from 2(1)[OF this] takeWhile_short[OF 2(2)] show ?case
    using length_append[of "takeWhile (\<lambda>j. j < i + 3) is" "dropWhile (\<lambda>j. j < i + 3) is"] by simp
qed simp

lemma set_spread3: "set (spread3 is) \<subseteq> set is"
  by (induction "is" rule: spread3.induct) (auto dest: set_dropWhileD)

lemma spread3_ivs:
  assumes "sorted_wrt (<) is" and "\<forall>i \<in> set is. z \<le> i \<and> i + 3 \<le> length buf \<and> (\<forall>c \<in> set (segment buf i (i + 3)). c \<ge> 0)"
  shows "ivs_ok buf z (map (\<lambda>i. (i, i + 3)) (spread3 is))"
  using assms
proof (induction "is" arbitrary: z rule: spread3.induct)
  case (2 i "is")
  have "sorted_wrt (<) (dropWhile (\<lambda>j. j < i + 3) is)"
    using 2(2) by (simp add: sorted_wrt_dropWhile)
  moreover have "\<forall>j \<in> set (dropWhile (\<lambda>j. j < i + 3) is). i + 3 \<le> j"
  proof (cases "dropWhile (\<lambda>j. j < i + 3) is")
    case (Cons x xs)
    then have "i + 3 \<le> x" using hd_dropWhile[of "\<lambda>j. j < i + 3" "is"] by auto
    with Cons calculation show ?thesis by auto
  next
    case Nil
    show ?thesis unfolding Nil by simp
  qed
  ultimately have "ivs_ok buf (i + 3) (map (\<lambda>i. (i, i + 3)) (spread3 (dropWhile (\<lambda>j. j < i + 3) is)))"
    using 2(3) by (intro 2(1)) (auto dest: set_dropWhileD)
  with 2(3) show ?case by simp
qed simp

lemma spine_offsets_ok:
  assumes "i \<in> set (spine_offsets buf)"
  shows "i + 3 \<le> length buf" and "segment buf i (i + 3) = [buf ! i, buf ! (i + 1), buf ! (i + 2)]"
    and "\<forall>c \<in> set (segment buf i (i + 3)). c \<ge> 0"
proof -
  show le: "i + 3 \<le> length buf" using assms by (auto simp: spine_offsets_def)
  have "length (segment buf i (i + 3)) = 3" using le by (simp add: length_segment)
  then show eq: "segment buf i (i + 3) = [buf ! i, buf ! (i + 1), buf ! (i + 2)]"
    using le nth_segment[OF le] by (auto intro!: nth_equalityI simp: less_Suc_eq numeral_3_eq_3)
  show "\<forall>c \<in> set (segment buf i (i + 3)). c \<ge> 0"
    unfolding eq using assms by (auto simp: spine_offsets_def)
qed

lemma sorted_spine_offsets: "sorted_wrt (<) (spine_offsets buf)"
  unfolding spine_offsets_def by (intro sorted_wrt_filter sorted_wrt_upt)

text \<open>With more than \<open>3k\<close> trigrams one of them survives exactly.\<close>

lemma spine_survives:
  assumes "3 * k < length (spine_offsets buf)" and "lin_match buf s" and "lev k s t"
  shows "\<exists>i \<in> set (spine_offsets buf). sublist [buf ! i, buf ! (i + 1), buf ! (i + 2)] t"
proof -
  have ok: "ivs_ok buf 0 (map (\<lambda>i. (i, i + 3)) (spread3 (spine_offsets buf)))"
    using spine_offsets_ok sorted_spine_offsets by (intro spread3_ivs) auto
  have "k < length (map (\<lambda>i. (i, i + 3)) (spread3 (spine_offsets buf)))"
    using assms(1) spread3_length[OF sorted_spine_offsets, of buf] by simp
  from pieces_survive[OF ok this _ assms(3)] assms(2) obtain i where
      "i \<in> set (spread3 (spine_offsets buf))" "sublist (segment buf i (i + 3)) t" by auto
  moreover from this(1) have "i \<in> set (spine_offsets buf)" using set_spread3 by blast
  ultimately show ?thesis using spine_offsets_ok(2) by metis
qed

section \<open>The tiles cover the spine\<close>

definition tile_of :: "SpineEntry list \<Rightarrow> nat \<Rightarrow> nat \<Rightarrow> SpineEntry list" where
  "tile_of spine sz t =
     take (min (t * sz + sz) (length spine) - t * sz) (drop (t * sz) spine)"

lemma tile_of_mem:
  assumes "i < length spine" and "0 < sz"
  shows "spine ! i \<in> set (tile_of spine sz (i div sz))"
proof -
  let ?t = "i div sz"
  have lo: "?t * sz \<le> i" by simp
  have "i < sz + sz * (i div sz)"
    using assms(2) by (metis add.commute div_mult_mod_eq mod_less_divisor mult.commute nat_add_left_cancel_less)
  then have hi: "i < ?t * sz + sz" by (simp add: algebra_simps)
  define s0 where "s0 = ?t * sz"
  have b: "s0 \<le> i" "i < s0 + sz" using lo hi by (simp_all add: s0_def)
  have tile: "tile_of spine sz ?t = take (min (s0 + sz) (length spine) - s0) (drop s0 spine)"
    by (simp add: tile_of_def s0_def)
  have "i - s0 < min (s0 + sz) (length spine) - s0" using b assms(1) by auto
  then have "tile_of spine sz ?t ! (i - s0) = spine ! i" "i - s0 < length (tile_of spine sz ?t)"
    unfolding tile using b assms(1) by auto
  then show ?thesis using nth_mem by metis
qed

lemma tile_loop_cover:
  assumes "tile_loop hf fanout k tile_k sz spine ts cj = Inr res"
    and "distinct ts" and "\<forall>t \<in> set ts. t < length cj" and "0 < tile_k"
  shows "length res = length cj \<and> (\<forall>t. t \<notin> set ts \<longrightarrow> res ! t = cj ! t) \<and>
    (\<forall>t \<in> set ts. tile_of spine sz t \<noteq> [] \<longrightarrow>
       (\<exists>n. tile_count fanout tile_k 0 (tile_of spine sz t) = Some n) \<and>
       res ! t = concat (map (entry_alts hf k tile_k) (tile_of spine sz t)))"
  using assms
proof (induction ts arbitrary: cj)
  case (Cons t ts)
  let ?tile = "tile_of spine sz t"
  show ?case
  proof (cases "min (t * sz + sz) (length spine) \<le> t * sz")
    case True
    then have "?tile = []" by (simp add: tile_of_def)
    moreover have "tile_loop hf fanout k tile_k sz spine ts cj = Inr res"
      using Cons.prems(1) True by (simp add: Let_def)
    ultimately show ?thesis using Cons.IH[of cj] Cons.prems(2-4) by auto
  next
    case False
    then obtain n where n: "tile_count fanout tile_k 0 ?tile = Some n"
        and rec: "tile_loop hf fanout k tile_k sz spine ts
          (cj[t := concat (map (entry_alts hf k tile_k) ?tile)]) = Inr res"
      using Cons.prems(1,4) by (auto simp: Let_def tile_of_def split: option.splits)
    from Cons.IH[OF rec] Cons.prems(2-4) n show ?thesis by auto
  qed
qed simp

lemma tile_count_expands:
  "tile_count fanout tile_k tot es = Some n \<Longrightarrow> e \<in> set es \<Longrightarrow>
     \<exists>ns. pg_tre_uleven_expand_cp (trigram_of e) tile_k EXPAND_CAP = Some ns"
  by (induction fanout tile_k tot es rule: tile_count.induct) (auto split: option.splits if_splits)

lemma entry_alts_mem:
  assumes "pg_tre_uleven_expand_cp (trigram_of e) tile_k EXPAND_CAP = Some ns" and "t \<in> set ns"
    and "e \<in> set es"
  shows "\<exists>a \<in> set (concat (map (entry_alts hf k tile_k) es)). trigram_hash a = pg_tre_hash_trigram_cp hf t"
proof -
  have "\<exists>a \<in> set (entry_alts hf k tile_k e). trigram_hash a = pg_tre_hash_trigram_cp hf t"
    using assms(1,2) by (auto simp: entry_alts_def image_iff intro!: bexI[of _ t])
  with assms(3) show ?thesis by auto
qed

text \<open>
  Every trigram of the spine is expanded, and all its alternatives are in some conjunct.
\<close>

lemma tile_spine_cover:
  assumes "pg_tre_tile_spine hf fanout mcl spine k out = (True, q)" and "1 \<le> k" and "e \<in> set spine"
  shows "mode q = TRIGRAM_QUERY_DNF \<and> (\<exists>ns. pg_tre_uleven_expand_cp (trigram_of e) (min k 2) EXPAND_CAP = Some ns
     \<and> (\<forall>t \<in> set ns. \<exists>c \<in> set (conjuncts q). \<exists>a \<in> set c. trigram_hash a = pg_tre_hash_trigram_cp hf t))"
proof -
  let ?nt = "nat (k + 1)" and ?tk = "if k > 2 then 2 else k"
  let ?size = "(length spine + ?nt - 1) div ?nt"
  have tk: "?tk = min k 2" by (simp add: min_def)
  from assms(1) obtain cj where loop: "tile_loop hf fanout k ?tk ?size spine [0..<?nt] (replicate ?nt []) = Inr cj"
      and q: "q = out\<lparr> mode := TRIGRAM_QUERY_DNF, always_true := False, global_max_cost := k,
        min_match_len := 3, conjuncts := cj \<rparr>"
    by (auto simp: pg_tre_tile_spine_def Let_def split: if_splits sum.splits)
  from assms(3) obtain i where i: "i < length spine" "spine ! i = e" by (auto simp: in_set_conv_nth)
  have nt: "0 < ?nt" using assms(2) by simp
  have "?nt \<le> length spine + ?nt - 1" using i(1) by simp
  then have sz: "0 < ?size" using nt by (simp add: div_greater_zero_iff)
  have "length spine \<le> ?nt * ?size"
  proof -
    have "length spine + ?nt - 1 < ?nt * ?size + ?nt"
      using nt by (metis add.commute dividend_less_times_div mult_Suc_right mult.commute)
    then show ?thesis using nt by linarith
  qed
  with i(1) have t: "i div ?size < ?nt" using sz by (simp add: less_mult_imp_div_less)
  have mem: "e \<in> set (tile_of spine ?size (i div ?size))" using tile_of_mem[OF i(1) sz] i(2) by simp
  have "distinct [0..<?nt]" "\<forall>t \<in> set [0..<?nt]. t < length (replicate ?nt [])" "0 < ?tk"
    using assms(2) by simp_all
  note cov = tile_loop_cover[OF loop this]
  have ne: "tile_of spine ?size (i div ?size) \<noteq> []" using mem by (metis empty_iff list.set(1))
  from cov have len: "length cj = ?nt" by simp
  have tin: "i div ?size \<in> set [0..<?nt]" using t by simp
  from cov tin ne obtain n where
      n: "tile_count fanout ?tk 0 (tile_of spine ?size (i div ?size)) = Some n"
      and cjt: "cj ! (i div ?size) = concat (map (entry_alts hf k ?tk) (tile_of spine ?size (i div ?size)))"
    by blast
  from tile_count_expands[OF n mem] obtain ns where ns: "pg_tre_uleven_expand_cp (trigram_of e) ?tk EXPAND_CAP = Some ns"
    by blast
  have "cj ! (i div ?size) \<in> set cj" using t len by simp
  moreover have "\<forall>t \<in> set ns. \<exists>a \<in> set (cj ! (i div ?size)). trigram_hash a = pg_tre_hash_trigram_cp hf t"
    unfolding cjt using entry_alts_mem[OF ns _ mem] by blast
  ultimately have "\<forall>t \<in> set ns. \<exists>c \<in> set cj. \<exists>a \<in> set c. trigram_hash a = pg_tre_hash_trigram_cp hf t"
    by blast
  then show ?thesis using ns q by (simp add: tk)
qed

section \<open>The neighbourhood at budget one\<close>

text \<open>
  One edit inside four consecutive characters leaves either one of their two trigrams or a
  substitution of one of them.
\<close>

definition near4 :: "int \<Rightarrow> int \<Rightarrow> int \<Rightarrow> int \<Rightarrow> int list \<Rightarrow> bool" where
  "near4 a b c d t \<longleftrightarrow> (\<exists>x \<in> set (a # t). sublist [a, b, c] t \<or> sublist [b, c, d] t \<or>
     sublist [x, c, d] t \<or> sublist [a, x, c] t \<or> sublist [a, b, x] t)"

lemma near4I:
  "sublist [a, b, c] t \<Longrightarrow> near4 a b c d t" "sublist [b, c, d] t \<Longrightarrow> near4 a b c d t"
  "sublist [x, c, d] t \<Longrightarrow> near4 a b c d t" "sublist [a, x, c] t \<Longrightarrow> near4 a b c d t"
  "sublist [a, b, x] t \<Longrightarrow> near4 a b c d t"
  using set_mono_sublist[of "[x, c, d]" t] set_mono_sublist[of "[a, x, c]" t]
    set_mono_sublist[of "[a, b, x]" t]
  unfolding near4_def by auto

lemma near4_mono:
  assumes "near4 a b c d u" and "sublist u t"
  shows "near4 a b c d t"
  using assms(1) sublist_trans[OF _ assms(2)] near4I unfolding near4_def[of a b c d u]
  by (elim bexE disjE) metis+

lemma lev0_iff: "lev 0 xs ys \<longleftrightarrow> ys = xs"
  using lev_0 lev_refl by blast

lemma lev1_cons:
  assumes "lev 1 (x # xs) t"
  obtains (keep) t' where "t = x # t'" "lev 1 xs t'" | (subst) y where "t = y # xs"
    | (del) "t = xs" | (ins) y where "t = y # x # xs"
  using assms by (cases rule: lev_consE) (auto simp: lev0_iff)

lemma lev1_nil: "lev 1 [] t \<Longrightarrow> t = [] \<or> (\<exists>y. t = [y])"
  by (erule lev_nilE) (auto simp: lev0_iff)

lemma sublist_take3: "sublist [x, y, z] (x # y # z # zs)" "sublist [x, y, z] (u # x # y # z # zs)"
    "sublist [x, y, z] (v # u # x # y # z # zs)"
  using sublist_appendI[of "[x, y, z]" "[]" zs] sublist_appendI[of "[x, y, z]" "[u]" zs]
    sublist_appendI[of "[x, y, z]" "[v, u]" zs] by simp_all

lemma lev1_four:
  assumes "lev 1 [a, b, c, d] t"
  shows "near4 a b c d t"
  using assms
proof (cases rule: lev1_cons)
  case (keep t1)
  note t = keep(1)
  from keep(2) show ?thesis
  proof (cases rule: lev1_cons)
    case (keep t2)
    note t = t keep(1)
    from keep(2) show ?thesis
    proof (cases rule: lev1_cons)
      case (keep t3)
      with t show ?thesis by (auto intro: near4I(1) sublist_take3)
    qed (use t in \<open>auto intro: near4I(5) sublist_take3\<close>)
  next
    case del
    with t show ?thesis by (auto intro: near4I(3) sublist_take3)
  next
    case (subst y)
    with t show ?thesis by (auto intro: near4I(4) sublist_take3)
  next
    case (ins y)
    with t show ?thesis by (auto intro: near4I(2) sublist_take3)
  qed
qed (auto intro: near4I(2) sublist_take3)

lemma lev_middle:
  assumes "lev k (x @ p @ y) t"
  shows "\<exists>u. lev k p u \<and> sublist u t"
proof -
  from lev_append_split[OF assms] obtain i j t1 t2 where 1: "i + j \<le> k" "t = t1 @ t2" "lev j (p @ y) t2"
    by blast
  from lev_append_split[OF 1(3)] obtain i' j' u1 u2 where 2: "i' + j' \<le> j" "t2 = u1 @ u2" "lev i' p u1"
    by blast
  have "lev k p u1" using lev_mono[OF 2(3)] 1(1) 2(1) by simp
  with 1(2) 2(2) show ?thesis by auto
qed

lemma adjacent_near:
  assumes "i \<in> set (spine_offsets buf)" and "i + 1 \<in> set (spine_offsets buf)"
    and "lin_match buf s" and "lev 1 s t"
  shows "near4 (buf ! i) (buf ! (i + 1)) (buf ! (i + 2)) (buf ! (i + 3)) t"
proof -
  have le: "i + 4 \<le> length buf" using spine_offsets_ok(1)[OF assms(2)] by simp
  have "length (segment buf i (i + 4)) = 4" using le by (simp add: length_segment)
  then have eq: "segment buf i (i + 4) = [buf ! i, buf ! (i + 1), buf ! (i + 2), buf ! (i + 3)]"
    using nth_segment[OF le] by (auto intro!: nth_equalityI simp: less_Suc_eq eval_nat_numeral)
  have pos: "\<forall>c \<in> set (segment buf i (i + 4)). c \<ge> 0"
    unfolding eq using assms(1,2) by (auto simp: spine_offsets_def numeral_3_eq_3)
  have "drop 0 buf = segment buf 0 i @ segment buf i (i + 4) @ drop (i + 4) buf"
    by (rule drop_segment) (use le in simp_all)
  with assms(3) have "lin_match (segment buf 0 i @ segment buf i (i + 4) @ drop (i + 4) buf) s"
    by (metis drop0)
  then obtain s1 s3 where "s = s1 @ segment buf i (i + 4) @ s3"
    by (auto simp: lin_match_append lin_match_literals[OF pos])
  with assms(4) lev_middle obtain u where u: "lev 1 (segment buf i (i + 4)) u" "sublist u t" by blast
  from near4_mono[OF lev1_four[OF u(1)[unfolded eq]] u(2)] show ?thesis .
qed

lemma two_offsets:
  assumes "2 \<le> length (spine_offsets buf)"
  shows "(\<exists>i j. i \<in> set (spine_offsets buf) \<and> j \<in> set (spine_offsets buf) \<and> i + 3 \<le> j)
    \<or> (\<exists>i. i \<in> set (spine_offsets buf) \<and> i + 1 \<in> set (spine_offsets buf))"
proof -
  define i j where "i = spine_offsets buf ! 0" and "j = spine_offsets buf ! 1"
  have mem: "i \<in> set (spine_offsets buf)" "j \<in> set (spine_offsets buf)" "i < j"
    using assms sorted_spine_offsets[of buf]
    by (auto simp: i_def j_def sorted_wrt_iff_nth_less intro!: nth_mem)
  show ?thesis
  proof (cases "i + 3 \<le> j")
    case True
    with mem show ?thesis by blast
  next
    case False
    with mem(3) have "j = i + 1 \<or> j = i + 2" by auto
    then have "i + 1 \<in> set (spine_offsets buf)"
      using mem(1,2) by (auto simp: spine_offsets_def)
    with mem(1) show ?thesis by blast
  qed
qed

text \<open>
  An alternative of the spine's neighbourhoods occurs in every text one edit away, over
  single-byte characters.
\<close>

lemma spine_near:
  assumes "2 \<le> length (spine_offsets buf)" and "lin_match buf s" and "lev 1 s t"
  shows "\<exists>i \<in> set (spine_offsets buf). \<exists>x \<in> set (buf ! i # t). \<exists>w. sublist w t \<and>
    (w = [buf ! i, buf ! (i + 1), buf ! (i + 2)] \<or> w = [x, buf ! (i + 1), buf ! (i + 2)] \<or>
     w = [buf ! i, x, buf ! (i + 2)] \<or> w = [buf ! i, buf ! (i + 1), x])"
  using two_offsets[OF assms(1)]
proof
  assume "\<exists>i j. i \<in> set (spine_offsets buf) \<and> j \<in> set (spine_offsets buf) \<and> i + 3 \<le> j"
  then obtain i j where ij: "i \<in> set (spine_offsets buf)" "j \<in> set (spine_offsets buf)" "i + 3 \<le> j" by blast
  then have "ivs_ok buf 0 [(i, i + 3), (j, j + 3)]" using spine_offsets_ok(1,3) by simp
  from pieces_survive[OF this _ _ assms(3)] assms(2)
  have "sublist (segment buf i (i + 3)) t \<or> sublist (segment buf j (j + 3)) t" by auto
  with ij(1,2) show ?thesis using spine_offsets_ok(2) by (metis list.set_intros(1))
next
  assume "\<exists>i. i \<in> set (spine_offsets buf) \<and> i + 1 \<in> set (spine_offsets buf)"
  then obtain i where i: "i \<in> set (spine_offsets buf)" "i + 1 \<in> set (spine_offsets buf)" by blast
  have s3: "i + 1 + 1 = i + 2" "i + 1 + 2 = i + 3" by simp_all
  from adjacent_near[OF i assms(2,3)] obtain x where x: "x \<in> set (buf ! i # t)" and
     "sublist [buf ! i, buf ! (i + 1), buf ! (i + 2)] t \<or> sublist [buf ! (i + 1), buf ! (i + 2), buf ! (i + 3)] t \<or>
     sublist [x, buf ! (i + 2), buf ! (i + 3)] t \<or> sublist [buf ! i, x, buf ! (i + 2)] t
      \<or> sublist [buf ! i, buf ! (i + 1), x] t"
    unfolding near4_def by blast
  then consider "sublist [buf ! i, buf ! (i + 1), buf ! (i + 2)] t"
    | "sublist [buf ! (i + 1), buf ! (i + 2), buf ! (i + 3)] t"
    | "sublist [x, buf ! (i + 2), buf ! (i + 3)] t" | "sublist [buf ! i, x, buf ! (i + 2)] t"
    | "sublist [buf ! i, buf ! (i + 1), x] t" by blast
  then show ?thesis
  proof cases
    case 2
    then show ?thesis
      by (intro bexI[OF _ i(2)] bexI[of _ "buf ! (i + 1)"]) (simp_all only: s3 list.set_intros, blast)
  next
    case 3
    then have "x \<in> set t" using set_mono_sublist by fastforce
    then have "x \<in> set (buf ! (i + 1) # t)" by simp
    with 3 show ?thesis by (intro bexI[OF _ i(2)] bexI[of _ x]) (simp_all only: s3, blast)
  qed (use i(1) x in \<open>intro bexI[OF _ i(1)] bexI[OF _ x]; blast\<close>)+
qed

section \<open>The neighbourhood query\<close>

definition spine_of :: "int list \<Rightarrow> SpineEntry list" where
  "spine_of buf = map (spine_entry buf) (spine_offsets buf)"

lemma tile_spine_guards:
  assumes "pg_tre_tile_spine hf fanout mcl spine k out = (True, q)"
  shows "0 \<le> k \<and> k + 1 \<le> int (length spine) \<and> (3 * k < int (length spine) \<or>
    mcl \<le> 1 \<and> (\<forall>e \<in> set spine. case trigram_of e of (a, b, c) \<Rightarrow> a \<le> 127 \<and> b \<le> 127 \<and> c \<le> 127))"
proof -
  have "\<not> list_ex P xs \<longleftrightarrow> (\<forall>x \<in> set xs. \<not> P x)" for P and xs :: "SpineEntry list"
    by (simp add: list_ex_iff)
  with assms show ?thesis
    by (auto simp: pg_tre_tile_spine_def Let_def split: if_splits sum.splits prod.splits)
qed

lemma spine_ascii:
  assumes "i \<in> set (spine_offsets buf)"
    and "\<forall>e \<in> set (spine_of buf). case trigram_of e of (a, b, c) \<Rightarrow> a \<le> 127 \<and> b \<le> 127 \<and> c \<le> 127"
  shows "all_ascii (buf ! i, buf ! (i + 1), buf ! (i + 2))"
proof -
  have "spine_entry buf i \<in> set (spine_of buf)" using assms(1) by (simp add: spine_of_def)
  with assms(2) have "buf ! i \<le> 127 \<and> buf ! (i + 1) \<le> 127 \<and> buf ! (i + 2) \<le> 127"
    by (fastforce simp: spine_entry_def)
  with assms(1) show ?thesis by (auto simp: all_ascii_def spine_offsets_def)
qed

lemma dnf_acceptsI:
  assumes "mode q = TRIGRAM_QUERY_DNF" and "c \<in> set (conjuncts q)" and "a \<in> set c"
    and "trigram_hash a = pg_tre_hash_trigram_cp hf (x, y, z)" and "sublist [x, y, z] txt"
  shows "tq_accepts q (text_hashes hf txt)"
proof -
  have "trigram_hash a \<in> text_hashes hf txt" using assms(4) text_hashes_window[OF assms(5)] by simp
  with assms(1-3) show ?thesis by (auto simp: tq_accepts_def)
qed

lemma tile_spine_accepts:
  assumes "pg_tre_tile_spine hf fanout mcl (spine_of buf) k out = (True, q)" and "1 \<le> k"
    and "i \<in> set (spine_offsets buf)"
    and "\<And>ns. pg_tre_uleven_expand_cp (buf ! i, buf ! (i + 1), buf ! (i + 2)) (min k 2) EXPAND_CAP = Some ns \<Longrightarrow>
           (x, y, z) \<in> set ns"
    and "sublist [x, y, z] txt"
  shows "tq_accepts q (text_hashes hf txt)"
proof -
  have e: "spine_entry buf i \<in> set (spine_of buf)" using assms(3) by (simp add: spine_of_def)
  have tr: "trigram_of (spine_entry buf i) = (buf ! i, buf ! (i + 1), buf ! (i + 2))"
    by (simp add: spine_entry_def)
  from tile_spine_cover[OF assms(1,2) e] obtain ns' where
      "mode q = TRIGRAM_QUERY_DNF"
      "pg_tre_uleven_expand_cp (buf ! i, buf ! (i + 1), buf ! (i + 2)) (min k 2) EXPAND_CAP = Some ns'"
      "\<forall>t \<in> set ns'. \<exists>c \<in> set (conjuncts q). \<exists>a \<in> set c. trigram_hash a = pg_tre_hash_trigram_cp hf t"
    unfolding tr by blast
  then show ?thesis using assms(4,5) dnf_acceptsI by blast
qed

lemma spine_budget_one:
  assumes "pg_tre_tile_spine hf fanout mcl (spine_of buf) k out = (True, q)" and "1 \<le> k"
    and "i \<in> set (spine_offsets buf)" and "all_ascii (buf ! i, buf ! (i + 1), buf ! (i + 2))"
  shows "k = 1"
proof (rule ccontr)
  assume "k \<noteq> 1"
  with assms(2) have k: "min k 2 = 2" by simp
  have e: "spine_entry buf i \<in> set (spine_of buf)" using assms(3) by (simp add: spine_of_def)
  from tile_spine_cover[OF assms(1,2) e, unfolded k] obtain ns where
    "pg_tre_uleven_expand_cp (buf ! i, buf ! (i + 1), buf ! (i + 2)) 2 EXPAND_CAP = Some ns"
    by (auto simp: spine_entry_def)
  with uleven_expand_cp_big[of 2 EXPAND_CAP] assms(4) show False by (simp add: EXPAND_CAP_def)
qed

lemma tile_spine_sound:
  assumes "pg_tre_tile_spine hf fanout mcl (spine_of buf) k out = (True, q)" and "1 \<le> k"
    and "lin_match buf s" and "lev (nat k) s t" and "sublist t txt"
    and sb: "mcl \<le> 1 \<Longrightarrow> \<forall>c \<in> set txt. 0 \<le> c \<and> c \<le> 255"
  shows "tq_accepts q (text_hashes hf txt)"
proof -
  note guards = tile_spine_guards[OF assms(1)]
  have self: "(x, y, z) \<in> set ns"
    if "pg_tre_uleven_expand_cp (x, y, z) (min k 2) EXPAND_CAP = Some ns" for x y z ns
    using uleven_expand_cp_self[OF that] assms(2) by (simp add: EXPAND_CAP_def)
  consider (exact) "3 * k < int (length (spine_of buf))"
    | (near) "mcl \<le> 1" "\<forall>e \<in> set (spine_of buf). case trigram_of e of (a, b, c) \<Rightarrow> a \<le> 127 \<and> b \<le> 127 \<and> c \<le> 127"
    using guards by argo
  then show ?thesis
  proof cases
    case exact
    then have "3 * nat k < length (spine_offsets buf)" using assms(2) by (simp add: spine_of_def)
    from spine_survives[OF this assms(3,4)] obtain i where i: "i \<in> set (spine_offsets buf)"
        "sublist [buf ! i, buf ! (i + 1), buf ! (i + 2)] t" by blast
    then show ?thesis using tile_spine_accepts[OF assms(1,2) i(1) self] sublist_trans[OF i(2) assms(5)] by blast
  next
    case near
    have ascii: "all_ascii (buf ! i, buf ! (i + 1), buf ! (i + 2))" if "i \<in> set (spine_offsets buf)" for i
      using spine_ascii[OF that near(2)] .
    have two: "2 \<le> length (spine_offsets buf)" using guards assms(2) by (simp add: spine_of_def)
    then obtain i0 where "i0 \<in> set (spine_offsets buf)" by (cases "spine_offsets buf") auto
    then have k: "k = 1" using spine_budget_one[OF assms(1,2)] ascii by blast
    have "lev 1 s t" using assms(4) k by simp
    from spine_near[OF two assms(3) this] obtain i x w where
        i: "i \<in> set (spine_offsets buf)" and x: "x \<in> set (buf ! i # t)" and w: "sublist w t"
        and cs: "w = [buf ! i, buf ! (i + 1), buf ! (i + 2)] \<or> w = [x, buf ! (i + 1), buf ! (i + 2)] \<or>
          w = [buf ! i, x, buf ! (i + 2)] \<or> w = [buf ! i, buf ! (i + 1), x]" by blast
    have wt: "sublist w txt" using w assms(5) by (rule sublist_trans)
    have xb: "0 \<le> x" "x \<le> 255"
      using x sb[OF near(1)] set_mono_sublist[OF assms(5)] ascii[OF i] by (auto simp: all_ascii_def)
    have sub: "(x, buf ! (i + 1), buf ! (i + 2)) \<in> set ns" "(buf ! i, x, buf ! (i + 2)) \<in> set ns"
        "(buf ! i, buf ! (i + 1), x) \<in> set ns"
      if "pg_tre_uleven_expand_cp (buf ! i, buf ! (i + 1), buf ! (i + 2)) (min k 2) EXPAND_CAP = Some ns" for ns
      using uleven_expand_cp_subst[OF _ _ ascii[OF i] xb] that k by (simp_all add: EXPAND_CAP_def)
    note acc = tile_spine_accepts[OF assms(1,2) i]
    from cs show ?thesis
      using acc[OF self] acc[OF sub(1)] acc[OF sub(2)] acc[OF sub(3)] wt by blast
  qed
qed

theorem tile_query_sound:
  assumes "pg_tre_tile_query hf fanout mcl ast k out = (True, q)" and "1 \<le> k" and "spine_chars ast"
    and "approx_row_match ast (nat k) txt"
    and "mcl \<le> 1 \<Longrightarrow> \<forall>c \<in> set txt. 0 \<le> c \<and> c \<le> 255"
  shows "tq_accepts q (text_hashes hf txt)"
proof (cases "tile_pieces hf ast k out")
  case (Some q')
  with assms show ?thesis using tile_pieces_sound by (simp add: pg_tre_tile_query_def)
next
  case None
  with assms(1) obtain buf where buf: "linearize_literals ast LIN_CAP = Some buf"
      and sp: "pg_tre_tile_spine hf fanout mcl (spine_of buf) k out = (True, q)"
    by (auto simp: pg_tre_tile_query_def extract_spine_from_ast_def spine_of_def split: option.splits if_splits)
  from assms(4) obtain pre t suf s b e where
      t: "txt = pre @ t @ suf" "rx_match ast b e s" "lev (nat k) s t"
    by (auto simp: approx_row_match_def)
  have "sublist t txt" using t(1) by simp
  with tile_spine_sound[OF sp assms(2) rx_match_linearize[OF assms(3) buf t(2)] t(3)] assms(5)
  show ?thesis by blast
qed

end
