(* ===== verification/Extract.thy ===== *)
theory Extract
  imports Extract_Pieces Tiling_Sound
begin

text \<open>
  \<open>regex_extract_query\<close> of \<open>src/query/extract.c\<close>, the entry point of the query compiler, and
  its contract: the query accepts the trigrams of every row that matches.
\<close>

definition record_surf_range :: "RegexAst \<Rightarrow> int \<Rightarrow> TrigramQuery \<Rightarrow> TrigramQuery" where
  "record_surf_range root max_cost out =
     (if max_cost = 0 \<and> \<not> always_true out
      then (case extract_anchored_prefix_key root of
              Some (lo, hi) \<Rightarrow> out\<lparr> has_surf_range := True, surf_lo := lo, surf_hi := hi \<rparr>
            | None \<Rightarrow> out)
      else out)"

definition regex_extract_query :: "hashfn \<Rightarrow> int \<Rightarrow> int \<Rightarrow> RegexAst \<Rightarrow> int \<Rightarrow> TrigramQuery" where
  "regex_extract_query hf fanout max_char_len root max_cost =
     (if max_cost > 0
      then (case pg_tre_tile_query hf fanout max_char_len root max_cost tq_zero of
              (True, out) \<Rightarrow> out
            | (False, out) \<Rightarrow>
                out\<lparr> always_true := True, global_max_cost := max_cost, mode := TRIGRAM_QUERY_CNF \<rparr>)
      else (let lc = lin_append_node fanout root lin_init;
                pieces = (if flushes lc = 0 \<and> \<not> overflowed (acc lc)
                          then try_build_run_pieces hf (run lc) max_cost else None)
            in case pieces of
                 Some out \<Rightarrow> record_surf_range root max_cost out
               | None \<Rightarrow>
                   record_surf_range root max_cost
                     ((accum_to_query hf (run_emit fanout (run lc) (acc lc)) max_cost)
                        \<lparr> mode := TRIGRAM_QUERY_CNF \<rparr>)))"

section \<open>Which query is built\<close>

lemma record_surf_range_accepts [simp]:
  "tq_accepts (record_surf_range root max_cost q) H = tq_accepts q H"
  by (cases "mode q") (auto simp: record_surf_range_def tq_accepts_def split: option.splits)

lemma record_surf_range_mode [simp]: "mode (record_surf_range root max_cost q) = mode q"
  by (auto simp: record_surf_range_def split: option.splits)

lemma accum_to_query_mode [simp]: "mode (accum_to_query hf a max_cost) = TRIGRAM_QUERY_CNF"
  by (simp add: accum_to_query_def Let_def tq_zero_def)

lemma accum_to_query_cnf:
  "(accum_to_query hf a max_cost)\<lparr> mode := TRIGRAM_QUERY_CNF \<rparr> = accum_to_query hf a max_cost"
  by (simp add: accum_to_query_def Let_def tq_zero_def)

lemma exact_query_cases:
  assumes "max_cost \<le> 0"
  obtains (pieces) q where "try_build_run_pieces hf (snd (shape root)) max_cost = Some q"
      "\<not> fst (shape root)" "mode q = TRIGRAM_QUERY_PIECES"
      "regex_extract_query hf fanout mcl root max_cost = record_surf_range root max_cost q"
  | (cnf) "regex_extract_query hf fanout mcl root max_cost
      = record_surf_range root max_cost (cnf_query hf fanout root max_cost)"
proof -
  let ?lc = "lin_append_node fanout root lin_init"
  show ?thesis
  proof (cases "flushes ?lc = 0 \<and> \<not> overflowed (acc ?lc) \<and>
      (\<exists>q. try_build_run_pieces hf (run ?lc) max_cost = Some q)")
    case True
    then obtain q where q: "try_build_run_pieces hf (run ?lc) max_cost = Some q" by blast
    from True have ra: "run_after (shape root) lin_init ?lc" by (simp add: lin_append_node_shape)
    with True have nf: "\<not> fst (shape root)" by (simp add: run_after_def lin_init_def split: if_splits)
    with ra have "run ?lc = snd (shape root)" by (simp add: run_after_def lin_init_def)
    moreover have "mode q = TRIGRAM_QUERY_PIECES"
      using q by (auto simp: try_build_run_pieces_def tq_zero_def split: if_splits option.splits)
    ultimately show ?thesis
      using pieces[of q] q nf True assms by (simp add: regex_extract_query_def Let_def)
  next
    case False
    then have "(if flushes ?lc = 0 \<and> \<not> overflowed (acc ?lc)
        then try_build_run_pieces hf (run ?lc) max_cost else None) = None" by auto
    then show ?thesis
      using cnf assms by (simp add: regex_extract_query_def Let_def cnf_query_def accum_to_query_cnf)
  qed
qed

section \<open>The contract\<close>

text \<open>Exact patterns: no local budget, and exactly inlined repetitions if the query is in pieces.\<close>

lemma extract_exact_sound:
  assumes "exact_ast root" and "max_cost \<le> 0"
    and "mode (regex_extract_query hf fanout mcl root max_cost) = TRIGRAM_QUERY_PIECES \<Longrightarrow> rep_exact root"
    and "row_match root txt"
  shows "tq_accepts (regex_extract_query hf fanout mcl root max_cost) (text_hashes hf txt)"
  using assms(2)
proof (cases rule: exact_query_cases[of max_cost hf root fanout mcl])
  case (pieces q)
  from assms(4) obtain pre s suf where s: "txt = pre @ s @ suf" "rx_match root (pre = []) (suf = []) s"
    by (auto simp: row_match_def)
  have "rep_exact root" using assms(3) pieces(3,4) by simp
  from shape_posmatch[OF assms(1) this pieces(2) s(2)] have "posmatch (snd (shape root)) s" .
  with run_pieces_sound[OF _ pieces(1), of s "txt"] s(1) shape_nonempty[of _ root] pieces(4)
  show ?thesis by auto
next
  case cnf
  then show ?thesis using cnf_query_sound[OF assms(1,4)] by simp
qed

lemma extract_approx_sound:
  assumes "0 < max_cost" and "spine_chars root" and "approx_row_match root (nat max_cost) txt"
    and "mcl \<le> 1 \<Longrightarrow> \<forall>c \<in> set txt. 0 \<le> c \<and> c \<le> 255"
  shows "tq_accepts (regex_extract_query hf fanout mcl root max_cost) (text_hashes hf txt)"
proof -
  obtain ok q where q: "pg_tre_tile_query hf fanout mcl root max_cost tq_zero = (ok, q)" by fastforce
  show ?thesis
  proof (cases ok)
    case True
    with q tile_query_sound[of hf fanout mcl root max_cost tq_zero q "txt"] assms show ?thesis
      by (simp add: regex_extract_query_def)
  next
    case False
    with q assms(1) show ?thesis by (simp add: regex_extract_query_def tq_accepts_def)
  qed
qed

text \<open>The range comes from the prefix walk alone.\<close>

lemma tile_spine_surf: "has_surf_range (snd (pg_tre_tile_spine hf fanout mcl spine k out)) = has_surf_range out"
  by (auto simp: pg_tre_tile_spine_def give_up_def Let_def split: sum.splits)

lemma tile_query_surf: "has_surf_range (snd (pg_tre_tile_query hf fanout mcl root k out)) = has_surf_range out"
  by (auto simp: pg_tre_tile_query_def tile_pieces_def give_up_def tile_spine_surf split: option.splits)

lemma record_surf_range_key:
  assumes "has_surf_range (record_surf_range root max_cost q)" and "\<not> has_surf_range q"
  shows "max_cost = 0 \<and> extract_anchored_prefix_key root
    = Some (surf_lo (record_surf_range root max_cost q), surf_hi (record_surf_range root max_cost q))"
  using assms by (auto simp: record_surf_range_def split: if_splits option.splits)

lemma extract_surf_key:
  assumes "has_surf_range (regex_extract_query hf fanout mcl root max_cost)"
  shows "max_cost = 0 \<and> extract_anchored_prefix_key root
    = Some (surf_lo (regex_extract_query hf fanout mcl root max_cost),
            surf_hi (regex_extract_query hf fanout mcl root max_cost))"
proof (cases "max_cost > 0")
  case True
  then show ?thesis
    using assms tile_query_surf[of hf fanout mcl root max_cost tq_zero]
    by (auto simp: regex_extract_query_def tq_zero_def split: prod.splits bool.splits)
next
  case False
  then have "max_cost \<le> 0" by simp
  then show ?thesis
  proof (cases rule: exact_query_cases[of max_cost hf root fanout mcl])
    case (pieces q)
    then have "\<not> has_surf_range q"
      by (auto simp: try_build_run_pieces_def tq_zero_def split: if_splits option.splits)
    with assms pieces(4) record_surf_range_key show ?thesis by simp
  next
    case cnf
    have "\<not> has_surf_range (cnf_query hf fanout root max_cost)"
      by (simp add: cnf_query_def accum_to_query_def Let_def tq_zero_def)
    with assms cnf record_surf_range_key show ?thesis by simp
  qed
qed

lemma anchored_key_first:
  assumes "extract_anchored_prefix_key root = Some (lo, hi)"
    and "left_depth root \<le> PREFIX_STACK_MAX" and "row_match root txt"
  shows "\<exists>a b c rest. txt = a # b # c # rest \<and> lo = pg_tre_trigram_key_cp (a, b, c) \<and> hi = lo"
proof -
  from assms(1) have k: "prefix_walk (Some root) [] [] False = Some lo" and hi: "hi = lo"
    by (auto simp: extract_anchored_prefix_key_def split: option.splits)
  have "leaves_key (concat_leaves root) [] False = Some lo"
    using k prefix_walk_leaves[where n = "Some root" and st = "[]" and cps = "[]" and seen = False] assms(2) by simp
  moreover from assms(3) obtain pre s suf where s: "txt = pre @ s @ suf"
      "leaves_match (concat_leaves root) (pre = []) (suf = []) s"
    by (auto simp: row_match_def rx_match_leaves)
  ultimately have "pre = [] \<and> (\<exists>a b c r. s = a # b # c # r \<and> lo = pg_tre_trigram_key_cp (a, b, c))"
    using leaves_key_sound[of "concat_leaves root" "[]" False lo "pre = []" "suf = []" s "pre = []"] by simp
  with s(1) hi show ?thesis by auto
qed

end
