(* ===== verification/Query_Properties.thy ===== *)
theory Query_Properties
  imports Extract
begin

text \<open>
  What the query compiler guarantees, stated over \<open>regex_extract_query\<close> and its parts, and
  the patterns on which the code falls short of it.
\<close>

section \<open>A concrete hash for the examples\<close>

definition sample_hash :: hashfn where
  "sample_hash = \<lparr> murmurhash32 = (\<lambda>x. x), hash_combine = (\<lambda>h c. 256 * h + c) \<rparr>"

text \<open>ASCII trigrams, on which a hash without collisions tells trigrams apart.\<close>

definition ascii_trigrams :: "trigram set" where
  "ascii_trigrams = {(a, b, c). a \<in> {0..127} \<and> b \<in> {0..127} \<and> c \<in> {0..127}}"

lemma ascii_combine_inj:
  fixes u v :: uint32
  assumes "unat u < 2 ^ 20" and "unat v < 2 ^ 20" and "c \<in> {0..127}" and "c' \<in> {0..127}"
    and "256 * u + word_of_int c = 256 * v + word_of_int c'"
  shows "u = v \<and> c = (c' :: int)"
proof -
  have val: "unat (256 * w + word_of_int d :: uint32) = 256 * unat w + nat d"
    if "unat w < 2 ^ 20" "d \<in> {0..127}" for w :: uint32 and d :: int
  proof -
    have eq: "(256 * w + word_of_int d :: uint32) = word_of_nat (256 * unat w + nat d)" using that(2) by simp
    have "256 * unat w + nat d < 2 ^ 32" using that by auto
    then show ?thesis unfolding eq unat_of_nat by (simp add: mod_less)
  qed
  have "256 * unat u + nat c = 256 * unat v + nat c'"
    using assms(5) val[OF assms(1,3)] val[OF assms(2,4)] by metis
  moreover have "nat c < 256" "nat c' < 256" using assms(3,4) by auto
  ultimately have "unat u = unat v \<and> nat c = nat c'"
    by (metis add_left_cancel div_less div_mult_self3 add_cancel_left_right add.commute mult.commute numeral_neq_zero)
  then show ?thesis using assms(3,4) by (auto simp: word_unat_eq_iff)
qed

lemma sample_hash_inj: "inj_on (pg_tre_hash_trigram_cp sample_hash) ascii_trigrams"
proof (rule inj_onI)
  fix x y :: trigram
  obtain a b c a' b' c' where xy: "x = (a, b, c)" "y = (a', b', c')" by (cases x, cases y)
  assume "x \<in> ascii_trigrams" "y \<in> ascii_trigrams"
    and "pg_tre_hash_trigram_cp sample_hash x = pg_tre_hash_trigram_cp sample_hash y"
  then have t: "(a, b, c) \<in> ascii_trigrams" "(a', b', c') \<in> ascii_trigrams"
    and eq: "pg_tre_hash_trigram_cp sample_hash (a, b, c) = pg_tre_hash_trigram_cp sample_hash (a', b', c')"
    using xy by simp_all
  have small: "unat (word_of_int d :: uint32) < 128" if "d \<in> {0..127}" for d :: int
    using that by (auto simp: unsigned_of_int take_bit_int_eq_self)
  have low: "256 * (word_of_int a :: uint32) + word_of_int b = 256 * word_of_int a' + word_of_int b'"
    using arg_cong[OF eq, of "ucast :: uint64 \<Rightarrow> uint32"] unfolding hash_low_half by (simp add: sample_hash_def)
  have high: "256 * (256 * (word_of_int a :: uint32) + word_of_int b) + word_of_int c
      = 256 * (256 * word_of_int a' + word_of_int b') + word_of_int c'"
    using arg_cong[OF eq, of "\<lambda>h. ucast (drop_bit 32 h) :: uint32"] unfolding hash_high_half
    by (simp add: sample_hash_def)
  have ab: "(word_of_int a :: uint32) = word_of_int a' \<and> b = b'"
    using ascii_combine_inj[of "word_of_int a" "word_of_int a'" b b', OF _ _ _ _ low] small[of a] small[of a'] t
    by (simp add: ascii_trigrams_def)
  have "c = c'"
  proof (rule ccontr)
    assume "c \<noteq> c'"
    have "(word_of_int c :: uint32) = word_of_int c'" using high ab by simp
    then have "unat (word_of_int c :: uint32) = unat (word_of_int c' :: uint32)" by simp
    then show False using t \<open>c \<noteq> c'\<close> by (auto simp: ascii_trigrams_def unsigned_of_int take_bit_int_eq_self)
  qed
  moreover have "a = a'"
  proof -
    have "unat (word_of_int a :: uint32) = unat (word_of_int a' :: uint32)" using ab by simp
    then show ?thesis using t by (auto simp: ascii_trigrams_def unsigned_of_int take_bit_int_eq_self)
  qed
  ultimately show "x = y" using ab xy by simp
qed

text \<open>With such a hash a text has an ASCII trigram's hash only if it has the trigram.\<close>

lemma text_hashes_inj:
  assumes "inj_on (pg_tre_hash_trigram_cp hf) ascii_trigrams" and "t \<in> ascii_trigrams"
    and "set (windows3 txt) \<subseteq> ascii_trigrams"
  shows "pg_tre_hash_trigram_cp hf t \<in> text_hashes hf txt \<longleftrightarrow> t \<in> set (windows3 txt)"
  using inj_on_image_mem_iff[OF assms(1,2,3)] by (simp add: text_hashes_def)

lemmas rep_eval = lin_init_def accum_init_def run_append_cp_def run_append_class_def class_members_def CLASS_EXPAND_MAX_def
  rep_copies_def REP_INLINE_MAX_def try_build_run_pieces_def RUN_PIECES_MAX_def tq_zero_def run_piece_def
  record_surf_range_def extract_anchored_prefix_key_def eval_nat_numeral

section \<open>Exact patterns\<close>

lemma row_match_infix:
  assumes "rx_match root False False s"
  shows "row_match root (1 # s @ [1])"
  using assms unfolding row_match_def by (intro exI[of _ "[1]"] exI[of _ s]) simp

text \<open>
  C1: exact extraction loses no match. For a pattern without local budgets, whose
  repetitions are inlined exactly whenever the query comes out in pieces, the query accepts
  the trigrams of every row that matches the pattern, whatever the hash functions and the
  fan-out limit.
\<close>
theorem extract_exact_complete:
  assumes "exact_ast root" and "max_cost \<le> 0"
    and "mode (regex_extract_query hf fanout mcl root max_cost) = TRIGRAM_QUERY_PIECES \<longrightarrow> rep_exact root"
    and "row_match root txt"
  shows "tq_accepts (regex_extract_query hf fanout mcl root max_cost) (text_hashes hf txt)"
  using extract_exact_sound[OF assms(1,2) _ assms(4)] assms(3) by blast

definition sample_pattern :: RegexAst where
  "sample_pattern = CONCAT (CONCAT (LITERAL 97) (CLASS False [(98, 99)])) (REP (LITERAL 100) 2 2)"

lemma sample_pattern_match: "row_match sample_pattern (1 # [97, 98, 100, 100] @ [1])"
  by (rule row_match_infix) (simp add: sample_pattern_def rx_match_eval)

theorem extract_exact_complete_witness:
  "tq_accepts (regex_extract_query sample_hash 256 4 sample_pattern 0)
     (text_hashes sample_hash (1 # [97, 98, 100, 100] @ [1]))"
proof (rule extract_exact_complete)
  show "exact_ast sample_pattern" by (simp add: sample_pattern_def)
  show "mode (regex_extract_query sample_hash 256 4 sample_pattern 0) = TRIGRAM_QUERY_PIECES
      \<longrightarrow> rep_exact sample_pattern"
    by (simp add: sample_pattern_def rep_copies_def REP_INLINE_MAX_def)
qed (simp_all only: sample_pattern_match order_refl)

text \<open>
  C20: the side condition of exact extraction cannot be dropped: a repetition of a class is
  inlined only twice, and when the whole pattern is then expanded into pieces the query
  demands the two-fold text. The row \<open>xbcby\<close> matches \<open>x[bc]{3}y\<close> and is rejected by its
  query, for every hash without collisions on ASCII trigrams.
\<close>
theorem rep_pieces_lose_match:
  assumes "inj_on (pg_tre_hash_trigram_cp hf) ascii_trigrams"
  shows "row_match (CONCAT (LITERAL 120) (CONCAT (REP (CLASS False [(98, 99)]) 3 3) (LITERAL 121)))
      [120, 98, 99, 98, 121]
    \<and> \<not> tq_accepts (regex_extract_query hf 256 mcl
          (CONCAT (LITERAL 120) (CONCAT (REP (CLASS False [(98, 99)]) 3 3) (LITERAL 121))) 0)
        (text_hashes hf [120, 98, 99, 98, 121])"
proof
  let ?root = "CONCAT (LITERAL 120) (CONCAT (REP (CLASS False [(98, 99)]) 3 3) (LITERAL 121))"
  show "row_match ?root [120, 98, 99, 98, 121]"
    by (rule row_matchI[of _ "[]" "[]"]) (simp_all add: rx_match_eval)
  have "set (windows3 [120, 98, 99, 98, 121 :: int]) \<subseteq> ascii_trigrams" by (simp add: ascii_trigrams_def)
  note no = text_hashes_inj[OF assms _ this]
  have q: "conjuncts (regex_extract_query hf 256 mcl ?root 0) = map (map (tq_alt hf))
      [[(120, 98, 98), (98, 98, 121)], [(120, 99, 98), (99, 98, 121)],
       [(120, 98, 99), (98, 99, 121)], [(120, 99, 99), (99, 99, 121)]]"
    and m: "mode (regex_extract_query hf 256 mcl ?root 0) = TRIGRAM_QUERY_PIECES"
    and t: "\<not> always_true (regex_extract_query hf 256 mcl ?root 0)"
    by (simp_all add: regex_extract_query_def Let_def rep_eval)
  show "\<not> tq_accepts (regex_extract_query hf 256 mcl ?root 0) (text_hashes hf [120, 98, 99, 98, 121])"
    unfolding tq_accepts_def q m using t by (simp add: no ascii_trigrams_def)
qed

theorem rep_pieces_lose_match_witness:
  "\<not> tq_accepts (regex_extract_query sample_hash 256 4
        (CONCAT (LITERAL 120) (CONCAT (REP (CLASS False [(98, 99)]) 3 3) (LITERAL 121))) 0)
      (text_hashes sample_hash [120, 98, 99, 98, 121])"
  using rep_pieces_lose_match[OF sample_hash_inj] by blast

text \<open>
  C17: the exact pieces of a run are the concrete strings it stands for. When the run of
  positions is expanded, the pieces are, as a set, the trigram windows of exactly the
  strings that take one character from each position: none is missing, none is invented.
\<close>
theorem run_pieces_enumerate:
  assumes "\<forall>p \<in> set r. p \<noteq> []" and "try_build_run_pieces hf r max_cost = Some q"
  shows "set (conjuncts q) = {map (tq_alt hf) (windows3 w) | w. posmatch r w}"
  by (rule run_pieces_strings[OF assms])

theorem run_pieces_enumerate_witness:
  "set (run_pieces sample_hash [[97], [98, 99], [100]] 2 [0, 0, 0])
     = {map (tq_alt sample_hash) (windows3 w) | w. posmatch [[97], [98, 99], [100]] w}"
proof -
  have "try_build_run_pieces sample_hash [[97], [98, 99], [100]] 0
    = Some (tq_zero\<lparr> global_max_cost := 0, min_match_len := 3, always_true := False,
        mode := TRIGRAM_QUERY_PIECES, conjuncts := run_pieces sample_hash [[97], [98, 99], [100]] 2 [0, 0, 0] \<rparr>)"
    by (simp add: try_build_run_pieces_def RUN_PIECES_MAX_def eval_nat_numeral)
  from run_pieces_enumerate[OF _ this] show ?thesis by simp
qed

section \<open>Local budgets\<close>



section \<open>Approximate patterns\<close>

text \<open>
  C2: extraction with a global edit budget loses no match. For every positive budget, a row
  with a piece at most that many edits away from a match of the pattern is accepted by the
  query, provided the pattern's literals are characters and, in a single-byte database, the
  row holds bytes.
\<close>
theorem extract_approx_complete:
  assumes "0 < max_cost" and "spine_chars root" and "approx_row_match root (nat max_cost) txt"
    and "mcl \<le> 1 \<longrightarrow> (\<forall>c \<in> set txt. 0 \<le> c \<and> c \<le> 255)"
  shows "tq_accepts (regex_extract_query hf fanout mcl root max_cost) (text_hashes hf txt)"
  using extract_approx_sound[OF assms(1-3)] assms(4) by blast

definition sample_literals :: "int list \<Rightarrow> RegexAst \<Rightarrow> RegexAst" where
  "sample_literals cs a = fold (\<lambda>c a. CONCAT a (LITERAL c)) cs a"

lemma rx_match_literals:
  "rx_match a b (e \<and> cs = []) s \<Longrightarrow> rx_match (sample_literals cs a) b e (s @ cs)"
proof (induction cs arbitrary: a s)
  case (Cons c cs)
  have "rx_match (CONCAT a (LITERAL c)) b (e \<and> cs = []) (s @ [c])"
    using Cons.prems by (auto intro!: exI[of _ s])
  from Cons.IH[OF this] show ?case by (simp add: sample_literals_def)
qed (simp add: sample_literals_def)

theorem extract_approx_complete_witness:
  "tq_accepts (regex_extract_query sample_hash 256 4 (sample_literals [98, 99, 100, 101, 102] (LITERAL 97)) 1)
     (text_hashes sample_hash [97, 98, 120, 100, 101, 102])"
proof (rule extract_approx_complete)
  let ?root = "sample_literals [98, 99, 100, 101, 102] (LITERAL 97)"
  show "spine_chars ?root" by (simp add: sample_literals_def)
  have "rx_match ?root True True ([97] @ [98, 99, 100, 101, 102])" by (rule rx_match_literals) simp
  moreover have "lev 1 ([97] @ [98, 99, 100, 101, 102 :: int]) [97, 98, 120, 100, 101, 102]"
    unfolding One_nat_def append.simps by (intro lev_keep lev_subst lev_nil)
  ultimately show "approx_row_match ?root (nat 1) [97, 98, 120, 100, 101, 102]"
    by (intro approx_row_matchI[where pre = "[]" and suf = "[]"]) simp_all
qed simp_all

text \<open>
  The pigeonhole pieces of a literal text: a successful split for budget \<open>k\<close> yields
  exactly \<open>k + 1\<close> pieces, each with at least one trigram, so that \<open>k\<close> edits leave one of them
  whole. The budget is between 1 and 64.
\<close>
theorem tile_pieces_count:
  assumes "tile_pieces hf ast k out = Some q"
  shows "1 \<le> k \<and> k \<le> 64 \<and> int (length (conjuncts q)) = k + 1 \<and> (\<forall>c \<in> set (conjuncts q). c \<noteq> [])
    \<and> mode q = TRIGRAM_QUERY_PIECES \<and> \<not> always_true q"
proof -
  from assms obtain buf cuts where "1 \<le> k" "k \<le> 64" "length cuts = nat (k + 1)"
    "\<forall>(a, b) \<in> set cuts. a + 3 \<le> b"
    "q = out\<lparr> conjuncts := map (piece_alts hf buf) cuts, mode := TRIGRAM_QUERY_PIECES,
       always_true := False, global_max_cost := k, min_match_len := 3 \<rparr>"
    by (rule tile_pieces_cuts)
  then show ?thesis by (auto simp: piece_alts_def)
qed

theorem tile_pieces_count_witness:
  "\<exists>q. tile_pieces sample_hash (sample_literals [98, 99, 100, 101, 102] (LITERAL 97)) 1 tq_zero = Some q
     \<and> length (conjuncts q) = 2"
proof -
  obtain q where q: "tile_pieces sample_hash (sample_literals [98, 99, 100, 101, 102] (LITERAL 97)) 1 tq_zero = Some q"
    by (simp add: tile_pieces_def sample_literals_def LIN_CAP_def find_runs.simps run_end_def MAX_RUNS_def eval_nat_numeral)
  from tile_pieces_count[OF this] q show ?thesis by auto
qed

section \<open>The neighbourhood of a trigram\<close>

text \<open>
  C19: the radius-1 neighbourhood over bytes is exactly the trigrams reached by one
  substitution, by one insertion of a byte before or between the characters with the last
  one dropped, or by one deletion padded with a zero byte; it has no duplicates, and a
  buffer of 1537 entries always suffices.
\<close>
theorem uleven_k1_exact:
  "1537 \<le> max_out \<Longrightarrow> \<exists>ns. pg_tre_uleven_expand (t0, t1, t2) 1 max_out = Some ns \<and> distinct ns \<and>
     set ns = {(c, t1, t2) | c. True} \<union> {(t0, c, t2) | c. True} \<union> {(t0, t1, c) | c. True}
       \<union> {(t1, t2, 0), (t0, t2, 0), (t0, t1, 0)} \<union> {(c, t0, t1) | c. True} \<union> {(t0, c, t1) | c. True}"
  using uleven_expand_k1_total[of max_out "(t0, t1, t2)"] set_k1_entries[of t0 t1 t2]
  by (auto simp: pg_tre_uleven_expand_def uleven_expand_k1_def distinct_dedupe_trigrams
      length_k1_entries set_k1_entries)

theorem uleven_k1_exact_witness:
  "\<exists>ns. pg_tre_uleven_expand (97, 98, 99) 1 4096 = Some ns \<and> (98, 99, 0) \<in> set ns"
  using uleven_k1_exact[of 4096 97 98 99] by auto



section \<open>The anchored prefix\<close>

text \<open>
  C11: the key range of an anchored pattern is the key of the first three characters of
  every matching row, as long as no node of the pattern has more than 64 right siblings
  pending, the depth of the walk's stack.
\<close>
theorem surf_range_is_first_trigram:
  assumes "has_surf_range (regex_extract_query hf fanout mcl root max_cost)"
    and "left_depth root \<le> PREFIX_STACK_MAX" and "row_match root txt"
  shows "\<exists>a b c rest. txt = a # b # c # rest \<and>
    surf_lo (regex_extract_query hf fanout mcl root max_cost) = pg_tre_trigram_key_cp (a, b, c) \<and>
    surf_hi (regex_extract_query hf fanout mcl root max_cost) = pg_tre_trigram_key_cp (a, b, c)"
  using anchored_key_first[OF conjunct2[OF extract_surf_key[OF assms(1)]] assms(2,3)] by metis

definition sample_anchored :: RegexAst where
  "sample_anchored = sample_literals [97, 98, 99] (ANCHOR REGEX_ANCHOR_START)"

theorem surf_range_is_first_trigram_witness:
  "surf_lo (regex_extract_query sample_hash 256 4 sample_anchored 0) = pg_tre_trigram_key_cp (97, 98, 99)"
proof -
  have surf: "has_surf_range (regex_extract_query sample_hash 256 4 sample_anchored 0)"
    by (simp add: sample_anchored_def sample_literals_def regex_extract_query_def Let_def rep_eval run_emit_def
        emit_window_def accum_add_def accum_to_query_def PREFIX_STACK_MAX_def)
  have depth: "left_depth sample_anchored \<le> PREFIX_STACK_MAX"
    by (simp add: sample_anchored_def sample_literals_def PREFIX_STACK_MAX_def)
  have "rx_match sample_anchored True True ([] @ [97, 98, 99])"
    unfolding sample_anchored_def by (rule rx_match_literals) simp
  then have "row_match sample_anchored [97, 98, 99]" by (intro row_matchI[of _ "[]" "[]"]) simp_all
  from surf_range_is_first_trigram[OF surf depth this] show ?thesis by auto
qed

lemma windows3_replicate: "set (windows3 (replicate n z)) \<subseteq> {(z, z, z)}"
proof (induction n)
  case (Suc n)
  then show ?case by (cases n; cases "n - 1") auto
qed simp


section \<open>Keys and classes\<close>

text \<open>
  Trigram keys are ordered like the character triples they encode, lexicographically,
  for all characters below \<open>2 ^ 21\<close>; so distinct triples have distinct keys and the triples
  with a common prefix form a range of keys.
\<close>
theorem trigram_key_order:
  assumes "a \<in> cp_range" "b \<in> cp_range" "c \<in> cp_range" "a' \<in> cp_range" "b' \<in> cp_range" "c' \<in> cp_range"
  shows "pg_tre_trigram_key_cp (a, b, c) < pg_tre_trigram_key_cp (a', b', c') \<longleftrightarrow>
    a < a' \<or> a = a' \<and> (b < b' \<or> b = b' \<and> c < c')"
  by (rule trigram_key_less[OF assms])

theorem trigram_key_order_witness:
  "pg_tre_trigram_key_cp (97, 98, 1114111) < pg_tre_trigram_key_cp (97, 99, 0)"
  using trigram_key_order[of 97 98 1114111 97 99 0] by (simp add: cp_range_def)

text \<open>
  C18: normalising a character class keeps its members and leaves its ranges in increasing
  order with a gap between any two, for every list of non-empty ranges in any order,
  overlapping or not.
\<close>
theorem normalize_class_correct:
  assumes "\<forall>(lo, hi) \<in> set cs. lo \<le> hi"
  shows "ranges_sorted (normalize_class cs) \<and> (\<forall>c. class_mem (normalize_class cs) c = class_mem cs c)"
  using normalize_class_sorted[of cs] normalize_class_mem[of cs] assms by (simp add: ranges_ok_def)

theorem normalize_class_correct_witness:
  "normalize_class [(100, 105), (97, 99), (120, 122)] = [(97, 105), (120, 122)]
   \<and> ranges_sorted (normalize_class [(100, 105), (97, 99), (120, 122)])"
  using normalize_class_correct[of "[(100, 105), (97, 99), (120, 122)]"] by (simp add: normalize_class_def)

end
