(* ===== verification/Outcome.thy ===== *)
theory Outcome
  imports Prelude
begin

text \<open>
  Outcomes of the server-side code. A computation either does not return (\<open>None\<close>: a loop
  that runs forever), raises one of the errors below with \<open>ereport(ERROR, ...)\<close>
  (\<open>Some (Inl e)\<close>), or returns (\<open>Some (Inr a)\<close>). The binding operation is monotone, so
  loops over pages can be defined by \<open>partial_function\<close>.
\<close>

type_synonym BlockNumber = uint32

definition InvalidBlockNumber :: BlockNumber where
  "InvalidBlockNumber = 0xFFFFFFFF"

datatype pg_error =
    Page_unreadable BlockNumber
  | Meta_magic_mismatch uint32
  | Unknown_tid_packing uint32
  | Cannot_extend
  | Pending_batch_too_large nat
  | Merge_hash_table_full
  | Invalid_byte_sequence nat
  | Catalog_rewrite_exceeds_page nat
  | Tid_offset_beyond_page uint16
  | Unsupported_scan_strategy int
  | Unsupported_orderby_strategy int
  | Scan_requires_key
  | Getbitmap_without_rescan
  | Out_of_memory
  | Unexpected_page_kind BlockNumber
  | Coalesced_slot_out_of_range nat
  | Corrupt_coalesced_slot nat
  | Coalesced_blob_too_large nat
  | Corrupt_posting_leaf BlockNumber
  | Posting_chain_too_long BlockNumber
  | Posting_slice_exceeds_budget nat
  | Posting_leaf_over_budget nat
  | Posting_builder_too_large
  | Surf_image_too_small nat
  | Surf_bad_magic uint32
  | Surf_bad_version uint32
  | Surf_image_truncated nat
  | Surf_zero_total
  | Surf_chain_overflow
  | Surf_chain_short nat
  | Gettuple_without_rescan
  | Backward_scan
  | Match_timeout

type_synonym 'a outcome = "(pg_error + 'a) option"

definition ret :: "'a \<Rightarrow> 'a outcome" where
  "ret a = Some (Inr a)"

definition raise :: "pg_error \<Rightarrow> 'a outcome" where
  "raise e = Some (Inl e)"

definition andThen :: "'a outcome \<Rightarrow> ('a \<Rightarrow> 'b outcome) \<Rightarrow> 'b outcome" where
  "andThen m f = Option.bind m (case_sum raise f)"

lemma andThen_simps [simp]:
  "andThen (ret a) f = f a"
  "andThen (raise e) f = raise e"
  "andThen None f = None"
  by (simp_all add: andThen_def ret_def raise_def)

lemma ret_inject [simp]: "ret a = ret b \<longleftrightarrow> a = b"
  by (simp add: ret_def)

lemma ret_neq [simp]: "ret a \<noteq> raise e" "raise e \<noteq> ret a" "ret a \<noteq> None" "None \<noteq> ret a" "raise e \<noteq> None"
  by (simp_all add: ret_def raise_def)

lemma andThen_ret_iff: "andThen m f = ret b \<longleftrightarrow> (\<exists>a. m = ret a \<and> f a = ret b)"
  by (cases m) (auto simp: andThen_def ret_def raise_def split: sum.splits)

lemma andThen_mono [partial_function_mono]:
  assumes "mono_option B" and "\<And>y. mono_option (\<lambda>f. C y f)"
  shows "mono_option (\<lambda>f. andThen (B f) (\<lambda>y. C y f))"
  unfolding andThen_def
proof (rule bind_mono[OF assms(1)])
  fix y
  show "mono_option (\<lambda>f. case y of Inl e \<Rightarrow> raise e | Inr a \<Rightarrow> C a f)"
    using assms(2) by (cases y) (auto intro: option.const_mono)
qed

text \<open>A fold in which every step may fail.\<close>

primrec ofold :: "('a \<Rightarrow> 's \<Rightarrow> 's outcome) \<Rightarrow> 'a list \<Rightarrow> 's \<Rightarrow> 's outcome" where
  "ofold f [] s = ret s"
| "ofold f (x # xs) s = andThen (f x s) (ofold f xs)"

lemma ofold_ret:
  assumes "\<And>x s. x \<in> set xs \<Longrightarrow> f x s = ret (g x s)"
  shows "ofold f xs s = ret (fold g xs s)"
  using assms by (induction xs arbitrary: s) auto

lemma andThen_assoc: "andThen (andThen m f) g = andThen m (\<lambda>a. andThen (f a) g)"
  by (auto simp: andThen_def raise_def split: Option.bind_splits sum.splits)

lemma ofold_append: "ofold f (xs @ ys) s = andThen (ofold f xs s) (ofold f ys)"
proof (induction xs arbitrary: s)
  case (Cons x xs)
  then have "ofold f (xs @ ys) = (\<lambda>s. andThen (ofold f xs s) (ofold f ys))" by blast
  then show ?case by (simp add: andThen_assoc)
qed simp

end
