(* ===== verification/Tid_Packing.thy ===== *)
theory Tid_Packing
  imports Prelude
begin

text \<open>
  \<open>include/pg_tre/page.h\<close>: heap tuple identifiers packed into the 64-bit members of the
  posting sets, in the legacy and the dense layout. \<open>MaxHeapTuplesPerPage\<close> is the server's
  constant and an argument of the definitions; the theorems need only that it fits the
  16-bit offset, as it does for every page size.
\<close>

record ItemPointer =
  ip_blkid :: uint32
  ip_posid :: uint16

datatype PgTreTidPacking = PG_TRE_TID_LEGACY | PG_TRE_TID_DENSE

datatype tid_error = Tid_offset_exceeds uint16

definition PG_TRE_DENSE_STRIDE :: "nat \<Rightarrow> uint64" where
  "PG_TRE_DENSE_STRIDE max_tuples = word_of_nat max_tuples + 1"

definition pg_tre_pack_tid :: "nat \<Rightarrow> PgTreTidPacking \<Rightarrow> ItemPointer \<Rightarrow> tid_error + uint64" where
  "pg_tre_pack_tid max_tuples pk tid =
     (let blk = (ucast (ip_blkid tid) :: uint64); off = (ucast (ip_posid tid) :: uint64)
      in case pk of
           PG_TRE_TID_DENSE \<Rightarrow>
             if off \<ge> PG_TRE_DENSE_STRIDE max_tuples then Inl (Tid_offset_exceeds (ip_posid tid))
             else Inr (blk * PG_TRE_DENSE_STRIDE max_tuples + off)
         | PG_TRE_TID_LEGACY \<Rightarrow> Inr (push_bit 16 blk OR off))"

definition pg_tre_unpack_tid :: "nat \<Rightarrow> PgTreTidPacking \<Rightarrow> uint64 \<Rightarrow> ItemPointer" where
  "pg_tre_unpack_tid max_tuples pk packed =
     (case pk of
        PG_TRE_TID_DENSE \<Rightarrow>
          \<lparr> ip_blkid = ucast (packed div PG_TRE_DENSE_STRIDE max_tuples),
            ip_posid = ucast (packed mod PG_TRE_DENSE_STRIDE max_tuples) \<rparr>
      | PG_TRE_TID_LEGACY \<Rightarrow>
          \<lparr> ip_blkid = ucast (drop_bit 16 packed), ip_posid = ucast (packed AND 0xFFFF) \<rparr>)"

section \<open>Values\<close>

lemma unat_ucast64: "LENGTH('a::len) \<le> 64 \<Longrightarrow> unat (ucast (w :: 'a word) :: uint64) = unat w"
proof -
  assume "LENGTH('a) \<le> 64"
  then have "(2::nat) ^ LENGTH('a) \<le> 2 ^ 64" by (intro power_increasing) simp_all
  with unsigned_less[of w, where 'a = nat] have "unat w < 2 ^ 64" by linarith
  then show ?thesis by (simp add: unsigned_ucast_eq take_bit_nat_eq_self)
qed

lemma ucast_of_nat64:
  "n < 2 ^ LENGTH('a::len) \<Longrightarrow> LENGTH('a) \<le> 64 \<Longrightarrow> unat (w :: uint64) = n \<Longrightarrow> (ucast w :: 'a word) = word_of_nat n"
  by (simp add: word_unat_eq_iff unsigned_ucast_eq take_bit_nat_eq_self unsigned_of_nat)

lemma unat_stride: "max_tuples < 65535 \<Longrightarrow> unat (PG_TRE_DENSE_STRIDE max_tuples) = max_tuples + 1"
proof -
  assume m: "max_tuples < 65535"
  have "PG_TRE_DENSE_STRIDE max_tuples = word_of_nat (max_tuples + 1)"
    by (simp add: PG_TRE_DENSE_STRIDE_def)
  then show ?thesis using m by (simp only: unsigned_of_nat) (simp add: take_bit_nat_eq_self)
qed

lemma unat_mult_add64:
  fixes a s f :: uint64
  assumes "unat a * unat s + unat f < 2 ^ 64"
  shows "unat (a * s + f) = unat a * unat s + unat f"
proof -
  have "unat (a * s) = unat a * unat s"
    using assms by (intro unat_mult_lem[THEN iffD1]) simp
  then show ?thesis using assms unat_add_lem[of "a * s" f] by simp
qed

text \<open>A packed value is \<open>block * stride + offset\<close>, the stride being 65536 in the legacy layout.\<close>

definition tid_stride :: "nat \<Rightarrow> PgTreTidPacking \<Rightarrow> nat" where
  "tid_stride max_tuples pk = (case pk of PG_TRE_TID_DENSE \<Rightarrow> max_tuples + 1 | PG_TRE_TID_LEGACY \<Rightarrow> 65536)"

lemma tid_bounds: "unat (ip_blkid tid) < 2 ^ 32" "unat (ip_posid tid) < 2 ^ 16"
  using unsigned_less[of "ip_blkid tid", where 'a = nat] unsigned_less[of "ip_posid tid", where 'a = nat]
  by simp_all

lemma packed_fits:
  assumes "s \<le> 65536"
  shows "unat (ip_blkid tid) * s + unat (ip_posid tid) < 2 ^ 64"
proof -
  have "unat (ip_blkid tid) * s \<le> 2 ^ 32 * 65536"
    using tid_bounds(1)[of tid] assms by (intro mult_le_mono) simp_all
  with tid_bounds(2)[of tid] show ?thesis by simp
qed

lemma pack_word:
  "pg_tre_pack_tid max_tuples pk tid = Inr p \<Longrightarrow>
     p = ucast (ip_blkid tid) * (case pk of PG_TRE_TID_DENSE \<Rightarrow> PG_TRE_DENSE_STRIDE max_tuples
           | PG_TRE_TID_LEGACY \<Rightarrow> 65536) + ucast (ip_posid tid)"
proof (cases pk)
  case PG_TRE_TID_LEGACY
  have "push_bit 16 (ucast (ip_blkid tid)) + (ucast (ip_posid tid) :: uint64)
      = push_bit 16 (ucast (ip_blkid tid)) OR ucast (ip_posid tid)"
    by (rule disjunctive_add) (auto simp: bit_simps dest: bit_imp_le_length)
  then show "pg_tre_pack_tid max_tuples pk tid = Inr p \<Longrightarrow> ?thesis"
    using PG_TRE_TID_LEGACY by (auto simp: pg_tre_pack_tid_def Let_def push_bit_eq_mult)
qed (auto simp: pg_tre_pack_tid_def Let_def split: if_splits)

lemma pack_value:
  assumes "max_tuples < 65535" and "pg_tre_pack_tid max_tuples pk tid = Inr p"
  shows "unat p = unat (ip_blkid tid) * tid_stride max_tuples pk + unat (ip_posid tid)"
    and "unat (ip_posid tid) < tid_stride max_tuples pk"
proof -
  have st: "unat (case pk of PG_TRE_TID_DENSE \<Rightarrow> PG_TRE_DENSE_STRIDE max_tuples
           | PG_TRE_TID_LEGACY \<Rightarrow> 65536) = tid_stride max_tuples pk"
    using unat_stride[OF assms(1)] by (cases pk) (simp_all add: tid_stride_def)
  have le: "tid_stride max_tuples pk \<le> 65536" using assms(1) by (cases pk) (simp_all add: tid_stride_def)
  show "unat p = unat (ip_blkid tid) * tid_stride max_tuples pk + unat (ip_posid tid)"
    unfolding pack_word[OF assms(2)]
    using unat_mult_add64[of "ucast (ip_blkid tid)" _ "ucast (ip_posid tid)"] packed_fits[OF le, of tid]
    by (simp add: unat_ucast64 st)
  show "unat (ip_posid tid) < tid_stride max_tuples pk"
  proof (cases pk)
    case PG_TRE_TID_DENSE
    with assms(2) have "\<not> PG_TRE_DENSE_STRIDE max_tuples \<le> ucast (ip_posid tid)"
      by (auto simp: pg_tre_pack_tid_def Let_def split: if_splits)
    then show ?thesis
      using PG_TRE_TID_DENSE unat_stride[OF assms(1)]
      by (simp add: tid_stride_def word_le_nat_alt unat_ucast64)
  qed (use tid_bounds(2)[of tid] in \<open>simp add: tid_stride_def\<close>)
qed

lemma ucast_conv_nat: "(ucast w :: 'b::len word) = word_of_nat (unat w)"
  by (simp add: word_unat_eq_iff unsigned_ucast_eq unsigned_of_nat)

lemma unpack_value:
  assumes "max_tuples < 65535"
  shows "pg_tre_unpack_tid max_tuples pk p =
    \<lparr> ip_blkid = word_of_nat (unat p div tid_stride max_tuples pk),
      ip_posid = word_of_nat (unat p mod tid_stride max_tuples pk) \<rparr>"
proof (cases pk)
  case PG_TRE_TID_DENSE
  then show ?thesis
    by (simp add: pg_tre_unpack_tid_def tid_stride_def ucast_conv_nat unat_div unat_mod unat_stride[OF assms])
next
  case PG_TRE_TID_LEGACY
  have "p AND 0xFFFF = p mod 65536"
    using take_bit_eq_mask[of 16 p] take_bit_eq_mod[of 16 p] by (simp add: mask_eq_exp_minus_1)
  then have "(ucast (p AND 0xFFFF) :: uint16) = word_of_nat (unat p mod 65536)"
    by (simp only: ucast_conv_nat unat_mod) simp
  moreover have "(ucast (drop_bit 16 p) :: uint32) = word_of_nat (unat p div 65536)"
    by (simp only: ucast_conv_nat drop_bit_eq_div unat_div) simp
  ultimately show ?thesis using PG_TRE_TID_LEGACY
    by (simp only: pg_tre_unpack_tid_def tid_stride_def PgTreTidPacking.case)
qed

lemma pack_unpack:
  assumes "max_tuples < 65535" and "pg_tre_pack_tid max_tuples pk tid = Inr p"
  shows "pg_tre_unpack_tid max_tuples pk p = tid"
proof -
  have "unat p div tid_stride max_tuples pk = unat (ip_blkid tid)"
       "unat p mod tid_stride max_tuples pk = unat (ip_posid tid)"
    using pack_value[OF assms] by (simp_all add: div_mult_self3)
  then show ?thesis by (simp add: unpack_value[OF assms(1)])
qed

text \<open>Packed order is block order, then offset order.\<close>

lemma pack_less_iff:
  assumes "max_tuples < 65535"
    and "pg_tre_pack_tid max_tuples pk t = Inr p" and "pg_tre_pack_tid max_tuples pk u = Inr q"
  shows "p < q \<longleftrightarrow> ip_blkid t < ip_blkid u \<or> ip_blkid t = ip_blkid u \<and> ip_posid t < ip_posid u"
proof -
  let ?s = "tid_stride max_tuples pk"
  note p = pack_value[OF assms(1,2)] and q = pack_value[OF assms(1,3)]
  have lt: "b * ?s + f < b' * ?s + f'" if "b < b'" "f < ?s" for b b' f f'
  proof -
    have "b * ?s + f < Suc b * ?s" using that(2) by simp
    also have "\<dots> \<le> b' * ?s" using that(1) by (intro mult_le_mono1) simp
    finally show ?thesis by simp
  qed
  consider "unat (ip_blkid t) < unat (ip_blkid u)" | "unat (ip_blkid t) = unat (ip_blkid u)"
    | "unat (ip_blkid u) < unat (ip_blkid t)" by linarith
  then show ?thesis
  proof cases
    case 1
    with lt[OF 1 p(2), of "unat (ip_posid u)"] show ?thesis by (simp add: word_less_nat_alt p(1) q(1))
  next
    case 2
    then show ?thesis by (simp add: word_less_nat_alt p(1) q(1)) (simp add: word_unat_eq_iff)
  next
    case 3
    with lt[OF 3 q(2), of "unat (ip_posid t)"] show ?thesis
      by (auto simp add: word_less_nat_alt p(1) q(1))
  qed
qed

text \<open>An offset the heap can hold never raises the error.\<close>

lemma pack_defined:
  assumes "max_tuples < 65535" and "unat (ip_posid tid) \<le> max_tuples"
  shows "\<exists>p. pg_tre_pack_tid max_tuples pk tid = Inr p"
  using assms unat_stride[OF assms(1)]
  by (cases pk) (auto simp: pg_tre_pack_tid_def Let_def word_le_nat_alt unat_ucast64)

end
