(* ===== verification/Index_Pages.thy ===== *)
theory Index_Pages
  imports Outcome Tid_Packing
begin

text \<open>
  The pages of an index that the server-side code shares (\<open>include/pg_tre/page.h\<close>) and the
  reader and writers of the meta page (\<open>src/pages/meta.c\<close>).

  An index is its meta page and, per page kind, a map from block numbers to pages. A page is
  its header and its array; the array may hold stale elements past the header's count, as the
  block does. Reading a block that holds no page of the expected kind is the error of
  \<open>pg_tre_read\<close>. Locks, buffers and WAL registration are not modelled: an operation that
  holds the meta page exclusively and emits one WAL record is one atomic change.
\<close>

section \<open>Runs\<close>

record PgTreRun =
  run_id :: uint64
  level :: uint32
  flags :: uint32
  run_root_upper :: BlockNumber
  run_root_range :: BlockNumber
  n_tuples :: uint64
  run_n_trigrams :: uint64
  min_trigram_hash :: uint64
  max_trigram_hash :: uint64

record PgTreRunCatalogPage =
  right_link :: BlockNumber
  n_entries :: nat
  runs :: "PgTreRun list"

definition PG_TRE_RUN_LIVE :: uint32 where
  "PG_TRE_RUN_LIVE = 1"

section \<open>Pending entries\<close>

record PgTrePendingEntry =
  entry_hash :: uint64
  entry_tid :: uint64
  position :: uint32

record PgTrePendingPage =
  next_page :: BlockNumber
  pend_n :: nat
  used_bytes :: nat
  pend_entries :: "PgTrePendingEntry list"

section \<open>The meta page\<close>

record PgTreMetaPageData =
  magic :: uint32
  format_version :: uint32
  q_size :: uint32
  tri_encoding :: uint32
  bloom_range_m_bits :: uint32
  bloom_range_k :: uint16
  bloom_tuple_m_bits :: uint16
  bloom_tuple_k :: uint8
  root_upper :: BlockNumber
  root_range :: BlockNumber
  pending_head :: BlockNumber
  pending_tail :: BlockNumber
  pending_n_entries :: uint64
  stats_blk :: BlockNumber
  n_trigrams :: uint64
  n_tuples_indexed :: uint64
  created_xid :: uint32
  min_page_format_version :: uint32
  next_run_id :: uint64
  run_catalog_head :: BlockNumber
  n_runs :: uint32
  max_levels :: uint32
  free_log_head :: BlockNumber
  root_surf :: BlockNumber
  surf_n_keys :: uint32
  tid_packing :: uint32
  surf_complete :: uint32

section \<open>Pages of the trees\<close>

record PgTreUpperInternalEntry =
  first_key :: uint64
  child_blk :: BlockNumber

record PgTreUpperLeafEntry =
  leaf_hash :: uint64
  posting_root :: BlockNumber
  inline_bytes :: uint32

text \<open>
  A leaf of the upper tree: the array of entries, whose length the page's \<open>flags\<close> record, and
  the inline blobs packed behind it without any separator.
\<close>

record upper_leaf =
  leaf_entries :: "PgTreUpperLeafEntry list"
  leaf_inline :: "uint8 list"

text \<open>\<open>sparsemap_bytes\<close> of the header is the length of \<open>sparsemap_data\<close>.\<close>

record PgTrePostingLeaf =
  post_right :: BlockNumber
  post_min_tid :: uint64
  post_max_tid :: uint64
  sparsemap_data :: "uint8 list"
  payload_bytes :: nat
  payload_offset :: nat
  post_n :: uint16
  post_deleted :: bool

record PgTreCoalescedSlot =
  sm_offset :: uint16
  sm_length :: uint16
  slot_payload_offset :: uint16
  slot_payload_length :: uint16
  slot_hash :: uint64

text \<open>A coalesced page: its header, its slot table and its bytes by their offset from the page start.\<close>

record coalesced_page =
  n_slots :: uint16
  free_offset :: uint16
  slot_table :: "PgTreCoalescedSlot list"
  page_bytes :: "nat \<Rightarrow> uint8"

text \<open>A page of the range filter's chain; \<open>chunk_bytes\<close> of the header is the length of \<open>surf_chunk\<close>.\<close>

record PgTreSurfHeader =
  surf_next :: BlockNumber
  surf_chunk :: "uint8 list"
  surf_total :: uint32

datatype tree_page =
    Upper_internal "PgTreUpperInternalEntry list"
  | Upper_leaf upper_leaf
  | Posting_leaf PgTrePostingLeaf
  | Coalesced coalesced_page
  | Surf_page PgTreSurfHeader

section \<open>The index\<close>

record tre_index =
  meta_page :: PgTreMetaPageData
  catalog_pages :: "BlockNumber \<Rightarrow> PgTreRunCatalogPage option"
  pending_pages :: "BlockNumber \<Rightarrow> PgTrePendingPage option"
  tree_pages :: "BlockNumber \<Rightarrow> tree_page option"

text \<open>
  \<open>src/pages/buffer.c\<close>: which block an extension returns is the server's choice (its free space
  map or the end of the file), so the blocks it will hand out come as a list.
\<close>

definition pg_tre_extend :: "BlockNumber list \<Rightarrow> (BlockNumber \<times> BlockNumber list) outcome" where
  "pg_tre_extend blocks = (case blocks of [] \<Rightarrow> raise Cannot_extend | b # bs \<Rightarrow> ret (b, bs))"

definition read_tree_page :: "tre_index \<Rightarrow> BlockNumber \<Rightarrow> tree_page outcome" where
  "read_tree_page idx b = (case tree_pages idx b of None \<Rightarrow> raise (Page_unreadable b) | Some p \<Rightarrow> ret p)"

definition put_tree_page :: "BlockNumber \<Rightarrow> tree_page \<Rightarrow> tre_index \<Rightarrow> tre_index" where
  "put_tree_page b p idx = idx\<lparr> tree_pages := (tree_pages idx)(b \<mapsto> p) \<rparr>"

definition PG_TRE_META_MAGIC :: uint32 where
  "PG_TRE_META_MAGIC = 0x50545245"

definition PG_TRE_FORMAT_VERSION_LATEST :: uint32 where
  "PG_TRE_FORMAT_VERSION_LATEST = 11"

definition PG_TRE_BLOOM_TUPLE_BITS :: uint32 where
  "PG_TRE_BLOOM_TUPLE_BITS = 128"

text \<open>The packing as the meta page stores it.\<close>

definition packing_code :: "PgTreTidPacking \<Rightarrow> uint32" where
  "packing_code pk = (case pk of PG_TRE_TID_LEGACY \<Rightarrow> 0 | PG_TRE_TID_DENSE \<Rightarrow> 1)"

definition pg_tre_meta_init :: "uint32 \<Rightarrow> PgTreMetaPageData" where
  "pg_tre_meta_init xid =
     \<lparr> magic = PG_TRE_META_MAGIC, format_version = PG_TRE_FORMAT_VERSION_LATEST, q_size = 3, tri_encoding = 0,
       bloom_range_m_bits = PG_TRE_BLOOM_TUPLE_BITS * 16, bloom_range_k = 7,
       bloom_tuple_m_bits = ucast PG_TRE_BLOOM_TUPLE_BITS, bloom_tuple_k = 5,
       root_upper = InvalidBlockNumber, root_range = InvalidBlockNumber,
       pending_head = InvalidBlockNumber, pending_tail = InvalidBlockNumber, pending_n_entries = 0,
       stats_blk = InvalidBlockNumber, n_trigrams = 0, n_tuples_indexed = 0, created_xid = xid,
       min_page_format_version = PG_TRE_FORMAT_VERSION_LATEST,
       next_run_id = 1, run_catalog_head = InvalidBlockNumber, n_runs = 0, max_levels = 7,
       free_log_head = InvalidBlockNumber, root_surf = InvalidBlockNumber, surf_n_keys = 0,
       tid_packing = packing_code PG_TRE_TID_LEGACY, surf_complete = 0 \<rparr>"

text \<open>
  The run fields of a meta page written before runs existed, as both \<open>pg_tre_meta_read\<close> and
  \<open>pg_tre_run_catalog_append\<close> normalise them; the reader normalises three more fields.
\<close>

definition normalize_runs :: "PgTreMetaPageData \<Rightarrow> PgTreMetaPageData" where
  "normalize_runs m =
     (let m1 = (if n_runs m = 0 \<and> run_catalog_head m = 0 then m\<lparr> run_catalog_head := InvalidBlockNumber \<rparr> else m);
          m2 = (if max_levels m1 = 0 then m1\<lparr> max_levels := 7 \<rparr> else m1)
      in if next_run_id m2 = 0 then m2\<lparr> next_run_id := 1 \<rparr> else m2)"

definition normalize_meta :: "PgTreMetaPageData \<Rightarrow> PgTreMetaPageData" where
  "normalize_meta m =
     (let m1 = (if min_page_format_version m = 0 then m\<lparr> min_page_format_version := format_version m \<rparr> else m);
          m2 = normalize_runs m1;
          m3 = (if free_log_head m2 = 0 then m2\<lparr> free_log_head := InvalidBlockNumber \<rparr> else m2)
      in if root_surf m3 = 0 then m3\<lparr> root_surf := InvalidBlockNumber \<rparr> else m3)"

definition pg_tre_meta_read :: "tre_index \<Rightarrow> PgTreMetaPageData outcome" where
  "pg_tre_meta_read idx =
     (let m = meta_page idx
      in if magic m \<noteq> PG_TRE_META_MAGIC then raise (Meta_magic_mismatch (magic m))
         else ret (normalize_meta m))"

text \<open>\<open>cached\<close> is the packing in the relation's cache, if it has been read before.\<close>

definition pg_tre_tid_packing :: "PgTreTidPacking option \<Rightarrow> tre_index \<Rightarrow> PgTreTidPacking outcome" where
  "pg_tre_tid_packing cached idx =
     (case cached of
        Some pk \<Rightarrow> ret pk
      | None \<Rightarrow>
          if magic (meta_page idx) \<noteq> PG_TRE_META_MAGIC then raise (Meta_magic_mismatch (magic (meta_page idx)))
          else if tid_packing (meta_page idx) = packing_code PG_TRE_TID_LEGACY then ret PG_TRE_TID_LEGACY
          else if tid_packing (meta_page idx) = packing_code PG_TRE_TID_DENSE then ret PG_TRE_TID_DENSE
          else raise (Unknown_tid_packing (tid_packing (meta_page idx))))"

definition packing_for_new_index :: "bool \<Rightarrow> bool \<Rightarrow> PgTreTidPacking" where
  "packing_for_new_index build_legacy_tids is_heap =
     (if build_legacy_tids then PG_TRE_TID_LEGACY
      else if is_heap then PG_TRE_TID_DENSE else PG_TRE_TID_LEGACY)"

definition pg_tre_build_empty :: "uint32 \<Rightarrow> bool \<Rightarrow> bool \<Rightarrow> tre_index" where
  "pg_tre_build_empty xid build_legacy_tids is_heap =
     \<lparr> meta_page = (pg_tre_meta_init xid)\<lparr> tid_packing := packing_code (packing_for_new_index build_legacy_tids is_heap) \<rparr>,
       catalog_pages = (\<lambda>b. None), pending_pages = (\<lambda>b. None), tree_pages = (\<lambda>b. None) \<rparr>"

definition pg_tre_meta_set_roots :: "tre_index \<Rightarrow> BlockNumber \<Rightarrow> BlockNumber \<Rightarrow> uint64 \<Rightarrow> uint64 \<Rightarrow> tre_index" where
  "pg_tre_meta_set_roots idx upper rng ntri ntup =
     idx\<lparr> meta_page := (meta_page idx)\<lparr> root_upper := upper, root_range := rng, n_trigrams := ntri,
            n_tuples_indexed := ntup \<rparr> \<rparr>"

definition pg_tre_meta_set_surf :: "tre_index \<Rightarrow> BlockNumber \<Rightarrow> uint32 \<Rightarrow> tre_index" where
  "pg_tre_meta_set_surf idx surf n =
     idx\<lparr> meta_page := (meta_page idx)\<lparr> root_surf := surf, surf_n_keys := n,
            surf_complete := (if surf \<noteq> InvalidBlockNumber then 1 else 0) \<rparr> \<rparr>"

section \<open>Facts about the reader\<close>

lemma invalid_nonzero [simp]: "InvalidBlockNumber \<noteq> 0"
  by (simp add: InvalidBlockNumber_def)

lemma normalize_runs_other [simp]:
  "magic (normalize_runs m) = magic m" "n_runs (normalize_runs m) = n_runs m"
  "pending_head (normalize_runs m) = pending_head m" "pending_tail (normalize_runs m) = pending_tail m"
  "pending_n_entries (normalize_runs m) = pending_n_entries m" "root_upper (normalize_runs m) = root_upper m"
  "root_range (normalize_runs m) = root_range m" "n_trigrams (normalize_runs m) = n_trigrams m"
  "n_tuples_indexed (normalize_runs m) = n_tuples_indexed m" "surf_complete (normalize_runs m) = surf_complete m"
  "root_surf (normalize_runs m) = root_surf m" "tid_packing (normalize_runs m) = tid_packing m"
  by (simp_all add: normalize_runs_def Let_def)

lemma normalize_runs_indep [simp]:
  "normalize_runs (m\<lparr> min_page_format_version := v \<rparr>) = (normalize_runs m)\<lparr> min_page_format_version := v \<rparr>"
  by (simp add: normalize_runs_def Let_def)

lemma normalize_meta_fields [simp]:
  "n_runs (normalize_meta m) = n_runs m"
  "pending_head (normalize_meta m) = pending_head m" "pending_tail (normalize_meta m) = pending_tail m"
  "pending_n_entries (normalize_meta m) = pending_n_entries m" "root_upper (normalize_meta m) = root_upper m"
  "root_range (normalize_meta m) = root_range m" "n_trigrams (normalize_meta m) = n_trigrams m"
  "n_tuples_indexed (normalize_meta m) = n_tuples_indexed m" "surf_complete (normalize_meta m) = surf_complete m"
  "tid_packing (normalize_meta m) = tid_packing m"
  "run_catalog_head (normalize_meta m) = run_catalog_head (normalize_runs m)"
  "next_run_id (normalize_meta m) = next_run_id (normalize_runs m)"
  "root_surf (normalize_meta m) = (if root_surf m = 0 then InvalidBlockNumber else root_surf m)"
  by (simp_all add: normalize_meta_def Let_def)

lemma meta_read_ret:
  "magic (meta_page idx) = PG_TRE_META_MAGIC \<Longrightarrow> pg_tre_meta_read idx = ret (normalize_meta (meta_page idx))"
  by (simp add: pg_tre_meta_read_def Let_def)

section \<open>Growing the trees\<close>

text \<open>The blocks to be handed out are distinct, valid and hold no page yet.\<close>

definition blocks_ok :: "BlockNumber list \<Rightarrow> tre_index \<Rightarrow> bool" where
  "blocks_ok blocks idx \<longleftrightarrow> distinct blocks \<and> InvalidBlockNumber \<notin> set blocks \<and> set blocks \<inter> dom (tree_pages idx) = {}"

lemma put_fresh:
  assumes "blocks_ok (b # bs) idx"
  shows "blocks_ok bs (put_tree_page b p idx)" and "tree_pages idx \<subseteq>\<^sub>m tree_pages (put_tree_page b p idx)"
    and "tree_pages (put_tree_page b p idx) b = Some p" and "b \<noteq> InvalidBlockNumber"
    and "meta_page (put_tree_page b p idx) = meta_page idx"
  using assms by (auto simp: blocks_ok_def put_tree_page_def map_le_def)

text \<open>Every page of the trees is kept, and nothing but the trees changes.\<close>

definition grown_tree :: "tre_index \<Rightarrow> tre_index \<Rightarrow> bool" where
  "grown_tree idx idx' \<longleftrightarrow> tree_pages idx \<subseteq>\<^sub>m tree_pages idx' \<and> idx' = idx\<lparr> tree_pages := tree_pages idx' \<rparr>"

lemma grown_tree_refl [simp]: "grown_tree idx idx"
  by (simp add: grown_tree_def)

lemma grown_tree_trans: "grown_tree a b \<Longrightarrow> grown_tree b c \<Longrightarrow> grown_tree a c"
  unfolding grown_tree_def
proof (intro conjI; elim conjE)
  assume b: "b = a\<lparr> tree_pages := tree_pages b \<rparr>" and c: "c = b\<lparr> tree_pages := tree_pages c \<rparr>"
  show "c = a\<lparr> tree_pages := tree_pages c \<rparr>" by (subst c, subst b) simp
qed (rule map_le_trans)

lemma grown_put: "blocks_ok (b # bs) idx \<Longrightarrow> grown_tree idx (put_tree_page b p idx)"
  using put_fresh(2)[of b bs idx p] by (simp add: grown_tree_def) (simp add: put_tree_page_def)

lemma map_leD: "m \<subseteq>\<^sub>m m' \<Longrightarrow> m a = Some y \<Longrightarrow> m' a = Some y"
  by (metis domI map_le_def)

end
