(* ===== verification/Coalesced.thy ===== *)
theory Coalesced
  imports Index_Pages
begin

text \<open>
  \<open>src/pages/coalesced.c\<close>: pages that pack the postings of several trigrams. The slot table grows
  up from the page header, the blobs grow down from the opaque trailer; sizes are computed in
  the 64-bit unsigned \<open>Size\<close>. \<open>blcksz\<close> is the server's block size.
\<close>

definition PG_TRE_COALESCED_HASH_ANY :: uint64 where
  "PG_TRE_COALESCED_HASH_ANY = 0xFFFFFFFFFFFFFFFF"

text \<open>Page header 24 bytes, header of the coalesced page 8, opaque trailer 8, slot 16.\<close>

definition pg_tre_coalesced_budget :: "nat \<Rightarrow> nat" where
  "pg_tre_coalesced_budget blcksz = blcksz - 24 - 8 - 8"

definition pg_tre_coalesce_max :: "nat \<Rightarrow> nat" where
  "pg_tre_coalesce_max blcksz = (pg_tre_coalesced_budget blcksz div 2 - 16) div 8 * 8"

definition COALESCED_MAX_SLOTS :: "nat \<Rightarrow> nat" where
  "COALESCED_MAX_SLOTS blcksz = pg_tre_coalesced_budget blcksz div 16"

definition content_start :: nat where
  "content_start = 24 + 8"

section \<open>The writer\<close>

text \<open>The page being filled, with its block; it reaches the index when it is flushed.\<close>

record PgTreCoalescedWriter =
  open_buf :: "(BlockNumber \<times> coalesced_page) option"

definition pg_tre_coalesced_writer_begin :: PgTreCoalescedWriter where
  "pg_tre_coalesced_writer_begin = \<lparr> open_buf = None \<rparr>"

definition slot_footprint :: "nat \<Rightarrow> nat \<Rightarrow> nat" where
  "slot_footprint sm_len payload_len = 16 + MAXALIGN sm_len + (if payload_len > 0 then MAXALIGN payload_len else 0)"

definition empty_coalesced :: "nat \<Rightarrow> coalesced_page" where
  "empty_coalesced blcksz =
     \<lparr> n_slots = 0, free_offset = word_of_nat (blcksz - 8), slot_table = [], page_bytes = (\<lambda>i. 0) \<rparr>"

definition open_page :: "nat \<Rightarrow> BlockNumber list \<Rightarrow> ((BlockNumber \<times> coalesced_page) \<times> BlockNumber list) outcome" where
  "open_page blcksz blocks = andThen (pg_tre_extend blocks) (\<lambda>(b, blocks'). ret ((b, empty_coalesced blcksz), blocks'))"

definition flush_page :: "PgTreCoalescedWriter \<Rightarrow> tre_index \<Rightarrow> tre_index" where
  "flush_page w idx =
     (case open_buf w of
        None \<Rightarrow> idx
      | Some (b, p) \<Rightarrow> idx\<lparr> tree_pages := (tree_pages idx)(b \<mapsto> Coalesced p) \<rparr>)"

text \<open>Where the bitmap and the whole blob of an entry start, below \<open>lim\<close>; the subtractions wrap around.\<close>

definition carve :: "uint64 \<Rightarrow> nat \<Rightarrow> nat \<Rightarrow> uint64 \<times> uint64" where
  "carve lim sm_len payload_len =
     (let sm_lo = (lim - word_of_nat sm_len) AND NOT 7
      in (sm_lo, if payload_len > 0 then (sm_lo - word_of_nat payload_len) AND NOT 7 else sm_lo))"

definition write_bytes :: "nat \<Rightarrow> uint8 list \<Rightarrow> (nat \<Rightarrow> uint8) \<Rightarrow> nat \<Rightarrow> uint8" where
  "write_bytes at ds bs = (\<lambda>i. if at \<le> i \<and> i < at + length ds then ds ! (i - at) else bs i)"

text \<open>The copy of the blobs and the slot of an entry, at the places that were carved.\<close>

definition fill_slot :: "uint64 \<Rightarrow> uint8 list \<Rightarrow> uint8 list \<Rightarrow> uint64 \<times> uint64 \<Rightarrow> coalesced_page \<Rightarrow> coalesced_page" where
  "fill_slot h sm_data payload = (\<lambda>(sm_lo, blob_lo) p.
     p\<lparr> page_bytes := (let bs = write_bytes (unat sm_lo) sm_data (page_bytes p)
                      in if payload \<noteq> [] then write_bytes (unat blob_lo) payload bs else bs),
        free_offset := ucast blob_lo,
        slot_table := slot_table p @ [\<lparr> sm_offset = ucast sm_lo, sm_length = word_of_nat (length sm_data),
          slot_payload_offset = (if payload \<noteq> [] then ucast blob_lo else 0),
          slot_payload_length = word_of_nat (length payload), slot_hash = h \<rparr>],
        n_slots := n_slots p + 1 \<rparr>)"

definition pg_tre_coalesced_add :: "nat \<Rightarrow> uint64 \<Rightarrow> uint8 list \<Rightarrow> uint8 list
    \<Rightarrow> PgTreCoalescedWriter \<times> tre_index \<times> BlockNumber list
    \<Rightarrow> ((BlockNumber \<times> uint16) \<times> PgTreCoalescedWriter \<times> tre_index \<times> BlockNumber list) outcome" where
  "pg_tre_coalesced_add blcksz h sm_data payload = (\<lambda>(w, idx, blocks).
     if length sm_data = 0 \<or> length sm_data > 65535 \<or> length payload > 65535
     then raise (Coalesced_blob_too_large (length sm_data))
     else if slot_footprint (length sm_data) (length payload) > pg_tre_coalesced_budget blcksz
     then raise (Coalesced_blob_too_large (slot_footprint (length sm_data) (length payload)))
     else
       andThen (case open_buf w of None \<Rightarrow> open_page blcksz blocks | Some bp \<Rightarrow> ret (bp, blocks)) (\<lambda>((b, p), blocks1).
         let table_end = content_start + (unat (n_slots p) + 1) * 16;
             lim = ucast (free_offset p);
             at = carve lim (length sm_data) (length payload)
         in andThen
              (if unat (snd at) < table_end \<or> snd at > lim \<or> unat (n_slots p) \<ge> COALESCED_MAX_SLOTS blcksz
               then andThen (open_page blcksz blocks1) (\<lambda>((b2, p2), blocks2).
                      ret (b2, p2, carve (ucast (free_offset p2)) (length sm_data) (length payload),
                           flush_page \<lparr> open_buf = Some (b, p) \<rparr> idx, blocks2))
               else ret (b, p, at, idx, blocks1))
              (\<lambda>(b', p', at', idx', blocks').
                ret ((b', n_slots p'), \<lparr> open_buf = Some (b', fill_slot h sm_data payload at' p') \<rparr>, idx', blocks'))))"

definition pg_tre_coalesced_writer_finish :: "PgTreCoalescedWriter \<Rightarrow> tre_index \<Rightarrow> tre_index" where
  "pg_tre_coalesced_writer_finish w idx = flush_page w idx"

section \<open>The reader\<close>

definition slot_within_page :: "nat \<Rightarrow> PgTreCoalescedSlot \<Rightarrow> bool" where
  "slot_within_page blcksz s \<longleftrightarrow>
     (let usable_end = blcksz - 8
      in \<not> (unat (sm_offset s) < content_start \<or> unat (sm_offset s) > usable_end)
         \<and> \<not> unat (sm_length s) > usable_end - unat (sm_offset s)
         \<and> (slot_payload_offset s \<noteq> 0 \<longrightarrow>
              \<not> (unat (slot_payload_offset s) < content_start \<or> unat (slot_payload_offset s) > usable_end)
              \<and> \<not> unat (slot_payload_length s) > usable_end - unat (slot_payload_offset s)))"

definition read_coalesced :: "tre_index \<Rightarrow> BlockNumber \<Rightarrow> coalesced_page outcome" where
  "read_coalesced idx b = andThen (read_tree_page idx b) (\<lambda>p. case p of Coalesced c \<Rightarrow> ret c | _ \<Rightarrow> raise (Unexpected_page_kind b))"

definition pg_tre_coalesced_resolve_slot :: "nat \<Rightarrow> tre_index \<Rightarrow> BlockNumber \<Rightarrow> uint16 \<Rightarrow> uint64 \<Rightarrow> uint8 list option outcome" where
  "pg_tre_coalesced_resolve_slot blcksz idx blk slot_idx h =
     andThen (read_coalesced idx blk) (\<lambda>p.
       if slot_idx \<ge> n_slots p then raise (Coalesced_slot_out_of_range (unat slot_idx))
       else
         let slot = slot_table p ! unat slot_idx
         in if sm_offset slot = 0 then ret None
            else if (slot_hash slot \<noteq> h \<or> \<not> slot_within_page blcksz slot)
                    \<and> (\<not> (h = PG_TRE_COALESCED_HASH_ANY \<or> slot_hash slot = h) \<or> \<not> slot_within_page blcksz slot)
            then raise (Corrupt_coalesced_slot (unat slot_idx))
            else ret (Some (map (page_bytes p) [unat (sm_offset slot)..<unat (sm_offset slot) + unat (sm_length slot)])))"

section \<open>Facts\<close>

subsection \<open>Carving\<close>

lemma unat_align_down: "unat ((w :: uint64) AND NOT 7) = unat w div 8 * 8"
proof -
  have "w AND NOT 7 = push_bit 3 (drop_bit 3 w)"
    by (rule bit_word_eqI) (auto simp: bit_simps bit_not_iff bit_and_iff bit_push_bit_iff bit_drop_bit_eq
        mask_eq_exp_minus_1 [of 3, where ?'a = "64 word", simplified, symmetric] bit_mask_iff)
  then have sum: "(w AND NOT 7) + take_bit 3 w = w" by (simp add: bits_ident)
  have t: "unat (take_bit 3 w) = unat w mod 8" by (simp only: unsigned_take_bit_eq) (simp add: take_bit_eq_mod)
  have eq: "w AND NOT 7 = w - take_bit 3 w" using sum by (simp add: algebra_simps)
  have "take_bit 3 w \<le> w" using t by (simp add: word_le_nat_alt)
  then have "unat (w AND NOT 7) = unat w - unat w mod 8" unfolding eq by (simp add: unat_sub t)
  then show ?thesis by (simp add: minus_mod_eq_div_mult)
qed

lemma unat_of_nat64: "n < 2 ^ 64 \<Longrightarrow> unat (word_of_nat n :: uint64) = n"
  by (simp add: unat_of_nat take_bit_nat_eq_self)

text \<open>Without a wrap-around the carved offset is the aligned one; with one it lies above every page.\<close>

lemma align_sub:
  fixes a :: uint64
  assumes "len < 2 ^ 32" and "r = (a - word_of_nat len) AND NOT 7"
  shows "len \<le> unat a \<and> unat r + len \<le> unat a \<and> unat r = (unat a - len) div 8 * 8 \<or> unat a < len \<and> 2 ^ 63 \<le> unat r"
proof (cases "len \<le> unat a")
  case True
  have u: "unat (word_of_nat len :: uint64) = len" using assms(1) by (simp add: unat_of_nat64)
  have "unat r = (unat a - len) div 8 * 8"
    unfolding assms(2) unat_align_down using True by (subst unat_sub) (simp_all add: word_le_nat_alt u)
  then show ?thesis using True by (metis add.commute div_times_less_eq_dividend le_diff_conv2)
next
  case False
  then have lt: "unat a < len" by simp
  have e: "a - word_of_nat len = word_of_nat (2 ^ 64 - (len - unat a))"
    using lt assms(1) by (simp add: of_nat_diff)
  have "unat (a - word_of_nat len) = 2 ^ 64 - (len - unat a)"
    unfolding e by (rule unat_of_nat64) (use lt in simp)
  then have "2 ^ 63 \<le> unat r" unfolding assms(2) unat_align_down using assms(1) by simp
  then show ?thesis using lt by simp
qed

text \<open>A carving that is not rejected lies between the table and the old blobs.\<close>

lemma carve_bounds:
  assumes "carve lim sm_len payload_len = (sm_lo, blob_lo)" and "unat lim < 2 ^ 16" and "sm_len < 2 ^ 16" and "payload_len < 2 ^ 16"
    and "blob_lo \<le> lim"
  shows "unat blob_lo \<le> unat sm_lo" and "unat sm_lo + sm_len \<le> unat lim"
    and "payload_len > 0 \<Longrightarrow> unat blob_lo + payload_len \<le> unat sm_lo"
proof -
  have sm: "sm_lo = (lim - word_of_nat sm_len) AND NOT 7" using assms(1) by (simp add: carve_def Let_def)
  have small: "unat blob_lo < 2 ^ 16" using assms(2,5) by (simp add: word_le_nat_alt)
  have bl: "blob_lo = (if payload_len > 0 then (sm_lo - word_of_nat payload_len) AND NOT 7 else sm_lo)"
    using assms(1) sm by (simp add: carve_def Let_def split: if_splits)
  have below: "payload_len \<le> unat sm_lo \<and> unat blob_lo + payload_len \<le> unat sm_lo" if "payload_len > 0"
    using align_sub[of payload_len blob_lo sm_lo] that bl small assms(4) by auto
  have "\<not> 2 ^ 63 \<le> unat sm_lo"
  proof
    assume big: "2 ^ 63 \<le> unat sm_lo"
    then have "2 ^ 62 \<le> unat blob_lo" using align_sub[of payload_len blob_lo sm_lo] bl assms(4) by (cases "payload_len > 0") auto
    then show False using small by simp
  qed
  then show "unat sm_lo + sm_len \<le> unat lim" using align_sub[OF _ sm] assms(3) by auto
  show "unat blob_lo \<le> unat sm_lo" using below bl by (cases "payload_len > 0") auto
  show "payload_len > 0 \<Longrightarrow> unat blob_lo + payload_len \<le> unat sm_lo" using below by simp
qed

subsection \<open>What a page holds\<close>

definition blcksz_ok :: "nat \<Rightarrow> bool" where
  "blcksz_ok blcksz \<longleftrightarrow> 8 dvd blcksz \<and> 1024 \<le> blcksz \<and> blcksz \<le> 32768"

lemma blcksz_bounds: "blcksz_ok blcksz \<Longrightarrow> 1024 \<le> blcksz" "blcksz_ok blcksz \<Longrightarrow> blcksz \<le> 32768"
  by (simp_all add: blcksz_ok_def)

text \<open>Slot \<open>s\<close> is the posting \<open>d\<close> of the trigram \<open>h\<close>, stored between the low edge of the blobs and the trailer.\<close>

definition slot_holds :: "nat \<Rightarrow> coalesced_page \<Rightarrow> PgTreCoalescedSlot \<Rightarrow> uint64 \<times> uint8 list \<Rightarrow> bool" where
  "slot_holds blcksz p s e \<longleftrightarrow> slot_hash s = fst e \<and> unat (sm_length s) = length (snd e)
     \<and> unat (free_offset p) \<le> unat (sm_offset s) \<and> unat (sm_offset s) + length (snd e) \<le> blcksz - 8
     \<and> slot_within_page blcksz s
     \<and> map (page_bytes p) [unat (sm_offset s)..<unat (sm_offset s) + length (snd e)] = snd e"

definition page_holds :: "nat \<Rightarrow> coalesced_page \<Rightarrow> (uint64 \<times> uint8 list) list \<Rightarrow> bool" where
  "page_holds blcksz p ents \<longleftrightarrow> unat (n_slots p) = length ents \<and> length (slot_table p) = length ents
     \<and> content_start + 16 * length ents \<le> unat (free_offset p) \<and> unat (free_offset p) \<le> blcksz - 8
     \<and> (\<forall>i < length ents. slot_holds blcksz p (slot_table p ! i) (ents ! i))"

lemma unat_ucast16: "unat (w :: uint64) < 2 ^ 16 \<Longrightarrow> unat (ucast w :: uint16) = unat w"
  by (simp add: unsigned_ucast_eq take_bit_nat_eq_self)

lemma unat_ucast16_up: "unat (ucast (w :: uint16) :: uint64) = unat w"
proof -
  have "unat w < 2 ^ 16" using unsigned_less[of w, where 'a = nat] by simp
  then show ?thesis by (simp add: unsigned_ucast_eq take_bit_nat_eq_self)
qed

lemma unat_of_nat16: "n < 2 ^ 16 \<Longrightarrow> unat (word_of_nat n :: uint16) = n"
  by (simp add: unat_of_nat take_bit_nat_eq_self)

lemma empty_free: "blcksz_ok blcksz \<Longrightarrow> unat (free_offset (empty_coalesced blcksz)) = blcksz - 8"
  unfolding empty_coalesced_def coalesced_page.simps by (rule unat_of_nat16) (use blcksz_bounds in force)

lemma empty_holds: "blcksz_ok blcksz \<Longrightarrow> page_holds blcksz (empty_coalesced blcksz) []"
  using empty_free[of blcksz] blcksz_bounds(1)[of blcksz] by (simp add: page_holds_def content_start_def) (simp add: empty_coalesced_def)

lemma map_write_same: "map (write_bytes at ds bs) [at..<at + length ds] = ds"
  by (rule nth_equalityI) (simp_all add: write_bytes_def)

lemma map_write_other:
  assumes "hi \<le> at \<or> at + length ds \<le> lo"
  shows "map (write_bytes at ds bs) [lo..<hi] = map bs [lo..<hi]"
  using assms by (auto simp: write_bytes_def)

lemma fill_holds:
  assumes "blcksz_ok blcksz" and "page_holds blcksz p ents" and "carve (ucast (free_offset p)) (length d) (length payload) = (sm_lo, blob_lo)"
    and "0 < length d" and "length d < 2 ^ 16" and "length payload < 2 ^ 16"
    and "content_start + (length ents + 1) * 16 \<le> unat blob_lo" and "blob_lo \<le> ucast (free_offset p)"
  shows "page_holds blcksz (fill_slot h d payload (sm_lo, blob_lo) p) (ents @ [(h, d)])"
proof -
  let ?p = "fill_slot h d payload (sm_lo, blob_lo) p"
  let ?f = "unat (free_offset p)"
  have f: "?f \<le> blcksz - 8" "unat (n_slots p) = length ents" "length (slot_table p) = length ents" using assms(2) by (simp_all add: page_holds_def)
  have fl: "?f < 2 ^ 16" using unsigned_less[of "free_offset p", where 'a = nat] by simp
  note cb = carve_bounds[OF assms(3) _ assms(5,6,8), unfolded unat_ucast16_up, OF fl]
  have b16: "unat blob_lo < 2 ^ 16" "unat sm_lo < 2 ^ 16" "unat blob_lo \<le> ?f" using cb fl by linarith+
  have nsl: "unat (n_slots p + 1) = length ents + 1"
  proof -
    have "length ents + 1 < 2 ^ 16" using assms(7) b16(1) by (simp add: content_start_def)
    from unat_of_nat16[OF this] show ?thesis unfolding f(2)[symmetric] by (simp add: add.commute)
  qed
  have old: "map (page_bytes ?p) [lo..<hi] = map (page_bytes p) [lo..<hi]" if "?f \<le> lo" for lo hi
    using that cb by (cases "payload = []") (simp_all add: fill_slot_def Let_def map_write_other)
  have new: "map (page_bytes ?p) [unat sm_lo..<unat sm_lo + length d] = d"
    using cb(3) by (cases "payload = []") (simp_all add: fill_slot_def Let_def map_write_same map_write_other)
  have within: "slot_within_page blcksz (last (slot_table ?p))"
    using cb b16 f(1) assms(5,6,7) by (auto simp: fill_slot_def slot_within_page_def Let_def content_start_def unat_ucast16 unat_of_nat16)
  have "slot_holds blcksz ?p (slot_table ?p ! i) ((ents @ [(h, d)]) ! i)" if "i < length (ents @ [(h, d)])" for i
  proof (cases "i < length ents")
    case True
    then have "slot_holds blcksz p (slot_table p ! i) (ents ! i)" using assms(2) by (simp add: page_holds_def)
    moreover have "free_offset ?p = ucast blob_lo" by (simp add: fill_slot_def)
    ultimately have "slot_holds blcksz ?p (slot_table p ! i) (ents ! i)"
      using b16(3,1) unfolding slot_holds_def by (simp only: old unat_ucast16) simp
    then show ?thesis using True f(3) by (simp add: fill_slot_def nth_append)
  next
    case False
    then have i: "i = length ents" using that by simp
    have "slot_table ?p ! i = last (slot_table ?p)" using i f(3) by (simp add: fill_slot_def nth_append)
    moreover have "slot_holds blcksz ?p (last (slot_table ?p)) (h, d)"
      using within new b16 cb(1,2) f(1) assms(5) unfolding slot_holds_def by (auto simp: fill_slot_def unat_ucast16 unat_of_nat16)
    ultimately show ?thesis using i by (simp add: nth_append)
  qed
  then show ?thesis
    using nsl f assms(7) b16 by (auto simp: page_holds_def fill_slot_def unat_ucast16)
qed

text \<open>An entry within the budget always fits an empty page.\<close>

lemma aligned_sub: "8 dvd t \<Longrightarrow> t - MAXALIGN n \<le> (t - n) div 8 * 8" for t n :: nat
proof -
  assume "8 dvd t"
  then obtain k where t: "t = 8 * k" ..
  define m where "m = (n + 7) div 8"
  have "8 * (k - m) \<le> 8 * k - n" using MAXALIGN_ge[of n] unfolding MAXALIGN_def m_def by linarith
  then have "8 * (k - m) div 8 \<le> (8 * k - n) div 8" by (rule div_le_mono)
  then show ?thesis unfolding t MAXALIGN_def m_def[symmetric] by simp
qed

lemma empty_fits:
  assumes "blcksz_ok blcksz" and "slot_footprint (length d) (length payload) \<le> pg_tre_coalesced_budget blcksz"
    and "0 < length d" and "length d < 2 ^ 16" and "length payload < 2 ^ 16"
    and "carve (ucast (free_offset (empty_coalesced blcksz))) (length d) (length payload) = (sm_lo, blob_lo)"
  shows "content_start + 16 \<le> unat blob_lo" and "blob_lo \<le> ucast (free_offset (empty_coalesced blcksz))"
proof -
  let ?lim = "ucast (free_offset (empty_coalesced blcksz)) :: uint64"
  have lim: "unat ?lim = blcksz - 8" using empty_free[OF assms(1)] by (simp add: unat_ucast16_up)
  have al: "8 dvd blcksz - 8" using assms(1) by (simp add: blcksz_ok_def)
  have room: "MAXALIGN (length d) + (if 0 < length payload then MAXALIGN (length payload) else 0) + 48 \<le> blcksz - 8"
    using assms(2) blcksz_bounds(1)[OF assms(1)] by (simp add: slot_footprint_def pg_tre_coalesced_budget_def)
  have sm: "sm_lo = (?lim - word_of_nat (length d)) AND NOT 7" using assms(6) by (simp add: carve_def Let_def)
  have "length d \<le> unat ?lim" using room MAXALIGN_ge[of "length d"] lim by linarith
  then have sv: "unat sm_lo = (blcksz - 8 - length d) div 8 * 8" "unat sm_lo \<le> blcksz - 8"
    using align_sub[OF _ sm] assms(4) lim by auto
  have low: "blcksz - 8 - MAXALIGN (length d) \<le> unat sm_lo" unfolding sv(1) by (rule aligned_sub[OF al])
  have "content_start + 16 \<le> unat blob_lo \<and> unat blob_lo \<le> blcksz - 8"
  proof (cases "0 < length payload")
    case False
    then have "blob_lo = sm_lo" using assms(6) unfolding carve_def Let_def by auto
    then show ?thesis using False low room sv(2) by (simp add: content_start_def)
  next
    case True
    have le: "length payload \<le> unat sm_lo" using True room low MAXALIGN_ge[of "length payload"] by simp
    have bl: "blob_lo = (sm_lo - word_of_nat (length payload)) AND NOT 7" using True assms(6) sm by (simp add: carve_def Let_def)
    then have "unat blob_lo = (unat sm_lo - length payload) div 8 * 8" using align_sub[OF _ bl] assms(5) le by auto
    moreover have "8 dvd unat sm_lo" by (simp add: sv(1))
    ultimately have "unat sm_lo - MAXALIGN (length payload) \<le> unat blob_lo" using aligned_sub by simp
    moreover have "unat blob_lo \<le> unat sm_lo" unfolding \<open>unat blob_lo = _\<close> by (metis diff_le_self div_times_less_eq_dividend le_trans)
    moreover have "MAXALIGN (length d) + MAXALIGN (length payload) + 48 \<le> blcksz - 8" using True room by simp
    ultimately show ?thesis using low sv(2) unfolding content_start_def by linarith
  qed
  then show "content_start + 16 \<le> unat blob_lo" "blob_lo \<le> ?lim" using lim by (auto simp: word_le_nat_alt)
qed

subsection \<open>The writer and the reader\<close>

text \<open>The entry that \<open>pg_tre_coalesced_add\<close> reported is on its page.\<close>

definition slot_at :: "nat \<Rightarrow> tre_index \<Rightarrow> BlockNumber \<times> uint16 \<Rightarrow> uint64 \<times> uint8 list \<Rightarrow> bool" where
  "slot_at blcksz idx at e \<longleftrightarrow> (\<exists>p ents. tree_pages idx (fst at) = Some (Coalesced p) \<and> page_holds blcksz p ents
     \<and> unat (snd at) < length ents \<and> ents ! unat (snd at) = e)"

lemma resolve_slot_at:
  assumes "slot_at blcksz idx (b, s) (h, d)" and "k = h \<or> k = PG_TRE_COALESCED_HASH_ANY"
  shows "pg_tre_coalesced_resolve_slot blcksz idx b s k = ret (Some d)"
proof -
  from assms(1) obtain p ents where p: "tree_pages idx b = Some (Coalesced p)" "page_holds blcksz p ents" "unat s < length ents" "ents ! unat s = (h, d)"
    by (auto simp: slot_at_def)
  then have sh: "slot_holds blcksz p (slot_table p ! unat s) (h, d)" and n: "unat s < unat (n_slots p)" by (auto simp: page_holds_def)
  have "unat (sm_offset (slot_table p ! unat s)) \<noteq> 0" using sh p(2) by (auto simp: slot_holds_def page_holds_def content_start_def)
  then have "sm_offset (slot_table p ! unat s) \<noteq> 0" by auto
  moreover have "\<not> n_slots p \<le> s" using n by (simp add: word_le_nat_alt)
  ultimately show ?thesis using sh p(1) assms(2)
    by (auto simp: pg_tre_coalesced_resolve_slot_def read_coalesced_def read_tree_page_def slot_holds_def)
qed

text \<open>
  The state of a writer: \<open>hist\<close> lists where each posting was put; all of them can be read once
  the open page is flushed, and blocks still to be handed out hold none of them.
\<close>

definition writer_inv :: "nat \<Rightarrow> ((BlockNumber \<times> uint16) \<times> (uint64 \<times> uint8 list)) list
    \<Rightarrow> PgTreCoalescedWriter \<times> tre_index \<times> BlockNumber list \<Rightarrow> bool" where
  "writer_inv blcksz hist = (\<lambda>(w, idx, blocks). distinct blocks
     \<and> (\<forall>b p. open_buf w = Some (b, p) \<longrightarrow> b \<notin> set blocks \<and> (\<exists>ents. page_holds blcksz p ents))
     \<and> (\<forall>(at, e) \<in> set hist. fst at \<notin> set blocks \<and> slot_at blcksz (flush_page w idx) at e))"

lemma flush_open: "flush_page \<lparr> open_buf = Some (b, p) \<rparr> idx = idx\<lparr> tree_pages := (tree_pages idx)(b \<mapsto> Coalesced p) \<rparr>"
  by (simp add: flush_page_def)

text \<open>Filling the open page keeps what was written and adds the new entry.\<close>

lemma fill_open:
  assumes "blcksz_ok blcksz" and "page_holds blcksz p ents" and "carve (ucast (free_offset p)) (length d) (length payload) = (sm_lo, blob_lo)"
    and "0 < length d" and "length d < 2 ^ 16" and "length payload < 2 ^ 16"
    and "content_start + (unat (n_slots p) + 1) * 16 \<le> unat blob_lo" and "blob_lo \<le> ucast (free_offset p)"
    and "w' = \<lparr> open_buf = Some (b, fill_slot h d payload (sm_lo, blob_lo) p) \<rparr>"
  shows "slot_at blcksz (flush_page w' idx) (b, n_slots p) (h, d)"
    and "slot_at blcksz (flush_page \<lparr> open_buf = Some (b, p) \<rparr> idx) at e \<Longrightarrow> slot_at blcksz (flush_page w' idx) at e"
    and "\<exists>es. page_holds blcksz (fill_slot h d payload (sm_lo, blob_lo) p) es"
proof -
  let ?p = "fill_slot h d payload (sm_lo, blob_lo) p"
  have fh: "page_holds blcksz ?p (es @ [(h, d)])" if "page_holds blcksz p es" for es
    using fill_holds[OF assms(1) that assms(3-6) _ assms(8)] assms(7) that by (simp add: page_holds_def)
  have n: "unat (n_slots p) = length ents" using assms(2) by (simp add: page_holds_def)
  show "slot_at blcksz (flush_page w' idx) (b, n_slots p) (h, d)"
    using fh[OF assms(2)] n unfolding slot_at_def assms(9) flush_open by fastforce
  show "\<exists>es. page_holds blcksz ?p es" using fh[OF assms(2)] by blast
  assume "slot_at blcksz (flush_page \<lparr> open_buf = Some (b, p) \<rparr> idx) at e"
  then obtain q es where q: "((tree_pages idx)(b \<mapsto> Coalesced p)) (fst at) = Some (Coalesced q)" "page_holds blcksz q es"
      "unat (snd at) < length es" "es ! unat (snd at) = e"
    unfolding slot_at_def flush_open by auto
  show "slot_at blcksz (flush_page w' idx) at e"
  proof (cases "fst at = b")
    case True
    then have "q = p" using q(1) by simp
    then show ?thesis using fh[of es] q True unfolding slot_at_def assms(9) flush_open by (fastforce simp: nth_append)
  next
    case False
    then show ?thesis using q unfolding slot_at_def assms(9) flush_open by auto
  qed
qed

text \<open>What an addition does, by whether the open page takes the entry.\<close>

definition add_result :: "nat \<Rightarrow> uint64 \<Rightarrow> uint8 list \<Rightarrow> uint8 list \<Rightarrow> BlockNumber \<Rightarrow> coalesced_page \<Rightarrow> tre_index \<Rightarrow> BlockNumber list
    \<Rightarrow> ((BlockNumber \<times> uint16) \<times> PgTreCoalescedWriter \<times> tre_index \<times> BlockNumber list)" where
  "add_result blcksz h d payload b p idx blocks =
     ((b, n_slots p), \<lparr> open_buf = Some (b, fill_slot h d payload (carve (ucast (free_offset p)) (length d) (length payload)) p) \<rparr>, idx, blocks)"

definition page_takes :: "nat \<Rightarrow> uint8 list \<Rightarrow> uint8 list \<Rightarrow> coalesced_page \<Rightarrow> bool" where
  "page_takes blcksz d payload p \<longleftrightarrow> (let at = carve (ucast (free_offset p)) (length d) (length payload)
     in \<not> (unat (snd at) < content_start + (unat (n_slots p) + 1) * 16 \<or> snd at > ucast (free_offset p)
            \<or> unat (n_slots p) \<ge> COALESCED_MAX_SLOTS blcksz))"

definition slot_entry_ok :: "nat \<Rightarrow> uint8 list \<Rightarrow> uint8 list \<Rightarrow> bool" where
  "slot_entry_ok blcksz d payload \<longleftrightarrow> 0 < length d \<and> length d < 2 ^ 16 \<and> length payload < 2 ^ 16
     \<and> slot_footprint (length d) (length payload) \<le> pg_tre_coalesced_budget blcksz"

lemma empty_takes:
  assumes "blcksz_ok blcksz" and "slot_entry_ok blcksz d payload"
  shows "page_takes blcksz d payload (empty_coalesced blcksz)"
proof -
  obtain sm_lo blob_lo where c: "carve (ucast (free_offset (empty_coalesced blcksz))) (length d) (length payload) = (sm_lo, blob_lo)"
    by (cases "carve (ucast (free_offset (empty_coalesced blcksz))) (length d) (length payload)")
  have "0 < COALESCED_MAX_SLOTS blcksz"
    using blcksz_bounds(1)[OF assms(1)] by (simp add: COALESCED_MAX_SLOTS_def pg_tre_coalesced_budget_def div_greater_zero_iff)
  moreover have "n_slots (empty_coalesced blcksz) = 0" by (simp add: empty_coalesced_def)
  ultimately show ?thesis using empty_fits[OF assms(1) _ _ _ _ c] assms(2) c
    by (simp add: page_takes_def slot_entry_ok_def not_less Let_def)
qed

lemma add_cases:
  assumes "blcksz_ok blcksz" and "slot_entry_ok blcksz d payload" and "blocks = b1 # bs"
  shows "pg_tre_coalesced_add blcksz h d payload (w, idx, blocks) = ret
    (case open_buf w of
       None \<Rightarrow> add_result blcksz h d payload b1 (empty_coalesced blcksz) idx bs
     | Some (b, p) \<Rightarrow>
         if page_takes blcksz d payload p then add_result blcksz h d payload b p idx blocks
         else add_result blcksz h d payload b1 (empty_coalesced blcksz) (flush_page w idx) bs)"
proof -
  have e: "\<not> (length d = 0 \<or> length d > 65535 \<or> length payload > 65535)"
      "\<not> slot_footprint (length d) (length payload) > pg_tre_coalesced_budget blcksz"
    using assms(2) by (auto simp: slot_entry_ok_def)
  have op: "open_page blcksz blocks = ret ((b1, empty_coalesced blcksz), bs)" by (simp add: open_page_def pg_tre_extend_def assms(3))
  show ?thesis
  proof (cases "open_buf w")
    case None
    have "page_takes blcksz d payload (empty_coalesced blcksz)" by (rule empty_takes[OF assms(1,2)])
    then show ?thesis unfolding pg_tre_coalesced_add_def split_conv if_not_P[OF e(1)] if_not_P[OF e(2)]
      by (simp add: None op page_takes_def Let_def add_result_def)
  next
    case (Some bp)
    obtain b p where bp: "bp = (b, p)" by (cases bp)
    show ?thesis
    proof (cases "page_takes blcksz d payload p")
      case True
      then show ?thesis unfolding pg_tre_coalesced_add_def split_conv if_not_P[OF e(1)] if_not_P[OF e(2)]
        by (simp add: Some bp page_takes_def Let_def add_result_def)
    next
      case False
      moreover have "flush_page \<lparr> open_buf = Some (b, p) \<rparr> idx = flush_page w idx" using Some bp by (simp add: flush_page_def)
      ultimately show ?thesis unfolding pg_tre_coalesced_add_def split_conv if_not_P[OF e(1)] if_not_P[OF e(2)]
        using Some bp by (auto simp: page_takes_def op Let_def add_result_def)
    qed
  qed
qed

lemma result_inv:
  assumes "blcksz_ok blcksz" and "slot_entry_ok blcksz d payload" and "page_holds blcksz p ents" and "page_takes blcksz d payload p"
    and "b \<notin> set blocks" and "distinct blocks"
    and "\<And>at e. (at, e) \<in> set hist \<Longrightarrow> fst at \<notin> set blocks \<and> slot_at blcksz (flush_page \<lparr> open_buf = Some (b, p) \<rparr> idx) at e"
    and "add_result blcksz h d payload b p idx blocks = (at', w', idx', blocks')"
  shows "writer_inv blcksz (hist @ [(at', (h, d))]) (w', idx', blocks')"
proof -
  obtain sm_lo blob_lo where c: "carve (ucast (free_offset p)) (length d) (length payload) = (sm_lo, blob_lo)"
    by (cases "carve (ucast (free_offset p)) (length d) (length payload)")
  have r: "at' = (b, n_slots p)" "w' = \<lparr> open_buf = Some (b, fill_slot h d payload (sm_lo, blob_lo) p) \<rparr>" "idx' = idx" "blocks' = blocks"
    using assms(8) by (auto simp: add_result_def c)
  have e: "0 < length d" "length d < 2 ^ 16" "length payload < 2 ^ 16" using assms(2) by (auto simp: slot_entry_ok_def)
  have t: "content_start + (unat (n_slots p) + 1) * 16 \<le> unat blob_lo" "blob_lo \<le> ucast (free_offset p)"
    using assms(4) by (simp_all add: page_takes_def c not_less)
  note fo = fill_open[OF assms(1,3) c e t r(2)]
  have old: "fst at \<notin> set blocks \<and> slot_at blcksz (flush_page w' idx) at e" if "(at, e) \<in> set hist" for at e
    using assms(7)[OF that] fo(2) by blast
  show ?thesis
    unfolding writer_inv_def split_conv
  proof (intro conjI allI impI)
    show "distinct blocks'" using assms(6) r(4) by simp
    fix b2 p2 assume "open_buf w' = Some (b2, p2)"
    then show "b2 \<notin> set blocks'" "\<exists>ents. page_holds blcksz p2 ents" using assms(5) r fo(3) by auto
  next
    show "\<forall>(at, e) \<in> set (hist @ [(at', h, d)]). fst at \<notin> set blocks' \<and> slot_at blcksz (flush_page w' idx') at e"
      using old fo(1) assms(5) r(1,3,4) by auto
  qed
qed

theorem coalesced_add_ret:
  assumes "blcksz_ok blcksz" and "slot_entry_ok blcksz d payload" and "writer_inv blcksz hist (w, idx, blocks)" and "blocks \<noteq> []"
  shows "\<exists>at w' idx' blocks'. pg_tre_coalesced_add blcksz h d payload (w, idx, blocks) = ret (at, w', idx', blocks')
    \<and> writer_inv blcksz (hist @ [(at, (h, d))]) (w', idx', blocks') \<and> length blocks \<le> Suc (length blocks')"
proof -
  obtain b1 bs where blk: "blocks = b1 # bs" using assms(4) by (cases blocks) auto
  have inv: "distinct blocks" "\<And>at e. (at, e) \<in> set hist \<Longrightarrow> fst at \<notin> set blocks \<and> slot_at blcksz (flush_page w idx) at e"
      "\<And>b p. open_buf w = Some (b, p) \<Longrightarrow> b \<notin> set blocks \<and> (\<exists>ents. page_holds blcksz p ents)"
    using assms(3) unfolding writer_inv_def by auto
  note ac = add_cases[OF assms(1,2) blk, of h w idx]
  have fresh: "writer_inv blcksz (hist @ [(at', (h, d))]) (w', idx', blocks')"
    if "add_result blcksz h d payload b1 (empty_coalesced blcksz) (flush_page w idx) bs = (at', w', idx', blocks')" for at' w' idx' blocks'
  proof (rule result_inv[OF assms(1,2) empty_holds[OF assms(1)] empty_takes[OF assms(1,2)] _ _ _ that])
    show "b1 \<notin> set bs" "distinct bs" using inv(1) blk by simp_all
    fix at e assume "(at, e) \<in> set hist"
    then have "fst at \<notin> set blocks" "slot_at blcksz (flush_page w idx) at e" using inv(2) by blast+
    then show "fst at \<notin> set bs \<and> slot_at blcksz (flush_page \<lparr> open_buf = Some (b1, empty_coalesced blcksz) \<rparr> (flush_page w idx)) at e"
      using blk unfolding slot_at_def flush_open by auto
  qed
  show ?thesis
  proof (cases "open_buf w")
    case None
    then have "flush_page w idx = idx" by (simp add: flush_page_def)
    then show ?thesis using ac None fresh blk by (auto simp: add_result_def)
  next
    case (Some bp)
    obtain b p where bp: "bp = (b, p)" by (cases bp)
    obtain ents where ents: "b \<notin> set blocks" "page_holds blcksz p ents" using inv(3) Some bp by blast
    have fl: "flush_page \<lparr> open_buf = Some (b, p) \<rparr> idx = flush_page w idx" using Some bp by (simp add: flush_page_def)
    show ?thesis
    proof (cases "page_takes blcksz d payload p")
      case True
      obtain at' w' where r: "add_result blcksz h d payload b p idx blocks = (at', w', idx, blocks)" by (simp add: add_result_def)
      have "writer_inv blcksz (hist @ [(at', (h, d))]) (w', idx, blocks)"
        by (rule result_inv[OF assms(1,2) ents(2) True ents(1) inv(1) _ r]) (use inv(2) fl in auto)
      then show ?thesis using ac Some bp True r by auto
    next
      case False
      then show ?thesis using ac Some bp fresh blk by (auto simp: add_result_def)
    qed
  qed
qed

end
