(* ===== verification/Upper_Tree.thy ===== *)
theory Upper_Tree
  imports Coalesced
begin

text \<open>
  \<open>src/pages/upper.c\<close>: the tree that maps a trigram hash to its posting, its bulk loader and its
  lookup. The loader's state carries the index it writes to and the blocks it may extend by.
  Leaves written by versions that did not store the entry count are not modelled.
\<close>

definition PG_TRE_COALESCED_FLAG :: uint32 where
  "PG_TRE_COALESCED_FLAG = 0x80000000"

definition PG_TRE_COALESCED_SLOT_MASK :: uint32 where
  "PG_TRE_COALESCED_SLOT_MASK = 0x0000ffff"

text \<open>Page header, opaque trailer and safety margin are 24, 8 and 64 bytes, both kinds of entry 16.\<close>

definition upper_page_budget :: "nat \<Rightarrow> nat" where
  "upper_page_budget blcksz = blcksz - 24 - 8 - 64"

definition UPPER_LEAF_MAX_ENTRIES :: "nat \<Rightarrow> nat" where
  "UPPER_LEAF_MAX_ENTRIES blcksz = (blcksz - 24 - 8 - 64) div 16"

definition UPPER_INTERNAL_MAX_ENTRIES :: "nat \<Rightarrow> nat" where
  "UPPER_INTERNAL_MAX_ENTRIES blcksz = (blcksz - 24 - 8 - 64) div 16"

section \<open>Bulk loading\<close>

record UpperBulkState =
  bulk_entries :: "PgTreUpperLeafEntry list"
  bulk_inline :: "uint8 list"
  leaf_blocks :: "BlockNumber list"
  leaf_first_keys :: "uint64 list"
  bulk_index :: tre_index
  bulk_free :: "BlockNumber list"

definition upper_bulkload_init :: "BlockNumber list \<Rightarrow> tre_index \<Rightarrow> UpperBulkState" where
  "upper_bulkload_init blocks idx =
     \<lparr> bulk_entries = [], bulk_inline = [], leaf_blocks = [], leaf_first_keys = [], bulk_index = idx, bulk_free = blocks \<rparr>"

definition upper_flush_leaf :: "UpperBulkState \<Rightarrow> UpperBulkState outcome" where
  "upper_flush_leaf st =
     (if bulk_entries st = [] then ret st
      else andThen (pg_tre_extend (bulk_free st)) (\<lambda>(b, blocks).
             ret \<lparr> bulk_entries = [], bulk_inline = [], leaf_blocks = leaf_blocks st @ [b],
                   leaf_first_keys = leaf_first_keys st @ [leaf_hash (hd (bulk_entries st))],
                   bulk_index = put_tree_page b (Upper_leaf \<lparr> leaf_entries = bulk_entries st, leaf_inline = bulk_inline st \<rparr>) (bulk_index st),
                   bulk_free = blocks \<rparr>))"

text \<open>
  What the iterator of the loader yields: the hash, the posting root, and either an inline blob
  or, in the size argument, the marker of a coalesced slot.
\<close>

record upper_item =
  it_hash :: uint64
  it_root :: BlockNumber
  it_data :: "uint8 list"
  it_bytes :: nat

definition is_coalesced :: "uint32 \<Rightarrow> bool" where
  "is_coalesced ib \<longleftrightarrow> ib AND PG_TRE_COALESCED_FLAG \<noteq> 0"

definition upper_add_leaf_entry :: "nat \<Rightarrow> upper_item \<Rightarrow> UpperBulkState \<Rightarrow> UpperBulkState outcome" where
  "upper_add_leaf_entry blcksz it st =
     (let blob_bytes = (if is_coalesced (word_of_nat (it_bytes it)) then 0 else it_bytes it);
          total_used = (length (bulk_entries st) + 1) * 16 + length (bulk_inline st) + blob_bytes
      in andThen
           (if length (bulk_entries st) \<ge> UPPER_LEAF_MAX_ENTRIES blcksz \<or> total_used > upper_page_budget blcksz
            then upper_flush_leaf st else ret st)
           (\<lambda>st1. ret (st1\<lparr>
              bulk_entries := bulk_entries st1 @ [\<lparr> leaf_hash = it_hash it, posting_root = it_root it, inline_bytes = word_of_nat (it_bytes it) \<rparr>],
              bulk_inline := bulk_inline st1 @ take blob_bytes (it_data it) \<rparr>)))"

text \<open>One page of an internal level: the children \<open>start..<end\<close> of the level below.\<close>

definition internal_page :: "'a list \<Rightarrow> nat \<Rightarrow> nat \<Rightarrow> 'a list" where
  "internal_page children n_pages i =
     (let n = length children; s = i * n div n_pages; e = (i + 1) * n div n_pages
      in take (e - s) (drop s children))"

definition write_internal :: "(uint64 \<times> BlockNumber) list \<Rightarrow> nat \<Rightarrow> nat
    \<Rightarrow> (uint64 \<times> BlockNumber) list \<times> tre_index \<times> BlockNumber list
    \<Rightarrow> ((uint64 \<times> BlockNumber) list \<times> tre_index \<times> BlockNumber list) outcome" where
  "write_internal children n_pages i = (\<lambda>(parents, idx, blocks).
     let es = internal_page children n_pages i
     in andThen (pg_tre_extend blocks) (\<lambda>(b, blocks').
          ret (parents @ [(fst (hd es), b)],
               put_tree_page b (Upper_internal (map (\<lambda>(k, c). \<lparr> first_key = k, child_blk = c \<rparr>) es)) idx, blocks')))"

partial_function (option) upper_build_internal_level ::
    "nat \<Rightarrow> (uint64 \<times> BlockNumber) list \<Rightarrow> tre_index \<Rightarrow> BlockNumber list \<Rightarrow> (BlockNumber \<times> tre_index \<times> BlockNumber list) outcome" where
  "upper_build_internal_level blcksz children idx blocks =
     (if children = [] then ret (InvalidBlockNumber, idx, blocks)
      else if length children = 1 then ret (snd (hd children), idx, blocks)
      else
        let epp = UPPER_INTERNAL_MAX_ENTRIES blcksz;
            n_pages = (length children + epp - 1) div epp
        in andThen (ofold (write_internal children n_pages) [0..<n_pages] ([], idx, blocks)) (\<lambda>(parents, idx', blocks').
             upper_build_internal_level blcksz parents idx' blocks'))"

definition pg_tre_upper_bulkload :: "nat \<Rightarrow> BlockNumber list \<Rightarrow> tre_index \<Rightarrow> upper_item list
    \<Rightarrow> (BlockNumber \<times> tre_index \<times> BlockNumber list) outcome" where
  "pg_tre_upper_bulkload blcksz blocks idx items =
     andThen (ofold (upper_add_leaf_entry blcksz) items (upper_bulkload_init blocks idx)) (\<lambda>st.
     andThen (upper_flush_leaf st) (\<lambda>st1.
       if leaf_blocks st1 = [] then ret (InvalidBlockNumber, bulk_index st1, bulk_free st1)
       else upper_build_internal_level blcksz (zip (leaf_first_keys st1) (leaf_blocks st1)) (bulk_index st1) (bulk_free st1)))"

section \<open>Lookup\<close>

text \<open>The child an internal page sends a hash to: the last entry before the first key above it.\<close>

definition internal_child :: "PgTreUpperInternalEntry list \<Rightarrow> uint64 \<Rightarrow> BlockNumber" where
  "internal_child es h = foldl (\<lambda>c e. child_blk e) InvalidBlockNumber (takeWhile (\<lambda>e. first_key e \<le> h) es)"

partial_function (option) upper_descend :: "tre_index \<Rightarrow> uint64 \<Rightarrow> BlockNumber \<Rightarrow> upper_leaf option outcome" where
  "upper_descend idx h blk =
     andThen (read_tree_page idx blk) (\<lambda>page.
       case page of
         Upper_leaf leaf \<Rightarrow> ret (Some leaf)
       | Upper_internal es \<Rightarrow>
           let c = internal_child es h
           in if c = InvalidBlockNumber then ret None else upper_descend idx h c
       | _ \<Rightarrow> raise (Unexpected_page_kind blk))"

text \<open>The search of the entries, with the offset of the matching entry's blob.\<close>

fun leaf_search :: "PgTreUpperLeafEntry list \<Rightarrow> uint64 \<Rightarrow> nat \<Rightarrow> (PgTreUpperLeafEntry \<times> nat) option" where
  "leaf_search [] h off = None"
| "leaf_search (e # es) h off =
     (if leaf_hash e = h then Some (e, off)
      else leaf_search es h (if is_coalesced (inline_bytes e) then off else off + unat (inline_bytes e)))"

record PgTreUpperRef =
  ref_root :: BlockNumber
  ref_inline :: "uint8 list option"
  ref_bytes :: nat

definition pg_tre_upper_lookup_root :: "nat \<Rightarrow> tre_index \<Rightarrow> BlockNumber \<Rightarrow> uint64 \<Rightarrow> PgTreUpperRef option outcome" where
  "pg_tre_upper_lookup_root blcksz idx root h =
     (if root = InvalidBlockNumber then ret None
      else andThen (upper_descend idx h root) (\<lambda>leaf.
        case leaf of
          None \<Rightarrow> ret None
        | Some l \<Rightarrow>
            (case leaf_search (leaf_entries l) h 0 of
               None \<Rightarrow> ret None
             | Some (e, off) \<Rightarrow>
                 let ib = inline_bytes e
                 in if is_coalesced ib
                    then andThen (pg_tre_coalesced_resolve_slot blcksz idx (posting_root e) (ucast (ib AND PG_TRE_COALESCED_SLOT_MASK)) h) (\<lambda>blob.
                           ret (Some \<lparr> ref_root = InvalidBlockNumber, ref_inline = blob,
                                       ref_bytes = (case blob of None \<Rightarrow> 0 | Some d \<Rightarrow> length d) \<rparr>))
                    else if ib > 0
                    then ret (Some \<lparr> ref_root = posting_root e, ref_inline = Some (take (unat ib) (drop off (leaf_inline l))),
                                     ref_bytes = unat ib \<rparr>)
                    else ret (Some \<lparr> ref_root = posting_root e, ref_inline = None, ref_bytes = 0 \<rparr>))))"

definition pg_tre_upper_lookup :: "nat \<Rightarrow> tre_index \<Rightarrow> uint64 \<Rightarrow> PgTreUpperRef option outcome" where
  "pg_tre_upper_lookup blcksz idx h =
     andThen (pg_tre_meta_read idx) (\<lambda>m. pg_tre_upper_lookup_root blcksz idx (root_upper m) h)"

end
