(* ===== verification/Sparsemap.thy ===== *)
theory Sparsemap
  imports Outcome
begin

text \<open>
  The compressed bitmap as its clients see it. The bitmap library (\<open>src/util/sparsemap.c\<close>) is
  a vendored general-purpose container: a map is here the set of its members, \<open>None\<close> where the
  library returns \<open>NULL\<close>. What the documentation in \<open>include/pg_tre/sparsemap.h\<close> leaves open
  is a parameter, a record of the byte representation and of the calls that run out of memory.
\<close>

type_synonym sm = "uint64 set"

text \<open>
  \<open>sm_bytes\<close> are the bytes of a map after \<open>sm_add_many_grow\<close> on these members, \<open>sm_open_copy\<close>
  reads bytes back or rejects them, \<open>sm_overflows n ms\<close> says that adding the members in order
  to a map of \<open>n\<close> bytes has made it grow, \<open>build_fails\<close> that building a map from them fails.
\<close>

record sm_lib =
  sm_bytes :: "uint64 list \<Rightarrow> uint8 list"
  sm_open_copy :: "uint8 list \<Rightarrow> sm option"
  sm_overflows :: "nat \<Rightarrow> uint64 list \<Rightarrow> bool"
  build_fails :: "uint64 list \<Rightarrow> bool"
  copy_fails :: "sm \<Rightarrow> bool"
  union_fails :: "sm \<Rightarrow> sm \<Rightarrow> bool"
  inter_fails :: "sm \<Rightarrow> sm \<Rightarrow> bool"

definition sm_copy :: "sm_lib \<Rightarrow> sm \<Rightarrow> sm option" where
  "sm_copy lib a = (if copy_fails lib a then None else Some a)"

definition sm_union :: "sm_lib \<Rightarrow> sm \<Rightarrow> sm \<Rightarrow> sm option" where
  "sm_union lib a b = (if union_fails lib a b \<or> a = {} \<and> b = {} then None else Some (a \<union> b))"

definition sm_intersection :: "sm_lib \<Rightarrow> sm \<Rightarrow> sm \<Rightarrow> sm option" where
  "sm_intersection lib a b = (if inter_fails lib a b \<or> a \<inter> b = {} then None else Some (a \<inter> b))"

text \<open>A \<open>NULL\<close> map reads as the empty one.\<close>

definition members :: "sm option \<Rightarrow> sm" where
  "members m = (case m of None \<Rightarrow> {} | Some a \<Rightarrow> a)"

text \<open>No call runs out of memory.\<close>

definition alloc_ok :: "sm_lib \<Rightarrow> bool" where
  "alloc_ok lib \<longleftrightarrow> (\<forall>ms. \<not> build_fails lib ms) \<and> (\<forall>a. \<not> copy_fails lib a) \<and> (\<forall>a b. \<not> union_fails lib a b) \<and> (\<forall>a b. \<not> inter_fails lib a b)"

text \<open>The bytes of a map read back as the map, and there are at least the eight of the header.\<close>

definition codec_ok :: "sm_lib \<Rightarrow> bool" where
  "codec_ok lib \<longleftrightarrow> (\<forall>ms. sm_open_copy lib (sm_bytes lib ms) = Some (set ms) \<and> 8 \<le> length (sm_bytes lib ms))"

lemma members_simps [simp]: "members None = {}" "members (Some a) = a"
  by (simp_all add: members_def)

lemma members_ops:
  assumes "alloc_ok lib"
  shows "sm_copy lib a = Some a" and "members (sm_union lib a b) = a \<union> b" and "members (sm_intersection lib a b) = a \<inter> b"
  using assms by (simp_all add: alloc_ok_def sm_copy_def sm_union_def sm_intersection_def)

end
