(* ===== verification/Posting.thy ===== *)
theory Posting
  imports Upper_Tree Sparsemap Tid_Packing
begin

text \<open>
  \<open>src/pages/posting.c\<close>, the postings of a trigram: the builder, which chooses between an inline
  blob, a slot of a coalesced page, one leaf and a chain of leaves, and the reader that brings a
  posting back as one map.
\<close>

definition PG_TRE_INLINE_POSTING_MAX :: nat where
  "PG_TRE_INLINE_POSTING_MAX = 2048"

text \<open>The page header has 24 bytes, the leaf header 40, the opaque trailer 8.\<close>

definition posting_leaf_budget :: "nat \<Rightarrow> nat" where
  "posting_leaf_budget blcksz = blcksz - 24 - 40 - 8"

definition posting_leaf_header_valid :: "nat \<Rightarrow> PgTrePostingLeaf \<Rightarrow> bool" where
  "posting_leaf_header_valid blcksz hdr \<longleftrightarrow>
     (let header_end = 24 + 40; usable_end = blcksz - 8
      in length (sparsemap_data hdr) \<le> posting_leaf_budget blcksz
         \<and> (payload_bytes hdr > 0 \<or> payload_offset hdr \<noteq> 0 \<longrightarrow>
              \<not> payload_offset hdr < header_end \<and> \<not> payload_offset hdr > usable_end
              \<and> \<not> payload_bytes hdr > usable_end - payload_offset hdr))"

section \<open>The builder\<close>

record PgTrePostingBuilder =
  pb_hash :: uint64
  pb_packing :: PgTreTidPacking
  pb_tids :: "uint64 list"
  pb_alloced :: nat
  pb_min :: uint64
  pb_max :: uint64

definition pg_tre_posting_build_begin_sized :: "PgTreTidPacking \<Rightarrow> uint64 \<Rightarrow> nat \<Rightarrow> PgTrePostingBuilder" where
  "pg_tre_posting_build_begin_sized pk h expected_bytes =
     \<lparr> pb_hash = h, pb_packing = pk, pb_tids = [],
       pb_alloced = (if expected_bytes div 8 < 64 then 64 else expected_bytes div 8), pb_min = - 1, pb_max = 0 \<rparr>"

definition pg_tre_posting_build_begin :: "PgTreTidPacking \<Rightarrow> uint64 \<Rightarrow> PgTrePostingBuilder" where
  "pg_tre_posting_build_begin pk h = pg_tre_posting_build_begin_sized pk h 1024"

definition pg_tre_posting_build_add :: "nat \<Rightarrow> ItemPointer \<Rightarrow> PgTrePostingBuilder \<Rightarrow> PgTrePostingBuilder outcome" where
  "pg_tre_posting_build_add max_tuples tid b =
     (case pg_tre_pack_tid max_tuples (pb_packing b) tid of
        Inl (Tid_offset_exceeds off) \<Rightarrow> raise (Tid_offset_beyond_page off)
      | Inr packed \<Rightarrow>
          if length (pb_tids b) \<ge> pb_alloced b \<and> int (pb_alloced b) > INT32_MAX div 2 then raise Posting_builder_too_large
          else ret (b\<lparr> pb_alloced := (if length (pb_tids b) \<ge> pb_alloced b then 2 * pb_alloced b else pb_alloced b),
                       pb_tids := pb_tids b @ [packed],
                       pb_min := (if packed < pb_min b then packed else pb_min b),
                       pb_max := (if packed > pb_max b then packed else pb_max b) \<rparr>))"

definition pg_tre_posting_build_n_tids :: "PgTrePostingBuilder \<Rightarrow> nat" where
  "pg_tre_posting_build_n_tids b = length (pb_tids b)"

definition write_single_leaf :: "nat \<Rightarrow> uint8 list \<Rightarrow> uint64 \<Rightarrow> uint64 \<Rightarrow> nat \<Rightarrow> BlockNumber
    \<Rightarrow> tre_index \<times> BlockNumber list \<Rightarrow> (BlockNumber \<times> tre_index \<times> BlockNumber list) outcome" where
  "write_single_leaf blcksz data mn mx n right = (\<lambda>(idx, blocks).
     if length data > posting_leaf_budget blcksz then raise (Posting_leaf_over_budget (length data))
     else andThen (pg_tre_extend blocks) (\<lambda>(b, blocks').
       ret (b, put_tree_page b (Posting_leaf \<lparr> post_right = right, post_min_tid = mn, post_max_tid = mx, sparsemap_data = data,
              payload_bytes = 0, payload_offset = 0, post_n = (if n > 65535 then - 1 else word_of_nat n), post_deleted = False \<rparr>) idx,
            blocks')))"

text \<open>The number of members that fit before the map has to grow past the budget, at least one.\<close>

definition leaf_fill_count :: "sm_lib \<Rightarrow> uint64 list \<Rightarrow> nat \<Rightarrow> nat outcome" where
  "leaf_fill_count lib tids budget =
     (if build_fails lib tids then raise Out_of_memory
      else let n = length (takeWhile (\<lambda>n. \<not> sm_overflows lib budget (take (Suc n) tids)) [0..<length tids])
           in ret (if n > 0 then n else 1))"

text \<open>The loop that gives a leaf fewer members while its bytes exceed the budget.\<close>

function fit_slice :: "sm_lib \<Rightarrow> uint64 list \<Rightarrow> nat \<Rightarrow> nat \<Rightarrow> (nat \<times> uint8 list) outcome" where
  "fit_slice lib tids budget n =
     (if build_fails lib (take n tids) then raise Out_of_memory
      else let bytes = sm_bytes lib (take n tids)
           in if length bytes \<le> budget \<or> n = 1 then ret (n, bytes)
              else let n' = n - (n + 7) div 8 in fit_slice lib tids budget (if n' < 1 then 1 else n'))"
  by pat_completeness auto
termination
  by (relation "measure (\<lambda>(lib, tids, budget, n). if n = 0 then 2 else n)") auto

partial_function (option) write_leaves :: "sm_lib \<Rightarrow> nat \<Rightarrow> uint64 list \<Rightarrow> BlockNumber \<Rightarrow> tre_index \<times> BlockNumber list
    \<Rightarrow> (BlockNumber \<times> tre_index \<times> BlockNumber list) outcome" where
  "write_leaves lib blcksz tids right st =
     (if tids = [] then ret (right, st)
      else andThen (leaf_fill_count lib tids (posting_leaf_budget blcksz)) (\<lambda>n0.
           andThen (fit_slice lib tids (posting_leaf_budget blcksz) n0) (\<lambda>(n, bytes).
             if length bytes > posting_leaf_budget blcksz then raise (Posting_slice_exceeds_budget (length bytes))
             else andThen (write_single_leaf blcksz bytes (tids ! 0) (tids ! (n - 1)) n right st) (\<lambda>(blk, st').
                    write_leaves lib blcksz (drop n tids) blk st'))))"

text \<open>What a finished posting is: where it is, its inline blob, or its coalesced slot.\<close>

record finished =
  fin_root :: BlockNumber
  fin_inline :: "uint8 list option"
  fin_bytes :: nat
  fin_coalesced :: "(BlockNumber \<times> uint16) option"

type_synonym build_state = "PgTreCoalescedWriter option \<times> tre_index \<times> BlockNumber list"

text \<open>The dedicated leaves: one if the bytes fit, else the chain.\<close>

definition write_tree :: "sm_lib \<Rightarrow> nat \<Rightarrow> PgTrePostingBuilder \<Rightarrow> bool \<Rightarrow> uint8 list \<Rightarrow> build_state \<Rightarrow> (finished \<times> build_state) outcome" where
  "write_tree lib blcksz b multi bytes = (\<lambda>(cw, st).
     andThen (if \<not> multi \<and> length bytes \<le> posting_leaf_budget blcksz
              then write_single_leaf blcksz bytes (pb_min b) (pb_max b) (length (pb_tids b)) InvalidBlockNumber st
              else write_leaves lib blcksz (pb_tids b) InvalidBlockNumber st)
       (\<lambda>(root, st'). ret (\<lparr> fin_root = root, fin_inline = None, fin_bytes = 0, fin_coalesced = None \<rparr>, cw, st')))"

definition pg_tre_posting_build_finish_ex :: "sm_lib \<Rightarrow> nat \<Rightarrow> PgTrePostingBuilder \<Rightarrow> build_state \<Rightarrow> (finished \<times> build_state) outcome" where
  "pg_tre_posting_build_finish_ex lib blcksz b = (\<lambda>(cw, idx, blocks).
     let tids = pb_tids b; budget = posting_leaf_budget blcksz
     in andThen (if tids = [] then ret False else andThen (leaf_fill_count lib tids budget) (\<lambda>n. ret (n < length tids))) (\<lambda>multi.
        andThen (if multi then ret [] else if build_fails lib tids then raise Out_of_memory else ret (sm_bytes lib tids)) (\<lambda>bytes.
          if \<not> multi \<and> length bytes \<le> PG_TRE_INLINE_POSTING_MAX
          then ret (\<lparr> fin_root = InvalidBlockNumber, fin_inline = Some bytes, fin_bytes = length bytes, fin_coalesced = None \<rparr>, cw, idx, blocks)
          else
            case cw of
              Some w \<Rightarrow>
                if \<not> multi \<and> length bytes \<le> pg_tre_coalesce_max blcksz
                then andThen (pg_tre_coalesced_add blcksz (pb_hash b) bytes [] (w, idx, blocks)) (\<lambda>(at, w', idx', blocks').
                       ret (\<lparr> fin_root = InvalidBlockNumber, fin_inline = None, fin_bytes = 0, fin_coalesced = Some at \<rparr>, Some w', idx', blocks'))
                else write_tree lib blcksz b multi bytes (cw, idx, blocks)
            | None \<Rightarrow> write_tree lib blcksz b multi bytes (cw, idx, blocks))))"

definition pg_tre_posting_build_finish :: "sm_lib \<Rightarrow> nat \<Rightarrow> PgTrePostingBuilder \<Rightarrow> tre_index \<times> BlockNumber list
    \<Rightarrow> (finished \<times> tre_index \<times> BlockNumber list) outcome" where
  "pg_tre_posting_build_finish lib blcksz b st =
     andThen (pg_tre_posting_build_finish_ex lib blcksz b (None, st)) (\<lambda>(fin, cw, st'). ret (fin, st'))"

section \<open>The reader\<close>

definition read_posting_leaf :: "nat \<Rightarrow> tre_index \<Rightarrow> BlockNumber \<Rightarrow> PgTrePostingLeaf outcome" where
  "read_posting_leaf blcksz idx b =
     andThen (read_tree_page idx b) (\<lambda>p.
       case p of
         Posting_leaf hdr \<Rightarrow> if posting_leaf_header_valid blcksz hdr then ret hdr else raise (Corrupt_posting_leaf b)
       | _ \<Rightarrow> raise (Unexpected_page_kind b))"

text \<open>
  The union of the leaves, as a binary counter: slot \<open>i\<close> holds the union of \<open>2 ^ i\<close> leaves and a
  leaf is carried up through the occupied slots. \<open>ret None\<close> is the \<open>NULL\<close> that the reader returns
  when a union is \<open>NULL\<close>.
\<close>

fun carry :: "sm_lib \<Rightarrow> BlockNumber \<Rightarrow> sm option list \<Rightarrow> sm \<Rightarrow> sm option list option outcome" where
  "carry lib root [] s = raise (Posting_chain_too_long root)"
| "carry lib root (None # slots) s = ret (Some (Some s # slots))"
| "carry lib root (Some a # slots) s =
     (case sm_union lib a s of
        None \<Rightarrow> ret None
      | Some m \<Rightarrow> andThen (carry lib root slots m) (\<lambda>r. ret (map_option ((#) None) r)))"

fun fold_slots :: "sm_lib \<Rightarrow> sm option list \<Rightarrow> sm option \<Rightarrow> sm option" where
  "fold_slots lib [] acc = acc"
| "fold_slots lib (None # slots) acc = fold_slots lib slots acc"
| "fold_slots lib (Some a # slots) None = fold_slots lib slots (Some a)"
| "fold_slots lib (Some a # slots) (Some s) =
     (case sm_union lib a s of None \<Rightarrow> None | Some m \<Rightarrow> fold_slots lib slots (Some m))"

partial_function (option) union_chain :: "sm_lib \<Rightarrow> nat \<Rightarrow> tre_index \<Rightarrow> BlockNumber \<Rightarrow> sm option list \<Rightarrow> sm \<Rightarrow> BlockNumber \<Rightarrow> sm option outcome" where
  "union_chain lib blcksz idx root slots s nxt =
     andThen (carry lib root slots s) (\<lambda>r.
       case r of
         None \<Rightarrow> ret None
       | Some slots' \<Rightarrow>
           if nxt = InvalidBlockNumber then ret (fold_slots lib slots' None)
           else andThen (read_posting_leaf blcksz idx nxt) (\<lambda>hdr.
             case sm_open_copy lib (sparsemap_data hdr) of
               None \<Rightarrow> ret None
             | Some s' \<Rightarrow> union_chain lib blcksz idx root slots' s' (post_right hdr)))"

definition pg_tre_posting_materialize :: "sm_lib \<Rightarrow> nat \<Rightarrow> tre_index \<Rightarrow> BlockNumber \<Rightarrow> uint8 list option \<Rightarrow> nat \<Rightarrow> sm option outcome" where
  "pg_tre_posting_materialize lib blcksz idx root inline_data inline_n =
     (case inline_data of
        Some d \<Rightarrow> ret (sm_open_copy lib (take inline_n d))
      | None \<Rightarrow>
          if root \<noteq> InvalidBlockNumber \<and> is_coalesced (word_of_nat inline_n)
          then andThen (pg_tre_coalesced_resolve_slot blcksz idx root (ucast ((word_of_nat inline_n :: uint32) AND PG_TRE_COALESCED_SLOT_MASK))
                          PG_TRE_COALESCED_HASH_ANY) (\<lambda>blob.
                 case blob of
                   None \<Rightarrow> ret None
                 | Some d \<Rightarrow> if d = [] then ret None else ret (sm_open_copy lib d))
          else if root \<noteq> InvalidBlockNumber
          then andThen (read_posting_leaf blcksz idx root) (\<lambda>hdr.
                 case sm_open_copy lib (sparsemap_data hdr) of
                   None \<Rightarrow> ret None
                 | Some s \<Rightarrow> union_chain lib blcksz idx root (replicate 64 None) s (post_right hdr))
          else ret (Some {}))"

text \<open>What a scan reads of a trigram in the run with a given root; \<open>None\<close> where the run does not hold it.\<close>

definition run_posting :: "sm_lib \<Rightarrow> nat \<Rightarrow> tre_index \<Rightarrow> BlockNumber \<Rightarrow> uint64 \<Rightarrow> sm option outcome" where
  "run_posting lib blcksz idx root h =
     andThen (pg_tre_upper_lookup_root blcksz idx root h) (\<lambda>r.
       case r of
         None \<Rightarrow> ret None
       | Some ref \<Rightarrow> pg_tre_posting_materialize lib blcksz idx (ref_root ref) (ref_inline ref) (ref_bytes ref))"

end
