(* ===== verification/Run_Catalog.thy ===== *)
theory Run_Catalog
  imports Index_Pages
begin

text \<open>
  \<open>src/pages/run_catalog.c\<close>: the catalog of the runs of an index and its iterator. The block
  that \<open>pg_tre_extend\<close> hands out comes from the server's free space map: it is an argument of
  the two operations that extend.
\<close>

record PgTreRunIter =
  implicit_served :: bool
  implicit_run :: PgTreRun
  cur_page :: BlockNumber
  cur_idx :: nat
  cur_n :: nat

definition run_is_live :: "PgTreRun \<Rightarrow> bool" where
  "run_is_live r \<longleftrightarrow> flags r AND PG_TRE_RUN_LIVE \<noteq> 0"

definition read_catalog_page :: "tre_index \<Rightarrow> BlockNumber \<Rightarrow> PgTreRunCatalogPage outcome" where
  "read_catalog_page cat b = (case catalog_pages cat b of None \<Rightarrow> raise (Page_unreadable b) | Some p \<Rightarrow> ret p)"

section \<open>The iterator\<close>

definition implicit_base_run :: "PgTreMetaPageData \<Rightarrow> PgTreRun" where
  "implicit_base_run m =
     \<lparr> run_id = 0, level = 1, flags = PG_TRE_RUN_LIVE, run_root_upper = root_upper m,
       run_root_range = root_range m, n_tuples = n_tuples_indexed m, run_n_trigrams = n_trigrams m,
       min_trigram_hash = 0, max_trigram_hash = - 1 \<rparr>"

definition pg_tre_run_catalog_open :: "tre_index \<Rightarrow> PgTreRunIter outcome" where
  "pg_tre_run_catalog_open cat =
     andThen (pg_tre_meta_read cat) (\<lambda>m.
       ret \<lparr> implicit_served = False, implicit_run = implicit_base_run m,
             cur_page = (if run_catalog_head m = InvalidBlockNumber then InvalidBlockNumber else run_catalog_head m),
             cur_idx = 0, cur_n = 0 \<rparr>)"

partial_function (option) catalog_load_page :: "tre_index \<Rightarrow> PgTreRunIter \<Rightarrow> (bool \<times> PgTreRunIter) outcome" where
  "catalog_load_page cat it =
     (if cur_page it \<noteq> InvalidBlockNumber
      then andThen (read_catalog_page cat (cur_page it)) (\<lambda>hdr.
             let it1 = it\<lparr> cur_n := n_entries hdr, cur_idx := 0 \<rparr>
             in if cur_n it1 > 0 then ret (True, it1)
                else catalog_load_page cat (it1\<lparr> cur_page := right_link hdr \<rparr>))
      else ret (False, it))"

text \<open>The advance to the page that holds the next entry, when the current one is used up.\<close>

definition catalog_advance :: "tre_index \<Rightarrow> PgTreRunIter \<Rightarrow> (bool \<times> PgTreRunIter) outcome" where
  "catalog_advance cat it =
     (if cur_idx it \<ge> cur_n it
      then andThen (if cur_n it > 0
                    then andThen (read_catalog_page cat (cur_page it)) (\<lambda>hdr. ret (it\<lparr> cur_page := right_link hdr \<rparr>))
                    else ret it)
             (catalog_load_page cat)
      else ret (True, it))"

partial_function (option) catalog_next_loop ::
    "tre_index \<Rightarrow> PgTreRunIter \<Rightarrow> (PgTreRun option \<times> PgTreRunIter) outcome" where
  "catalog_next_loop cat it =
     andThen (catalog_advance cat it) (\<lambda>(ok, it1).
       if \<not> ok then ret (None, it1)
       else andThen (read_catalog_page cat (cur_page it1)) (\<lambda>hdr.
              let r = runs hdr ! cur_idx it1; it2 = it1\<lparr> cur_idx := cur_idx it1 + 1 \<rparr>
              in if run_is_live r then ret (Some r, it2) else catalog_next_loop cat it2))"

definition pg_tre_run_catalog_next ::
    "tre_index \<Rightarrow> PgTreRunIter \<Rightarrow> (PgTreRun option \<times> PgTreRunIter) outcome" where
  "pg_tre_run_catalog_next cat it =
     (if \<not> implicit_served it then ret (Some (implicit_run it), it\<lparr> implicit_served := True \<rparr>)
      else if cur_page it = InvalidBlockNumber \<and> cur_n it = 0 then ret (None, it)
      else catalog_next_loop cat it)"

text \<open>The loop every client writes around the iterator, with the runs it visits.\<close>

partial_function (option) run_catalog_drain :: "tre_index \<Rightarrow> PgTreRunIter \<Rightarrow> PgTreRun list outcome" where
  "run_catalog_drain cat it =
     andThen (pg_tre_run_catalog_next cat it) (\<lambda>(r, it1).
       case r of None \<Rightarrow> ret [] | Some run \<Rightarrow> andThen (run_catalog_drain cat it1) (\<lambda>rs. ret (run # rs)))"

definition run_catalog_runs :: "tre_index \<Rightarrow> PgTreRun list outcome" where
  "run_catalog_runs cat = andThen (pg_tre_run_catalog_open cat) (run_catalog_drain cat)"

section \<open>The writers\<close>

text \<open>
  \<open>cap\<close> is \<open>RUN_CATALOG_CAP\<close>, the number of runs a page of the server's block size holds;
  \<open>fresh\<close> is the block \<open>pg_tre_extend\<close> would return.
\<close>

definition pg_tre_run_catalog_append ::
    "nat \<Rightarrow> BlockNumber \<Rightarrow> tre_index \<Rightarrow> PgTreRun \<Rightarrow> (uint64 \<times> tre_index) outcome" where
  "pg_tre_run_catalog_append cap fresh cat run =
     (let m0 = meta_page cat;
          head = (if n_runs m0 = 0 \<and> run_catalog_head m0 = 0 then InvalidBlockNumber else run_catalog_head m0)
      in andThen
           (if head = InvalidBlockNumber
            then ret (fresh, \<lparr> right_link = InvalidBlockNumber, n_entries = 0, runs = [] \<rparr>)
            else andThen (read_catalog_page cat head) (\<lambda>hdr.
                   if n_entries hdr \<ge> cap
                   then ret (fresh, \<lparr> right_link = head, n_entries = 0, runs = [] \<rparr>)
                   else ret (head, hdr)))
           (\<lambda>(blk, hdr).
             let m = normalize_runs m0;
                 assigned_id = next_run_id m;
                 hdr' = hdr\<lparr> runs := take (n_entries hdr) (runs hdr) @ [run\<lparr> run_id := assigned_id \<rparr>],
                            n_entries := n_entries hdr + 1 \<rparr>;
                 m' = m\<lparr> next_run_id := assigned_id + 1, run_catalog_head := blk,
                         n_runs := (if n_runs m = 0 then 2 else n_runs m + 1) \<rparr>
             in ret (assigned_id, cat\<lparr> meta_page := m', catalog_pages := (catalog_pages cat)(blk \<mapsto> hdr') \<rparr>)))"

definition pg_tre_run_catalog_collapse_reset ::
    "tre_index \<Rightarrow> BlockNumber \<Rightarrow> BlockNumber \<Rightarrow> uint64 \<Rightarrow> uint64 \<Rightarrow> tre_index" where
  "pg_tre_run_catalog_collapse_reset cat new_root_upper new_root_range ntri ntup =
     cat\<lparr> meta_page := (meta_page cat)\<lparr> root_upper := new_root_upper, root_range := new_root_range,
            n_trigrams := ntri, n_tuples_indexed := ntup,
            run_catalog_head := InvalidBlockNumber, n_runs := 0 \<rparr> \<rparr>"

definition pg_tre_run_catalog_rewrite ::
    "nat \<Rightarrow> BlockNumber \<Rightarrow> tre_index \<Rightarrow> PgTreRun list \<Rightarrow> tre_index outcome" where
  "pg_tre_run_catalog_rewrite cap fresh cat rs =
     (if length rs > cap then raise (Catalog_rewrite_exceeds_page (length rs))
      else if rs \<noteq> []
      then ret (cat\<lparr> meta_page := (meta_page cat)\<lparr> run_catalog_head := fresh, n_runs := word_of_nat (length rs + 1) \<rparr>,
                 catalog_pages := (catalog_pages cat)(fresh \<mapsto>
                   \<lparr> right_link = InvalidBlockNumber, n_entries = length rs, runs = rs \<rparr>) \<rparr>)
      else ret (cat\<lparr> meta_page := (meta_page cat)\<lparr> run_catalog_head := InvalidBlockNumber, n_runs := 0 \<rparr> \<rparr>))"

definition pg_tre_run_count :: "tre_index \<Rightarrow> uint32 outcome" where
  "pg_tre_run_count cat = andThen (pg_tre_meta_read cat) (\<lambda>m. ret (if n_runs m = 0 then 1 else n_runs m))"

end
