(* ===== verification/Pending.thy ===== *)
theory Pending
  imports Index_Pages
begin

text \<open>
  \<open>src/pages/pending.c\<close>: the pending list of recent inserts, a forward-linked chain of pages.

  \<open>blcksz\<close> is the server's block size and \<open>max_tuples\<close> its \<open>MaxHeapTuplesPerPage\<close>. The blocks
  that \<open>pg_tre_extend\<close> will hand out come as a list. Readers lock one page at a time, so
  between two of their reads other sessions may append: the functions that walk the chain
  take a \<open>view\<close>, the index as the reader's n-th read finds it. The writers hold the meta page
  exclusively for each record and work on one state of the index.
\<close>

definition read_pending_page :: "tre_index \<Rightarrow> BlockNumber \<Rightarrow> PgTrePendingPage outcome" where
  "read_pending_page idx b = (case pending_pages idx b of None \<Rightarrow> raise (Page_unreadable b) | Some p \<Rightarrow> ret p)"

definition pending_capacity :: "nat \<Rightarrow> nat" where
  "pending_capacity blcksz = (blcksz - 24 - 16 - 8) div 24"

definition pending_page_init :: PgTrePendingPage where
  "pending_page_init = \<lparr> next_page = InvalidBlockNumber, pend_n = 0, used_bytes = 0, pend_entries = [] \<rparr>"

definition PG_TRE_PENDING_BATCH_MAX :: nat where
  "PG_TRE_PENDING_BATCH_MAX = 256"

section \<open>Appending\<close>

text \<open>The tail to append into: its block, its page, whether it is new, whether the list was empty, the old tail.\<close>

record tail_choice =
  tail_blk :: BlockNumber
  tail_page :: PgTrePendingPage
  tail_is_new :: bool
  head_is_new :: bool
  prev_tail :: "BlockNumber option"

definition acquire_tail ::
    "nat \<Rightarrow> tre_index \<Rightarrow> BlockNumber list \<Rightarrow> (tail_choice \<times> BlockNumber list) outcome" where
  "acquire_tail blcksz idx blocks =
     (let t = pending_tail (meta_page idx)
      in if t = InvalidBlockNumber
         then andThen (pg_tre_extend blocks) (\<lambda>(b, blocks').
                ret (\<lparr> tail_blk = b, tail_page = pending_page_init, tail_is_new = True, head_is_new = True,
                       prev_tail = None \<rparr>, blocks'))
         else andThen (read_pending_page idx t) (\<lambda>page.
                if pend_n page \<ge> pending_capacity blcksz
                then andThen (pg_tre_extend blocks) (\<lambda>(b, blocks').
                       ret (\<lparr> tail_blk = b, tail_page = pending_page_init, tail_is_new = True, head_is_new = False,
                              prev_tail = Some t \<rparr>, blocks'))
                else ret (\<lparr> tail_blk = t, tail_page = page, tail_is_new = False, head_is_new = False,
                            prev_tail = None \<rparr>, blocks)))"

text \<open>The changes that make a new tail part of the list: the link of the old tail and the meta pointers.\<close>

definition link_tail :: "tail_choice \<Rightarrow> tre_index \<Rightarrow> tre_index" where
  "link_tail t idx =
     (if tail_is_new t
      then idx\<lparr> pending_pages := (case prev_tail t of
                   None \<Rightarrow> pending_pages idx
                 | Some pb \<Rightarrow> (pending_pages idx)(pb := map_option (\<lambda>p. p\<lparr> next_page := tail_blk t \<rparr>) (pending_pages idx pb))),
                meta_page := (meta_page idx)\<lparr> pending_tail := tail_blk t,
                   pending_head := (if head_is_new t then tail_blk t else pending_head (meta_page idx)) \<rparr> \<rparr>
      else idx)"

type_synonym pending_item = "uint64 \<times> ItemPointer \<times> uint32"

primrec pack_items :: "nat \<Rightarrow> PgTreTidPacking \<Rightarrow> pending_item list \<Rightarrow> PgTrePendingEntry list outcome" where
  "pack_items max_tuples pk [] = ret []"
| "pack_items max_tuples pk (it # its) =
     (case it of (h, tid, pos) \<Rightarrow>
        (case pg_tre_pack_tid max_tuples pk tid of
           Inl (Tid_offset_exceeds off) \<Rightarrow> raise (Tid_offset_beyond_page off)
         | Inr packed \<Rightarrow> andThen (pack_items max_tuples pk its) (\<lambda>es.
             ret (\<lparr> entry_hash = h, entry_tid = packed, position = pos \<rparr> # es))))"

definition put_entries :: "PgTrePendingPage \<Rightarrow> PgTrePendingEntry list \<Rightarrow> PgTrePendingPage" where
  "put_entries p es =
     p\<lparr> pend_entries := take (pend_n p) (pend_entries p) @ es @ drop (pend_n p + length es) (pend_entries p),
        pend_n := pend_n p + length es, used_bytes := (pend_n p + length es) * 24 \<rparr>"

text \<open>One iteration of the append loop that found room: as many items as fit, in one WAL record.\<close>

definition append_record :: "tail_choice \<Rightarrow> PgTrePendingEntry list \<Rightarrow> tre_index \<Rightarrow> tre_index" where
  "append_record t es idx =
     (let idx1 = link_tail t idx
      in idx1\<lparr> pending_pages := (pending_pages idx1)(tail_blk t \<mapsto> put_entries (tail_page t) es),
               meta_page := (meta_page idx1)\<lparr> pending_n_entries :=
                  pending_n_entries (meta_page idx1) + word_of_nat (length es) \<rparr> \<rparr>)"

partial_function (option) append_loop ::
    "nat \<Rightarrow> nat \<Rightarrow> PgTreTidPacking \<Rightarrow> BlockNumber list \<Rightarrow> tre_index \<Rightarrow> pending_item list \<Rightarrow> uint64
      \<Rightarrow> (uint64 \<times> tre_index \<times> BlockNumber list) outcome" where
  "append_loop blcksz max_tuples pk blocks idx items n_after =
     (if items = [] then ret (n_after, idx, blocks)
      else andThen (acquire_tail blcksz idx blocks) (\<lambda>(t, blocks').
        let room = pending_capacity blcksz - pend_n (tail_page t)
        in if room = 0 then append_loop blcksz max_tuples pk blocks' idx items n_after
           else andThen (pack_items max_tuples pk (take room items)) (\<lambda>es.
             let idx' = append_record t es idx
             in append_loop blcksz max_tuples pk blocks' idx' (drop room items)
                  (pending_n_entries (meta_page idx')))))"

definition pg_tre_pending_append_batch ::
    "nat \<Rightarrow> nat \<Rightarrow> PgTreTidPacking \<Rightarrow> BlockNumber list \<Rightarrow> tre_index \<Rightarrow> pending_item list
      \<Rightarrow> (uint64 \<times> tre_index \<times> BlockNumber list) outcome" where
  "pg_tre_pending_append_batch blcksz max_tuples pk blocks idx items =
     (if items = [] then ret (0, idx, blocks)
      else if length items > PG_TRE_PENDING_BATCH_MAX then raise (Pending_batch_too_large (length items))
      else append_loop blcksz max_tuples pk blocks idx items 0)"

definition pg_tre_pending_append ::
    "nat \<Rightarrow> nat \<Rightarrow> PgTreTidPacking \<Rightarrow> BlockNumber list \<Rightarrow> tre_index \<Rightarrow> uint64 \<Rightarrow> ItemPointer \<Rightarrow> uint32
      \<Rightarrow> (tre_index \<times> BlockNumber list) outcome" where
  "pg_tre_pending_append blcksz max_tuples pk blocks idx h tid pos =
     andThen (pg_tre_pending_append_batch blcksz max_tuples pk blocks idx [(h, tid, pos)])
       (\<lambda>(n, idx', blocks'). ret (idx', blocks'))"

text \<open>
  The test of \<open>pg_tre_pending_maybe_merge\<close>: whether an insert that left \<open>n_pending\<close> entries
  tries to merge. The product is the 64-bit one of the code.
\<close>

definition pending_over_limit :: "int \<Rightarrow> uint64 \<Rightarrow> bool" where
  "pending_over_limit limit_kb n_pending \<longleftrightarrow>
     \<not> (limit_kb \<le> 0 \<or> n_pending * 24 \<le> word_of_int limit_kb * 1024)"

section \<open>Reading\<close>

type_synonym 'c pending_callback = "uint64 \<Rightarrow> ItemPointer \<Rightarrow> uint32 \<Rightarrow> 'c \<Rightarrow> 'c outcome"

definition visit_entries ::
    "nat \<Rightarrow> PgTreTidPacking \<Rightarrow> 'c pending_callback \<Rightarrow> PgTrePendingEntry list \<Rightarrow> 'c \<Rightarrow> 'c outcome" where
  "visit_entries max_tuples pk callback es =
     ofold (\<lambda>e. callback (entry_hash e) (pg_tre_unpack_tid max_tuples pk (entry_tid e)) (position e)) es"

partial_function (option) scan_walk ::
    "nat \<Rightarrow> PgTreTidPacking \<Rightarrow> 'c pending_callback \<Rightarrow> (nat \<Rightarrow> tre_index) \<Rightarrow> nat \<Rightarrow> BlockNumber \<Rightarrow> 'c \<Rightarrow> 'c outcome" where
  "scan_walk max_tuples pk callback view i blk ctx =
     (if blk = InvalidBlockNumber then ret ctx
      else andThen (read_pending_page (view i) blk) (\<lambda>page.
        andThen (visit_entries max_tuples pk callback (take (pend_n page) (pend_entries page)) ctx) (\<lambda>ctx'.
          scan_walk max_tuples pk callback view (Suc i) (next_page page) ctx')))"

definition pg_tre_pending_scan ::
    "nat \<Rightarrow> PgTreTidPacking \<Rightarrow> (nat \<Rightarrow> tre_index) \<Rightarrow> 'c pending_callback \<Rightarrow> 'c \<Rightarrow> 'c outcome" where
  "pg_tre_pending_scan max_tuples pk view callback ctx =
     andThen (pg_tre_meta_read (view 0)) (\<lambda>m. scan_walk max_tuples pk callback view 1 (pending_head m) ctx)"

section \<open>The scan of a merge, bounded by a watermark\<close>

record watermark =
  wm_head :: BlockNumber
  wm_tail :: BlockNumber
  wm_tail_n :: nat

partial_function (option) watermark_walk ::
    "nat \<Rightarrow> PgTreTidPacking \<Rightarrow> 'c pending_callback \<Rightarrow> watermark \<Rightarrow> (nat \<Rightarrow> tre_index) \<Rightarrow> nat \<Rightarrow> BlockNumber
      \<Rightarrow> 'c \<Rightarrow> BlockNumber list \<Rightarrow> ('c \<times> BlockNumber list) outcome" where
  "watermark_walk max_tuples pk callback wm view i blk ctx consumed =
     (if blk = InvalidBlockNumber then ret (ctx, consumed)
      else andThen (read_pending_page (view i) blk) (\<lambda>page.
        let n = (if blk = wm_tail wm \<and> pend_n page > wm_tail_n wm then wm_tail_n wm else pend_n page)
        in andThen (visit_entries max_tuples pk callback (take n (pend_entries page)) ctx) (\<lambda>ctx'.
             let consumed' = (if blk \<noteq> wm_tail wm then consumed @ [blk] else consumed)
             in if blk = wm_tail wm then ret (ctx', consumed')
                else watermark_walk max_tuples pk callback wm view (Suc i) (next_page page) ctx' consumed')))"

definition pg_tre_pending_scan_watermark ::
    "nat \<Rightarrow> PgTreTidPacking \<Rightarrow> (nat \<Rightarrow> tre_index) \<Rightarrow> 'c pending_callback \<Rightarrow> 'c
      \<Rightarrow> (watermark \<times> 'c \<times> BlockNumber list) outcome" where
  "pg_tre_pending_scan_watermark max_tuples pk view callback ctx =
     andThen (pg_tre_meta_read (view 0)) (\<lambda>m.
       if pending_head m = InvalidBlockNumber
       then ret (\<lparr> wm_head = InvalidBlockNumber, wm_tail = InvalidBlockNumber, wm_tail_n = 0 \<rparr>, ctx, [])
       else andThen (read_pending_page (view 1) (pending_tail m)) (\<lambda>tpage.
         let wm = \<lparr> wm_head = pending_head m, wm_tail = pending_tail m, wm_tail_n = pend_n tpage \<rparr>
         in andThen (watermark_walk max_tuples pk callback wm view 2 (pending_head m) ctx []) (\<lambda>(ctx', consumed).
              ret (wm, ctx', consumed))))"

section \<open>Finalising a merge\<close>

text \<open>The number of entries on the pages from \<open>b\<close> on.\<close>

partial_function (option) survivor_tally :: "tre_index \<Rightarrow> BlockNumber \<Rightarrow> uint64 \<Rightarrow> uint64 outcome" where
  "survivor_tally idx b acc =
     (if b = InvalidBlockNumber then ret acc
      else andThen (read_pending_page idx b) (\<lambda>page.
        survivor_tally idx (next_page page) (acc + word_of_nat (pend_n page))))"

text \<open>The difference of two counters of 32 bits, with its wrap-around.\<close>

definition sub32 :: "nat \<Rightarrow> nat \<Rightarrow> nat" where
  "sub32 a b = unat (word_of_nat a - word_of_nat b :: uint32)"

definition compact_tail :: "watermark \<Rightarrow> nat \<Rightarrow> PgTrePendingPage \<Rightarrow> PgTrePendingPage" where
  "compact_tail wm survive p =
     p\<lparr> pend_entries := (if wm_tail_n wm > 0 \<and> survive > 0
           then take survive (drop (wm_tail_n wm) (pend_entries p)) @ drop survive (pend_entries p)
           else pend_entries p),
        pend_n := survive, used_bytes := survive * 24 \<rparr>"

text \<open>Whether entries past the watermark exist; the code re-examines the tail under the meta lock.\<close>

definition rewind_needed :: "watermark \<Rightarrow> PgTreMetaPageData \<Rightarrow> PgTrePendingPage \<Rightarrow> bool" where
  "rewind_needed wm m tpage \<longleftrightarrow>
     pend_n tpage > wm_tail_n wm \<or> next_page tpage \<noteq> InvalidBlockNumber \<or> pending_tail m \<noteq> wm_tail wm"

definition swap_roots :: "BlockNumber \<Rightarrow> BlockNumber \<Rightarrow> uint64 \<Rightarrow> uint64 \<Rightarrow> bool \<Rightarrow> PgTreMetaPageData \<Rightarrow> PgTreMetaPageData" where
  "swap_roots new_root rng ntri ntup adds_trigram m =
     m\<lparr> surf_complete := (if adds_trigram then 0 else surf_complete m),
        root_upper := new_root, root_range := rng, n_trigrams := ntri, n_tuples_indexed := ntup \<rparr>"

text \<open>The result: the entries consumed, the blocks handed to the free log, the index.\<close>

definition finalize_merge ::
    "tre_index \<Rightarrow> BlockNumber \<Rightarrow> BlockNumber \<Rightarrow> uint64 \<Rightarrow> uint64 \<Rightarrow> watermark \<Rightarrow> BlockNumber list \<Rightarrow> bool
      \<Rightarrow> (uint64 \<times> BlockNumber list \<times> tre_index) outcome" where
  "finalize_merge idx new_root rng ntri ntup wm consumed_pages adds_trigram =
     (let m = meta_page idx;
          drop_all = (\<lambda>freed. ret (pending_n_entries m, freed,
             idx\<lparr> meta_page := swap_roots new_root rng ntri ntup adds_trigram
                    (m\<lparr> pending_head := InvalidBlockNumber, pending_tail := InvalidBlockNumber,
                       pending_n_entries := 0 \<rparr>) \<rparr>))
      in if wm_tail wm = InvalidBlockNumber then drop_all consumed_pages
         else andThen (read_pending_page idx (wm_tail wm)) (\<lambda>tpage.
           if \<not> rewind_needed wm m tpage then drop_all (consumed_pages @ [wm_tail wm])
           else
             let survive = sub32 (pend_n tpage) (wm_tail_n wm)
             in andThen (survivor_tally idx (next_page tpage) (word_of_nat survive)) (\<lambda>surviving_total.
                  ret (if pending_n_entries m \<ge> surviving_total then pending_n_entries m - surviving_total else 0,
                       consumed_pages,
                       idx\<lparr> pending_pages := (pending_pages idx)(wm_tail wm \<mapsto> compact_tail wm survive tpage),
                            meta_page := swap_roots new_root rng ntri ntup adds_trigram
                              (m\<lparr> pending_head := wm_tail wm, pending_n_entries := surviving_total \<rparr>) \<rparr>))))"

end
