(* ===== verification/Surf.thy ===== *)
theory Surf
  imports Prelude
begin

text \<open>
  \<open>src/util/surf.c\<close>: the succinct range filter over 64-bit trigram keys, a byte trie of
  depth eight in the LOUDS-Sparse encoding, with its rank/select bit vectors, the builder,
  and the point and range queries.

  The two bit-counting functions are the server's (\<open>port/pg_bitutils.h\<close>): the fields of
  \<open>bitutils\<close>, with their documented meaning as the predicate \<open>bitutils_ok\<close>. Positions are
  natural numbers; \<open>UINT32_MAX\<close> is the C code's "no such bit". A key range \<open>[start, end)\<close> of
  the sorted key array is the list of its keys.
\<close>

record bitutils =
  pg_popcount64 :: "uint64 \<Rightarrow> nat"
  pg_rightmost_one_pos64 :: "uint64 \<Rightarrow> nat"

definition bitutils_ok :: "bitutils \<Rightarrow> bool" where
  "bitutils_ok bu \<longleftrightarrow>
     (\<forall>w. pg_popcount64 bu w = card {n. bit w n}) \<and>
     (\<forall>w. w \<noteq> 0 \<longrightarrow> bit w (pg_rightmost_one_pos64 bu w) \<and> (\<forall>n. bit w n \<longrightarrow> pg_rightmost_one_pos64 bu w \<le> n))"

definition SURF_KEYLEN :: nat where "SURF_KEYLEN = 8"
definition UINT32_MAX :: nat where "UINT32_MAX = 4294967295"

record SurfBitvec =
  words :: "uint64 list"
  rank :: "nat list"
  nbits :: nat

record PgTreSurf =
  n_labels :: nat
  n_nodes :: nat
  n_keys :: nat
  labels :: "uint8 list"
  has_child :: SurfBitvec
  louds :: SurfBitvec

section \<open>Bit vectors\<close>

definition bv_nwords :: "nat \<Rightarrow> nat" where
  "bv_nwords nb = (let nw = (nb + 63) div 64 in if nw = 0 then 1 else nw)"

definition bv_init :: "nat \<Rightarrow> SurfBitvec" where
  "bv_init nb = \<lparr> words = replicate (bv_nwords nb) 0, rank = [], nbits = nb \<rparr>"

definition bv_get :: "SurfBitvec \<Rightarrow> nat \<Rightarrow> bool" where
  "bv_get bv i \<longleftrightarrow> drop_bit (i mod 64) (words bv ! (i div 64)) AND 1 \<noteq> 0"

primrec rank_table :: "bitutils \<Rightarrow> nat \<Rightarrow> uint64 list \<Rightarrow> nat list" where
  "rank_table bu ac [] = [ac]"
| "rank_table bu ac (w # ws) = ac # rank_table bu (ac + pg_popcount64 bu w) ws"

definition bv_build_rank :: "bitutils \<Rightarrow> SurfBitvec \<Rightarrow> SurfBitvec" where
  "bv_build_rank bu bv = bv\<lparr> rank := rank_table bu 0 (words bv) \<rparr>"

definition bv_rank1 :: "bitutils \<Rightarrow> SurfBitvec \<Rightarrow> nat \<Rightarrow> nat" where
  "bv_rank1 bu bv i =
     (let w = i div 64; off = i mod 64
      in if i = 0 then 0
         else (let word = (if off \<noteq> 0 then (words bv ! w) AND (push_bit off 1 - 1) else 0)
               in rank bv ! w + pg_popcount64 bu word))"

text \<open>The binary search for the word whose prefix rank first reaches \<open>k\<close>.\<close>

function select_word :: "nat list \<Rightarrow> nat \<Rightarrow> nat \<Rightarrow> nat \<Rightarrow> nat" where
  "select_word rk k lo hi =
     (if lo < hi
      then (let mid = (lo + hi) div 2
            in if rk ! (mid + 1) < k then select_word rk k (mid + 1) hi else select_word rk k lo mid)
      else lo)"
  by pat_completeness auto
termination
  by (relation "measure (\<lambda>(rk, k, lo, hi). hi - lo)") auto

declare select_word.simps [simp del]

text \<open>The loop over the set bits of one word, each round clearing the lowest.\<close>

lemma clear_lowest_less: "w \<noteq> 0 \<Longrightarrow> unat (w AND (w - 1)) < unat (w :: uint64)"
proof -
  assume "w \<noteq> 0"
  have "w AND (w - 1) \<le> w - 1" by (simp add: word_and_le1)
  moreover have "w - 1 < w" using \<open>w \<noteq> 0\<close> by (simp add: word_less_nat_alt unat_minus_one unat_gt_0)
  ultimately show ?thesis by (simp add: word_less_nat_alt word_le_nat_alt)
qed

function select_bit :: "bitutils \<Rightarrow> uint64 \<Rightarrow> nat \<Rightarrow> nat option" where
  "select_bit bu word need =
     (if word = 0 then None
      else (let tz = pg_rightmost_one_pos64 bu word
            in if need - 1 = 0 then Some tz else select_bit bu (word AND (word - 1)) (need - 1)))"
  by pat_completeness auto
termination
  by (relation "measure (\<lambda>(bu, word, need). unat word)") (auto simp: clear_lowest_less)

declare select_bit.simps [simp del]

definition bv_select1 :: "bitutils \<Rightarrow> SurfBitvec \<Rightarrow> nat \<Rightarrow> nat" where
  "bv_select1 bu bv k =
     (if k = 0 then UINT32_MAX
      else (let w = select_word (rank bv) k 0 (length (words bv))
            in if w \<ge> length (words bv) then UINT32_MAX
               else (case select_bit bu (words bv ! w) (k - rank bv ! w) of
                       None \<Rightarrow> UINT32_MAX
                     | Some b \<Rightarrow> w * 64 + b)))"

section \<open>Navigation\<close>

definition surf_node_first :: "bitutils \<Rightarrow> PgTreSurf \<Rightarrow> nat \<Rightarrow> nat" where
  "surf_node_first bu s node = bv_select1 bu (louds s) (node + 1)"

definition surf_node_end :: "bitutils \<Rightarrow> PgTreSurf \<Rightarrow> nat \<Rightarrow> nat" where
  "surf_node_end bu s node =
     (let nxt = bv_select1 bu (louds s) (node + 2) in if nxt = UINT32_MAX then n_labels s else nxt)"

definition surf_child_node :: "bitutils \<Rightarrow> PgTreSurf \<Rightarrow> nat \<Rightarrow> nat" where
  "surf_child_node bu s pos = bv_rank1 bu (has_child s) (pos + 1)"

text \<open>Byte \<open>d\<close> of a key, most significant first.\<close>

definition key_byte :: "uint64 \<Rightarrow> nat \<Rightarrow> uint8" where
  "key_byte key d = ucast (drop_bit (8 * (SURF_KEYLEN - 1 - d)) key)"

text \<open>The first position in \<open>[p, hi)\<close> whose label is at least \<open>b\<close>; \<open>hi\<close> if there is none.\<close>

function label_ge :: "uint8 list \<Rightarrow> uint8 \<Rightarrow> nat \<Rightarrow> nat \<Rightarrow> nat" where
  "label_ge ls b p hi = (if p < hi then (if ls ! p \<ge> b then p else label_ge ls b (p + 1) hi) else p)"
  by pat_completeness auto
termination
  by (relation "measure (\<lambda>(ls, b, p, hi). hi - p)") auto

declare label_ge.simps [simp del]

section \<open>Point query\<close>

text \<open>The walk from depth \<open>d\<close>; \<open>n\<close> counts the remaining depths.\<close>

primrec may_contain_walk :: "bitutils \<Rightarrow> PgTreSurf \<Rightarrow> uint64 \<Rightarrow> nat \<Rightarrow> nat \<Rightarrow> bool" where
  "may_contain_walk bu s key 0 node = False"
| "may_contain_walk bu s key (Suc n) node =
     (let d = SURF_KEYLEN - 1 - n;
          lo = surf_node_first bu s node;
          hi = surf_node_end bu s node;
          p = label_ge (labels s) (key_byte key d) lo hi
      in if p \<ge> hi \<or> labels s ! p \<noteq> key_byte key d then False
         else if d = SURF_KEYLEN - 1 then \<not> bv_get (has_child s) p
         else if \<not> bv_get (has_child s) p then False
         else may_contain_walk bu s key n (surf_child_node bu s p))"

definition pg_tre_surf_may_contain :: "bitutils \<Rightarrow> PgTreSurf \<Rightarrow> uint64 \<Rightarrow> bool" where
  "pg_tre_surf_may_contain bu s key =
     (if n_labels s = 0 then False else may_contain_walk bu s key SURF_KEYLEN 0)"

section \<open>Range query\<close>

text \<open>The key spelled by the labels chosen at depths \<open>0 \<dots> d\<close>.\<close>

definition acc_key :: "uint8 list \<Rightarrow> uint64" where
  "acc_key ac = foldr (\<lambda>i key. key OR push_bit (8 * (SURF_KEYLEN - 1 - i)) (ucast (ac ! i))) [0..<length ac] 0"

text \<open>
  \<open>surf_min_below\<close>: the leftmost path below the edge at \<open>pos\<close>; \<open>ac\<close> holds the labels down to
  that edge, so its length is \<open>d + 1\<close>, and the recursion is on the depths left.
\<close>

primrec min_below_walk :: "bitutils \<Rightarrow> PgTreSurf \<Rightarrow> nat \<Rightarrow> nat \<Rightarrow> uint8 list \<Rightarrow> uint64 option" where
  "min_below_walk bu s 0 pos ac = (if \<not> bv_get (has_child s) pos then Some (acc_key ac) else None)"
| "min_below_walk bu s (Suc n) pos ac =
     (if \<not> bv_get (has_child s) pos then Some (acc_key ac)
      else (let clo = surf_node_first bu s (surf_child_node bu s pos)
            in min_below_walk bu s n clo (ac @ [labels s ! clo])))"

definition surf_min_below :: "bitutils \<Rightarrow> PgTreSurf \<Rightarrow> nat \<Rightarrow> uint8 list \<Rightarrow> uint64 option" where
  "surf_min_below bu s pos ac = min_below_walk bu s (SURF_KEYLEN - length ac) pos ac"

text \<open>
  The backtracking loop over the recorded path, deepest entry first: each entry is a node,
  the position chosen there (the node's end when exhausted) and the labels above it.
\<close>

fun backtrack :: "bitutils \<Rightarrow> PgTreSurf \<Rightarrow> (nat \<times> nat \<times> uint8 list) list \<Rightarrow> uint64 option" where
  "backtrack bu s [] = None"
| "backtrack bu s ((node, p, ac) # st) =
     (let nhi = surf_node_end bu s node;
          np = (if p = nhi then nhi else p + 1)
      in if np < nhi then surf_min_below bu s np (ac @ [labels s ! np]) else backtrack bu s st)"

text \<open>Phase one: match \<open>lo\<close> byte by byte, recording the path; \<open>n\<close> counts the remaining depths.\<close>

primrec successor_walk ::
    "bitutils \<Rightarrow> PgTreSurf \<Rightarrow> uint64 \<Rightarrow> nat \<Rightarrow> nat \<Rightarrow> uint8 list \<Rightarrow> (nat \<times> nat \<times> uint8 list) list \<Rightarrow> uint64 option" where
  "successor_walk bu s lo 0 node ac st = backtrack bu s st"
| "successor_walk bu s lo (Suc n) node ac st =
     (let d = SURF_KEYLEN - 1 - n;
          nlo = surf_node_first bu s node;
          nhi = surf_node_end bu s node;
          p = label_ge (labels s) (key_byte lo d) nlo nhi
      in if p \<ge> nhi then backtrack bu s ((node, nhi, ac) # st)
         else if labels s ! p \<noteq> key_byte lo d then surf_min_below bu s p (ac @ [labels s ! p])
         else if d = SURF_KEYLEN - 1 \<and> \<not> bv_get (has_child s) p then Some lo
         else if \<not> bv_get (has_child s) p then backtrack bu s ((node, p, ac) # st)
         else successor_walk bu s lo n (surf_child_node bu s p) (ac @ [labels s ! p])
                ((node, p, ac) # st))"

definition surf_successor :: "bitutils \<Rightarrow> PgTreSurf \<Rightarrow> uint64 \<Rightarrow> uint64 option" where
  "surf_successor bu s lo = (if n_labels s = 0 then None else successor_walk bu s lo SURF_KEYLEN 0 [] [])"

definition pg_tre_surf_range_overlaps :: "bitutils \<Rightarrow> PgTreSurf \<Rightarrow> uint64 \<Rightarrow> uint64 \<Rightarrow> bool" where
  "pg_tre_surf_range_overlaps bu s lo hi =
     (if n_labels s = 0 then False
      else if lo > hi then False
      else (case surf_successor bu s lo of None \<Rightarrow> False | Some succ \<Rightarrow> succ \<le> hi))"

section \<open>Build\<close>

record surf_build =
  b_labels :: "uint8 list"
  b_hc :: "bool list"
  b_ld :: "bool list"
  b_next :: "uint64 list list"
  b_nodes :: nat

text \<open>The edges of one node: one label per group of keys that share the byte at this depth.\<close>

function emit_node :: "nat \<Rightarrow> bool \<Rightarrow> uint64 list \<Rightarrow> surf_build \<Rightarrow> surf_build" where
  "emit_node depth first_in_node [] b = b"
| "emit_node depth first_in_node (k # ks) b =
     (let byte = key_byte k depth;
          grp = k # takeWhile (\<lambda>x. key_byte x depth = byte) ks;
          hc = (depth < SURF_KEYLEN - 1)
      in emit_node depth False (dropWhile (\<lambda>x. key_byte x depth = byte) ks)
           (b\<lparr> b_labels := b_labels b @ [byte], b_ld := b_ld b @ [first_in_node], b_hc := b_hc b @ [hc],
              b_next := (if hc then b_next b @ [grp] else b_next b) \<rparr>))"
  by pat_completeness auto
termination
  by (relation "measure (\<lambda>(depth, f, ks, b). length ks)") (auto simp: length_dropWhile_le le_imp_less_Suc)

definition emit_level :: "nat \<Rightarrow> uint64 list list \<Rightarrow> surf_build \<Rightarrow> surf_build" where
  "emit_level depth cur b =
     fold (\<lambda>ks b. (emit_node depth True ks b)\<lparr> b_nodes := b_nodes b + 1 \<rparr>) cur b"

text \<open>The loop over the depths, while there are nodes; \<open>n\<close> counts the remaining depths.\<close>

primrec build_levels :: "nat \<Rightarrow> uint64 list list \<Rightarrow> surf_build \<Rightarrow> surf_build" where
  "build_levels 0 cur b = b"
| "build_levels (Suc n) cur b =
     (if cur = [] then b
      else (let b' = emit_level (SURF_KEYLEN - 1 - n) cur (b\<lparr> b_next := [] \<rparr>)
            in build_levels n (b_next b') b'))"

text \<open>Copying a bit array into the words of a bit vector (little-endian).\<close>

definition bv_of_bits :: "bool list \<Rightarrow> SurfBitvec" where
  "bv_of_bits bs =
     (bv_init (length bs))
       \<lparr> words := fold (\<lambda>i ws. if bs ! i then ws[i div 64 := (ws ! (i div 64)) OR push_bit (i mod 64) 1] else ws)
                    [0..<length bs] (replicate (bv_nwords (length bs)) 0) \<rparr>"

definition pg_tre_surf_build :: "bitutils \<Rightarrow> uint64 list \<Rightarrow> PgTreSurf" where
  "pg_tre_surf_build bu keys =
     (if keys = []
      then \<lparr> n_labels = 0, n_nodes = 0, n_keys = 0, labels = [],
             has_child = bv_build_rank bu (bv_init 0), louds = bv_build_rank bu (bv_init 0) \<rparr>
      else (let b = build_levels SURF_KEYLEN [keys]
                      \<lparr> b_labels = [], b_hc = [], b_ld = [], b_next = [], b_nodes = 0 \<rparr>
            in \<lparr> n_labels = length (b_labels b), n_nodes = b_nodes b, n_keys = length keys,
                 labels = b_labels b,
                 has_child = bv_build_rank bu (bv_of_bits (b_hc b)),
                 louds = bv_build_rank bu (bv_of_bits (b_ld b)) \<rparr>))"

end
