(* ===== verification/Surf_Bits.thy ===== *)
theory Surf_Bits
  imports Surf
begin

text \<open>
  The bit vectors of the range filter against their specification: \<open>bv_get\<close>, \<open>bv_rank1\<close> and
  \<open>bv_select1\<close> on the vector built from a list of booleans are lookup, prefix count and its
  inverse.
\<close>

definition cnt :: "bool list \<Rightarrow> nat \<Rightarrow> nat" where
  "cnt bs i = card {j. j < i \<and> j < length bs \<and> bs ! j}"

lemma finite_cnt: "finite {j :: nat. j < i \<and> P j}"
  by simp

lemma cnt_0 [simp]: "cnt bs 0 = 0"
  by (simp add: cnt_def)

lemma cnt_Suc: "cnt bs (Suc i) = cnt bs i + (if i < length bs \<and> bs ! i then 1 else 0)"
proof -
  have "{j. j < Suc i \<and> j < length bs \<and> bs ! j} =
    (if i < length bs \<and> bs ! i then insert i {j. j < i \<and> j < length bs \<and> bs ! j}
     else {j. j < i \<and> j < length bs \<and> bs ! j})"
    by (auto simp: less_Suc_eq)
  then show ?thesis by (simp add: cnt_def)
qed

lemma cnt_mono: "i \<le> j \<Longrightarrow> cnt bs i \<le> cnt bs j"
  unfolding cnt_def by (rule card_mono) auto

lemma cnt_strict: "p < q \<Longrightarrow> p < length bs \<Longrightarrow> bs ! p \<Longrightarrow> cnt bs p < cnt bs q"
  using cnt_mono[of "Suc p" q bs] by (simp add: cnt_Suc)

lemma cnt_inj:
  "p < length bs \<Longrightarrow> bs ! p \<Longrightarrow> q < length bs \<Longrightarrow> bs ! q \<Longrightarrow> cnt bs p = cnt bs q \<Longrightarrow> p = q"
  using cnt_strict[of p q bs] cnt_strict[of q p bs] by (cases p q rule: linorder_cases) auto

lemma cnt_beyond: "length bs \<le> i \<Longrightarrow> cnt bs i = cnt bs (length bs)"
  unfolding cnt_def by (rule arg_cong[where f = card]) auto

section \<open>The words\<close>

definition bit_words :: "bool list \<Rightarrow> nat \<Rightarrow> uint64 list" where
  "bit_words bs m =
     fold (\<lambda>i ws. if bs ! i then ws[i div 64 := (ws ! (i div 64)) OR push_bit (i mod 64) 1] else ws)
       [0..<m] (replicate (bv_nwords (length bs)) 0)"

lemma bv_of_bits_sel [simp]:
  "words (bv_build_rank bu (bv_of_bits bs)) = bit_words bs (length bs)"
  "rank (bv_build_rank bu (bv_of_bits bs)) = rank_table bu 0 (bit_words bs (length bs))"
  by (simp_all add: bv_build_rank_def bv_of_bits_def bit_words_def)

lemma length_bit_words [simp]: "length (bit_words bs m) = bv_nwords (length bs)"
  by (induction m) (auto simp: bit_words_def)

lemma div64_less: "i < nb \<Longrightarrow> i div 64 < bv_nwords nb"
  by (auto simp: bv_nwords_def Let_def)

lemma nwords_ge: "nb \<le> bv_nwords nb * 64"
proof -
  have "nb \<le> (nb + 63) div 64 * 64" by presburger
  then show ?thesis by (auto simp: bv_nwords_def Let_def)
qed

lemma bit_words_bit:
  assumes "m \<le> length bs" and "w < bv_nwords (length bs)" and "n < 64"
  shows "bit (bit_words bs m ! w) n \<longleftrightarrow> w * 64 + n < m \<and> bs ! (w * 64 + n)"
  using assms(1)
proof (induction m)
  case 0
  then show ?case using assms(2) by (simp add: bit_words_def)
next
  case (Suc m)
  let ?ws = "bit_words bs m"
  have step: "bit_words bs (Suc m) =
      (if bs ! m then ?ws[m div 64 := (?ws ! (m div 64)) OR push_bit (m mod 64) 1] else ?ws)"
    by (simp add: bit_words_def)
  have md: "m div 64 < length ?ws" using Suc.prems div64_less[of m "length bs"] by simp
  have eq: "w * 64 + n = m \<longleftrightarrow> w = m div 64 \<and> n = m mod 64" using assms(3) by auto
  show ?case
  proof (cases "bs ! m \<and> w = m div 64")
    case True
    have "bit (bit_words bs (Suc m) ! w) n \<longleftrightarrow> bit (?ws ! w) n \<or> n = m mod 64"
      using True md assms(3) by (auto simp: step bit_simps)
    then show ?thesis using Suc eq True by (auto simp: less_Suc_eq)
  next
    case False
    then have "bit_words bs (Suc m) ! w = ?ws ! w" by (auto simp: step)
    then show ?thesis using Suc eq False by (auto simp: less_Suc_eq)
  qed
qed

lemma bv_get_bits:
  assumes "i < length bs"
  shows "bv_get (bv_build_rank bu (bv_of_bits bs)) i \<longleftrightarrow> bs ! i"
proof -
  have "drop_bit k (w :: uint64) AND 1 \<noteq> 0 \<longleftrightarrow> bit w k" for w k
    by (simp add: and_one_eq bit_iff_odd_drop_bit odd_iff_mod_2_eq_one)
  then show ?thesis
    using bit_words_bit[of "length bs" bs "i div 64" "i mod 64"] assms div64_less[OF assms]
    by (simp add: bv_get_def)
qed

section \<open>Rank\<close>

lemma cnt_window:
  assumes "w < bv_nwords (length bs)" and "m \<le> 64"
  shows "card {n. n < m \<and> bit (bit_words bs (length bs) ! w) n} + cnt bs (w * 64) = cnt bs (w * 64 + m)"
  using assms(2)
proof (induction m)
  case (Suc m)
  let ?P = "\<lambda>n. bit (bit_words bs (length bs) ! w) n"
  have "{n. n < Suc m \<and> ?P n} = (if ?P m then insert m {n. n < m \<and> ?P n} else {n. n < m \<and> ?P n})"
    by (auto simp: less_Suc_eq)
  then have "card {n. n < Suc m \<and> ?P n} = card {n. n < m \<and> ?P n} + (if ?P m then 1 else 0)" by simp
  moreover have "?P m \<longleftrightarrow> w * 64 + m < length bs \<and> bs ! (w * 64 + m)"
    using bit_words_bit[of "length bs" bs w m] assms(1) Suc.prems by simp
  ultimately show ?case using Suc by (simp add: cnt_Suc)
qed simp

lemma card_word_bits: "card {n. bit (w :: uint64) n} = card {n. n < 64 \<and> bit w n}"
  by (rule arg_cong[where f = card]) (auto dest: bit_imp_le_length)

lemma popcount_window:
  assumes "bitutils_ok bu" and "w < bv_nwords (length bs)"
  shows "pg_popcount64 bu (bit_words bs (length bs) ! w) + cnt bs (w * 64) = cnt bs (w * 64 + 64)"
  using assms cnt_window[of w bs 64] by (simp add: bitutils_ok_def card_word_bits)

lemma rank_table_length [simp]: "length (rank_table bu a ws) = Suc (length ws)"
  by (induction ws arbitrary: a) auto

lemma rank_table_nth:
  "w < length ws \<Longrightarrow> rank_table bu a ws ! Suc w = rank_table bu a ws ! w + pg_popcount64 bu (ws ! w)"
proof (induction ws arbitrary: a w)
  case (Cons x ws)
  then show ?case by (cases w; cases ws) auto
qed simp

lemma rank_table_0: "rank_table bu a ws ! 0 = a"
  by (cases ws) auto

lemma rank_cnt:
  assumes "bitutils_ok bu" and "w \<le> bv_nwords (length bs)"
  shows "rank_table bu 0 (bit_words bs (length bs)) ! w = cnt bs (w * 64)"
  using assms(2)
proof (induction w)
  case (Suc w)
  then show ?case using popcount_window[OF assms(1), of w bs]
    by (simp add: rank_table_nth add.commute)
qed (simp add: rank_table_0)

lemma bv_rank1_cnt:
  assumes "bitutils_ok bu" and "i \<le> length bs"
  shows "bv_rank1 bu (bv_build_rank bu (bv_of_bits bs)) i = cnt bs i"
proof -
  let ?w = "i div 64" and ?ws = "bit_words bs (length bs)"
  have w: "?w \<le> bv_nwords (length bs)"
  proof -
    have "i \<le> bv_nwords (length bs) * 64" using assms(2) nwords_ge[of "length bs"] by linarith
    then show ?thesis using div_le_mono[of i _ 64] by fastforce
  qed
  note rk = rank_cnt[OF assms(1) w]
  show ?thesis
  proof (cases "i mod 64 = 0")
    case True
    then have "?w * 64 = i" by presburger
    moreover have "pg_popcount64 bu 0 = 0" using assms(1) by (simp add: bitutils_ok_def)
    ultimately show ?thesis using True rk by (simp add: bv_rank1_def Let_def)
  next
    case False
    then have "i \<noteq> bv_nwords (length bs) * 64" by auto
    then have "i < bv_nwords (length bs) * 64" using assms(2) nwords_ge[of "length bs"] by linarith
    then have w: "?w < bv_nwords (length bs)" by (rule less_mult_imp_div_less)
    have "{n. bit ((?ws ! ?w) AND (push_bit (i mod 64) 1 - 1)) n} = {n. n < i mod 64 \<and> bit (?ws ! ?w) n}"
      by (auto simp: bit_simps simp flip: mask_eq_exp_minus_1)
    then have "pg_popcount64 bu ((?ws ! ?w) AND (push_bit (i mod 64) 1 - 1)) + cnt bs (?w * 64)
        = cnt bs (?w * 64 + i mod 64)"
      using assms(1) cnt_window[OF w, of "i mod 64"] by (simp add: bitutils_ok_def)
    moreover have "?w * 64 + i mod 64 = i" by presburger
    ultimately show ?thesis using False rk by (auto simp: bv_rank1_def Let_def)
  qed
qed

section \<open>Select\<close>

lemma select_word_least:
  assumes mono: "\<forall>v w. v \<le> w \<and> w \<le> N \<longrightarrow> rk ! v \<le> rk ! w"
  shows "lo \<le> hi \<Longrightarrow> hi \<le> N \<Longrightarrow> lo \<le> select_word rk k lo hi \<and> select_word rk k lo hi \<le> hi \<and>
     (\<forall>v. lo \<le> v \<and> v < select_word rk k lo hi \<longrightarrow> rk ! (v + 1) < k) \<and>
     (select_word rk k lo hi < hi \<longrightarrow> k \<le> rk ! (select_word rk k lo hi + 1))"
proof (induction "hi - lo" arbitrary: lo hi rule: less_induct)
  case less
  show ?case
  proof (cases "lo < hi")
    case True
    define mid where "mid = (lo + hi) div 2"
    have mid: "lo \<le> mid" "mid < hi" using True by (auto simp: mid_def)
    show ?thesis
    proof (cases "rk ! (mid + 1) < k")
      case lt: True
      have eq: "select_word rk k lo hi = select_word rk k (mid + 1) hi"
        using True lt by (simp add: select_word.simps[of rk k lo hi] Let_def mid_def)
      have low: "rk ! (v + 1) < k" if "v \<le> mid" for v
        using mono[rule_format, of "v + 1" "mid + 1"] that mid less.prems(2) lt by simp
      have "hi - (mid + 1) < hi - lo" using mid by simp
      from less.hyps[OF this] mid less.prems(2) have
        ih: "mid + 1 \<le> select_word rk k (mid + 1) hi" "select_word rk k (mid + 1) hi \<le> hi"
         "\<forall>v. mid + 1 \<le> v \<and> v < select_word rk k (mid + 1) hi \<longrightarrow> rk ! (v + 1) < k"
         "select_word rk k (mid + 1) hi < hi \<longrightarrow> k \<le> rk ! (select_word rk k (mid + 1) hi + 1)" by simp_all
      have "rk ! (v + 1) < k" if "v < select_word rk k (mid + 1) hi" for v
        using low[of v] ih(3) that by (cases "v \<le> mid") auto
      with ih(1,2,4) mid(1) show ?thesis unfolding eq by simp
    next
      case False
      have eq: "select_word rk k lo hi = select_word rk k lo mid"
        using True False by (simp add: select_word.simps[of rk k lo hi] Let_def mid_def)
      have "mid - lo < hi - lo" using mid by simp
      from less.hyps[OF this mid(1)] mid less.prems(2) have
        ih: "lo \<le> select_word rk k lo mid" "select_word rk k lo mid \<le> mid"
         "\<forall>v. lo \<le> v \<and> v < select_word rk k lo mid \<longrightarrow> rk ! (v + 1) < k"
         "select_word rk k lo mid < mid \<longrightarrow> k \<le> rk ! (select_word rk k lo mid + 1)" by simp_all
      have "k \<le> rk ! (select_word rk k lo mid + 1)"
        using ih(2,4) False by (cases "select_word rk k lo mid = mid") simp_all
      with ih(1-3) mid show ?thesis unfolding eq by simp
    qed
  next
    case False
    with less.prems show ?thesis by (simp add: select_word.simps)
  qed
qed

lemma clear_lowest_bits:
  fixes w :: uint64
  assumes "bit w t" and "\<forall>n. bit w n \<longrightarrow> t \<le> n"
  shows "bit (w AND (w - 1)) n \<longleftrightarrow> bit w n \<and> n \<noteq> t"
proof -
  let ?u = "unset_bit t w"
  have t: "t < 64" using assms(1) by (auto dest: bit_imp_le_length)
  have "w = ?u OR push_bit t 1" using assms(1) t by (auto intro!: bit_word_eqI simp: bit_simps)
  moreover have "?u + push_bit t 1 = ?u OR push_bit t 1"
    by (rule disjunctive_add) (auto simp: bit_simps)
  ultimately have "w - 1 = ?u + (push_bit t 1 - 1)" by (metis add_diff_eq)
  moreover have "?u + (push_bit t 1 - 1) = ?u OR (push_bit t 1 - 1)"
    by (rule disjunctive_add) (use assms(2) in \<open>auto simp: bit_simps simp flip: mask_eq_exp_minus_1\<close>)
  ultimately have "bit (w - 1) n \<longleftrightarrow> bit ?u n \<or> n < t \<and> n < 64"
    by (auto simp: bit_simps simp flip: mask_eq_exp_minus_1)
  then show ?thesis using assms(2) by (auto simp: bit_simps dest: bit_imp_le_length)
qed

lemma lowest_split:
  fixes w :: uint64
  assumes "bit w t" and "\<forall>n. bit w n \<longrightarrow> t \<le> n"
  shows "{n. bit w n} = insert t {n. bit (w AND (w - 1)) n}" and "t \<notin> {n. bit (w AND (w - 1)) n}"
    and "t < b \<Longrightarrow> {n. n < b \<and> bit w n} = insert t {n. n < b \<and> bit (w AND (w - 1)) n}"
  using assms(1) clear_lowest_bits[OF assms] by auto

lemma finite_bits: "finite {n. bit (w :: uint64) n}"
  by (rule finite_subset[of _ "{..<64}"]) (auto dest: bit_imp_le_length)

lemma select_bit_spec:
  assumes "bitutils_ok bu"
  shows "1 \<le> need \<Longrightarrow> need \<le> card {n. bit word n} \<Longrightarrow>
    \<exists>b. select_bit bu word need = Some b \<and> bit word b \<and> card {n. n < b \<and> bit word n} = need - 1"
proof (induction need arbitrary: word)
  case (Suc need)
  have ne: "word \<noteq> 0" using Suc.prems(2) by auto
  define t where "t = pg_rightmost_one_pos64 bu word"
  have t: "bit word t" "\<forall>n. bit word n \<longrightarrow> t \<le> n"
    using assms ne by (auto simp: bitutils_ok_def t_def)
  let ?w = "word AND (word - 1)"
  note split = lowest_split[OF t]
  show ?case
  proof (cases "need = 0")
    case True
    then have "select_bit bu word (Suc need) = Some t"
      using ne by (simp add: select_bit.simps[of bu word] t_def Let_def)
    moreover have "{n. n < t \<and> bit word n} = {}" using t(2) by auto
    ultimately show ?thesis using True t(1) by (simp del: Collect_empty_eq)
  next
    case False
    have "card {n. bit word n} = Suc (card {n. bit ?w n})"
      using split(1,2) finite_bits[of ?w] by simp
    with Suc.prems(2) have "need \<le> card {n. bit ?w n}" by simp
    from Suc.IH[OF _ this] False obtain b where b: "select_bit bu ?w need = Some b" "bit ?w b"
        "card {n. n < b \<and> bit ?w n} = need - 1" by auto
    have tb: "t < b" "bit word b" using b(2) clear_lowest_bits[OF t] t(2) le_neq_implies_less by auto
    have "card {n. n < b \<and> bit word n} = Suc (card {n. n < b \<and> bit ?w n})"
      unfolding split(3)[OF tb(1)] using split(2) by (simp add: finite_subset[OF _ finite_bits[of ?w]])
    moreover have "select_bit bu word (Suc need) = Some b"
      using ne False b(1) by (simp add: select_bit.simps[of bu word] Let_def)
    ultimately show ?thesis using b(3) tb(2) False by simp
  qed
qed simp

text \<open>\<open>bv_select1 k\<close> is the position of the \<open>k\<close>-th set bit.\<close>

lemma bv_select1_found:
  assumes "bitutils_ok bu" and "p < length bs" and "bs ! p"
  shows "bv_select1 bu (bv_build_rank bu (bv_of_bits bs)) (Suc (cnt bs p)) = p"
proof -
  let ?ws = "bit_words bs (length bs)" and ?k = "Suc (cnt bs p)"
  let ?rk = "rank_table bu 0 ?ws" and ?nw = "bv_nwords (length bs)"
  define w where "w = select_word ?rk ?k 0 ?nw"
  have rk: "?rk ! v = cnt bs (v * 64)" if "v \<le> ?nw" for v using rank_cnt[OF assms(1) that] .
  have mono: "\<forall>v u. v \<le> u \<and> u \<le> ?nw \<longrightarrow> ?rk ! v \<le> ?rk ! u" by (simp add: rk cnt_mono)
  have sw: "\<forall>v. v < w \<longrightarrow> ?rk ! (v + 1) < ?k" "w < ?nw \<longrightarrow> ?k \<le> ?rk ! (w + 1)"
    using select_word_least[OF mono, of 0 ?nw ?k] by (simp_all add: w_def)
  have pd: "p div 64 < ?nw" using div64_less[OF assms(2)] .
  have "cnt bs p < cnt bs (p div 64 * 64 + 64)" 
    using assms(2,3) by (intro cnt_strict) presburger+
  then have "\<not> ?rk ! (p div 64 + 1) < ?k" using rk[of "p div 64 + 1"] pd by (simp add: add.commute)
  then have wle: "w \<le> p div 64" using sw(1) by (meson not_le)
  have "cnt bs (p div 64 * 64) \<le> cnt bs p" by (rule cnt_mono) simp
  have weq: "w = p div 64"
  proof (rule ccontr)
    assume "w \<noteq> p div 64"
    with wle have "w + 1 \<le> p div 64" by simp
    then have "cnt bs ((w + 1) * 64) \<le> cnt bs p" by (intro cnt_mono) (metis div_times_less_eq_dividend le_trans mult_le_mono1)
    moreover have "?k \<le> ?rk ! (w + 1)" using sw(2) wle pd by simp
    ultimately show False using rk[of "w + 1"] wle pd by simp
  qed
  have base: "?rk ! w = cnt bs (w * 64)" using rk pd weq by simp
  have bit: "bit (?ws ! w) (p mod 64)"
    using bit_words_bit[of "length bs" bs w "p mod 64"] pd assms(2,3) by (simp add: weq)
  have below: "card {n. n < p mod 64 \<and> bit (?ws ! w) n} + cnt bs (w * 64) = cnt bs p"
    using cnt_window[of w bs "p mod 64"] pd by (simp add: weq)
  have fin: "finite {n. n < q \<and> bit (?ws ! w) n}" for q by simp
  have "card {n. n < p mod 64 \<and> bit (?ws ! w) n} < card {n. bit (?ws ! w) n}"
    by (rule psubset_card_mono[OF finite_bits]) (use bit in auto)
  then have "1 \<le> ?k - ?rk ! w" "?k - ?rk ! w \<le> card {n. bit (?ws ! w) n}"
    using below base by linarith+
  then obtain b where b: "select_bit bu (?ws ! w) (?k - ?rk ! w) = Some b" "bit (?ws ! w) b"
      "card {n. n < b \<and> bit (?ws ! w) n} = ?k - ?rk ! w - 1"
    using select_bit_spec[OF assms(1)] by blast
  have "card {n. n < b \<and> bit (?ws ! w) n} = card {n. n < p mod 64 \<and> bit (?ws ! w) n}"
    using b(3) below base by simp
  then have "b = p mod 64"
  proof (cases b "p mod 64" rule: linorder_cases)
    case less
    have "card {n. n < b \<and> bit (?ws ! w) n} < card {n. n < p mod 64 \<and> bit (?ws ! w) n}"
      by (rule psubset_card_mono[OF fin]) (use less b(2) in auto)
    then show "card {n. n < b \<and> bit (?ws ! w) n} = card {n. n < p mod 64 \<and> bit (?ws ! w) n} \<Longrightarrow> ?thesis" by simp
  next
    case greater
    have "card {n. n < p mod 64 \<and> bit (?ws ! w) n} < card {n. n < b \<and> bit (?ws ! w) n}"
      by (rule psubset_card_mono[OF fin]) (use greater bit in auto)
    then show "card {n. n < b \<and> bit (?ws ! w) n} = card {n. n < p mod 64 \<and> bit (?ws ! w) n} \<Longrightarrow> ?thesis" by simp
  qed
  with b(1) pd weq show ?thesis by (simp add: bv_select1_def Let_def flip: w_def)
qed

lemma bv_select1_none:
  assumes "bitutils_ok bu" and "cnt bs (length bs) < k"
  shows "bv_select1 bu (bv_build_rank bu (bv_of_bits bs)) k = UINT32_MAX"
proof -
  let ?ws = "bit_words bs (length bs)"
  let ?rk = "rank_table bu 0 ?ws" and ?nw = "bv_nwords (length bs)"
  define w where "w = select_word ?rk k 0 ?nw"
  have rk: "?rk ! v = cnt bs (v * 64)" if "v \<le> ?nw" for v using rank_cnt[OF assms(1) that] .
  have mono: "\<forall>v u. v \<le> u \<and> u \<le> ?nw \<longrightarrow> ?rk ! v \<le> ?rk ! u" by (simp add: rk cnt_mono)
  have sw: "w < ?nw \<longrightarrow> k \<le> ?rk ! (w + 1)"
    using select_word_least[OF mono, of 0 ?nw k] by (simp add: w_def)
  have small: "cnt bs i < k" for i
    using assms(2) cnt_mono[of i "length bs" bs] cnt_beyond[of bs i] by (cases "i \<le> length bs") auto
  have "\<not> w < ?nw"
  proof
    assume "w < ?nw"
    with sw have "k \<le> ?rk ! (w + 1)" by simp
    with rk[of "w + 1"] \<open>w < ?nw\<close> small show False by (simp add: not_less[symmetric])
  qed
  then show ?thesis by (simp add: bv_select1_def Let_def flip: w_def)
qed

end
