(* ===== verification/Surf_Trie.thy ===== *)
theory Surf_Trie
  imports Surf_Bits
begin

text \<open>
  The structure that \<open>pg_tre_surf_build\<close> encodes: the trie nodes in breadth-first order, each
  with its depth and its keys, and the navigation functions as moves between them.
\<close>

section \<open>Groups of keys by a byte\<close>

function groups :: "nat \<Rightarrow> uint64 list \<Rightarrow> (uint8 \<times> uint64 list) list" where
  "groups d [] = []"
| "groups d (k # ks) = (key_byte k d, k # takeWhile (\<lambda>x. key_byte x d = key_byte k d) ks)
     # groups d (dropWhile (\<lambda>x. key_byte x d = key_byte k d) ks)"
  by pat_completeness auto
termination
  by (relation "measure (\<lambda>(d, ks). length ks)") (auto simp: length_dropWhile_le le_imp_less_Suc)

lemma groups_concat: "concat (map snd (groups d ks)) = ks"
  by (induction d ks rule: groups.induct) auto

lemma groups_empty_iff [simp]: "groups d ks = [] \<longleftrightarrow> ks = []"
  by (cases ks) auto

lemma groups_mem:
  "(b, g) \<in> set (groups d ks) \<Longrightarrow> g \<noteq> [] \<and> set g \<subseteq> set ks \<and> (\<forall>k \<in> set g. key_byte k d = b)"
proof (induction d ks rule: groups.induct)
  case (2 d k ks)
  let ?P = "\<lambda>x. key_byte x d = key_byte k d"
  have sub: "set (takeWhile ?P ks) \<subseteq> set ks" "set (dropWhile ?P ks) \<subseteq> set ks"
    by (auto dest: set_takeWhileD set_dropWhileD)
  have tw: "\<forall>x \<in> set (takeWhile ?P ks). key_byte x d = key_byte k d" by (auto dest: set_takeWhileD)
  from 2(2) consider "b = key_byte k d" "g = k # takeWhile ?P ks" | "(b, g) \<in> set (groups d (dropWhile ?P ks))"
    by auto
  then show ?case
  proof cases
    case 1
    have "set g = insert k (set (takeWhile ?P ks))" using 1(2) by simp
    with sub(1) tw 1 show ?thesis by (metis insert_iff insert_mono list.distinct(1) list.simps(15))
  next
    case r: 2
    from 2(1)[OF r] sub(2) show ?thesis by (meson list.set_intros(2) subset_iff)
  qed
qed simp

definition first_flags :: "bool \<Rightarrow> nat \<Rightarrow> bool list" where
  "first_flags f n = (if n = 0 then [] else f # replicate (n - 1) False)"

lemma first_flags_False: "first_flags False n = replicate n False"
  by (cases n) (auto simp: first_flags_def)

lemma first_flags_Suc: "first_flags f (Suc n) = f # replicate n False"
  by (simp add: first_flags_def)

lemma length_first_flags [simp]: "length (first_flags f n) = n"
  by (simp add: first_flags_def)

section \<open>What the builder emits\<close>

lemma emit_node_groups:
  "emit_node d f ks b = b\<lparr> b_labels := b_labels b @ map fst (groups d ks),
     b_ld := b_ld b @ first_flags f (length (groups d ks)),
     b_hc := b_hc b @ replicate (length (groups d ks)) (d < SURF_KEYLEN - 1),
     b_next := b_next b @ (if d < SURF_KEYLEN - 1 then map snd (groups d ks) else []) \<rparr>"
proof (induction d f ks b rule: emit_node.induct)
  case (2 d f k ks b)
  then show ?case by (simp add: Let_def first_flags_Suc first_flags_False)
qed (simp add: first_flags_def)

lemma emit_level_groups:
  "emit_level d cur b = b\<lparr> b_labels := b_labels b @ concat (map (\<lambda>ks. map fst (groups d ks)) cur),
     b_ld := b_ld b @ concat (map (\<lambda>ks. first_flags True (length (groups d ks))) cur),
     b_hc := b_hc b @ concat (map (\<lambda>ks. replicate (length (groups d ks)) (d < SURF_KEYLEN - 1)) cur),
     b_next := b_next b @ (if d < SURF_KEYLEN - 1 then concat (map (\<lambda>ks. map snd (groups d ks)) cur) else []),
     b_nodes := b_nodes b + length cur \<rparr>"
proof (induction cur arbitrary: b)
  case (Cons ks cur)
  have "emit_level d (ks # cur) b = emit_level d cur ((emit_node d True ks b)\<lparr> b_nodes := b_nodes b + 1 \<rparr>)"
    by (simp add: emit_level_def)
  then show ?case by (simp add: Cons emit_node_groups)
qed (simp add: emit_level_def)

text \<open>The nodes, level after level, with their depths; \<open>n\<close> levels remain.\<close>

primrec trie_nodes :: "nat \<Rightarrow> uint64 list list \<Rightarrow> (nat \<times> uint64 list) list" where
  "trie_nodes 0 cur = []"
| "trie_nodes (Suc n) cur = map (Pair (SURF_KEYLEN - 1 - n)) cur
     @ trie_nodes n (concat (map (\<lambda>ks. map snd (groups (SURF_KEYLEN - 1 - n) ks)) cur))"

text \<open>The edges in order, with the depth of the node they leave.\<close>

definition edges :: "(nat \<times> uint64 list) list \<Rightarrow> (nat \<times> uint8 \<times> uint64 list) list" where
  "edges N = concat (map (\<lambda>(d, ks). map (Pair d) (groups d ks)) N)"

definition ld_bits :: "(nat \<times> uint64 list) list \<Rightarrow> bool list" where
  "ld_bits N = concat (map (\<lambda>(d, ks). first_flags True (length (groups d ks))) N)"

definition hc_bits :: "(nat \<times> uint64 list) list \<Rightarrow> bool list" where
  "hc_bits N = map (\<lambda>(d, b, g). d < SURF_KEYLEN - 1) (edges N)"

lemma edges_append [simp]: "edges (M @ N) = edges M @ edges N"
  by (simp add: edges_def)

lemma edges_Nil [simp]: "edges [] = []"
  by (simp add: edges_def)

lemma edges_Cons [simp]: "edges ((d, ks) # N) = map (Pair d) (groups d ks) @ edges N"
  by (simp add: edges_def)

lemma hc_bits_append: "hc_bits (M @ N) = hc_bits M @ hc_bits N"
  by (simp add: hc_bits_def)

lemma ld_bits_append: "ld_bits (M @ N) = ld_bits M @ ld_bits N"
  by (simp add: ld_bits_def)

lemma level_lists:
  "map (\<lambda>(d, b, g). b) (edges (map (Pair d) cur)) = concat (map (\<lambda>ks. map fst (groups d ks)) cur)"
  "hc_bits (map (Pair d) cur) = concat (map (\<lambda>ks. replicate (length (groups d ks)) (d < SURF_KEYLEN - 1)) cur)"
  "ld_bits (map (Pair d) cur) = concat (map (\<lambda>ks. first_flags True (length (groups d ks))) cur)"
  by (induction cur) (auto simp: hc_bits_def ld_bits_def comp_def map_replicate_const)

lemma trie_nodes_Nil [simp]: "trie_nodes n [] = []"
  by (induction n) auto

lemma build_levels_trie:
  "b_labels (build_levels n cur b) = b_labels b @ map (\<lambda>(d, b, g). b) (edges (trie_nodes n cur))
   \<and> b_ld (build_levels n cur b) = b_ld b @ ld_bits (trie_nodes n cur)
   \<and> b_hc (build_levels n cur b) = b_hc b @ hc_bits (trie_nodes n cur)
   \<and> b_nodes (build_levels n cur b) = b_nodes b + length (trie_nodes n cur)"
proof (induction n arbitrary: cur b)
  case (Suc n)
  show ?case
  proof (cases "cur = []")
    case True
    then show ?thesis by (simp add: ld_bits_def hc_bits_def)
  next
    case False
    define d where "d = SURF_KEYLEN - 1 - n"
    define b' where "b' = emit_level d cur (b\<lparr> b_next := [] \<rparr>)"
    have rec: "build_levels (Suc n) cur b = build_levels n (b_next b') b'"
      using False by (simp add: Let_def b'_def d_def)
    have nodes: "trie_nodes n (b_next b') = trie_nodes n (concat (map (\<lambda>ks. map snd (groups d ks)) cur))"
    proof (cases n)
      case (Suc m)
      then have "d < SURF_KEYLEN - 1" by (simp add: SURF_KEYLEN_def d_def)
      then show ?thesis by (simp add: b'_def emit_level_groups)
    qed simp
    have tn: "trie_nodes (Suc n) cur
        = map (Pair d) cur @ trie_nodes n (concat (map (\<lambda>ks. map snd (groups d ks)) cur))"
      by (simp add: d_def)
    have "b_labels b' = b_labels b @ map (\<lambda>(d, b, g). b) (edges (map (Pair d) cur))"
        "b_ld b' = b_ld b @ ld_bits (map (Pair d) cur)"
        "b_hc b' = b_hc b @ hc_bits (map (Pair d) cur)" "b_nodes b' = b_nodes b + length cur"
      unfolding b'_def emit_level_groups level_lists by simp_all
    with Suc.IH[of "b_next b'" b'] show ?thesis
      unfolding rec nodes tn by (simp add: ld_bits_append hc_bits_append)
  qed
qed (simp add: ld_bits_def hc_bits_def)

section \<open>Children\<close>

text \<open>The nodes after the root are the targets of the edges that have a child, in edge order.\<close>

definition children :: "(nat \<times> uint64 list) list \<Rightarrow> (nat \<times> uint64 list) list" where
  "children N = map (\<lambda>(d, b, g). (Suc d, g)) (filter (\<lambda>(d, b, g). d < SURF_KEYLEN - 1) (edges N))"

lemma children_append: "children (M @ N) = children M @ children N"
  by (simp add: children_def)

lemma children_level:
  "children (map (Pair d) cur) = (if d < SURF_KEYLEN - 1
     then map (Pair (Suc d)) (concat (map (\<lambda>ks. map snd (groups d ks)) cur)) else [])"
proof (induction cur)
  case (Cons ks cur)
  have "children [(d, ks)] = (if d < SURF_KEYLEN - 1 then map (Pair (Suc d)) (map snd (groups d ks)) else [])"
    by (simp add: children_def comp_def case_prod_beta)
  with Cons show ?case using children_append[of "[(d, ks)]" "map (Pair d) cur"] by simp
qed (simp add: children_def)

lemma trie_nodes_children:
  "n \<le> SURF_KEYLEN \<Longrightarrow> 0 < n \<Longrightarrow>
     trie_nodes n cur = map (Pair (SURF_KEYLEN - n)) cur @ children (trie_nodes n cur)"
proof (induction n arbitrary: cur)
  case (Suc n)
  define d where "d = SURF_KEYLEN - 1 - n"
  define cur' where "cur' = concat (map (\<lambda>ks. map snd (groups d ks)) cur)"
  have tn: "trie_nodes (Suc n) cur = map (Pair d) cur @ trie_nodes n cur'"
    by (simp add: d_def cur'_def)
  have d: "SURF_KEYLEN - Suc n = d" by (simp add: d_def)
  show ?case
  proof (cases "n = 0")
    case True
    then have "\<not> d < SURF_KEYLEN - 1" by (simp add: d_def)
    with True show ?thesis unfolding tn d by (simp add: children_append children_level children_def[of "[]"])
  next
    case False
    then have sd: "d < SURF_KEYLEN - 1" "SURF_KEYLEN - n = Suc d"
      using Suc.prems(1) by (auto simp: d_def SURF_KEYLEN_def)
    have "trie_nodes n cur' = map (Pair (Suc d)) cur' @ children (trie_nodes n cur')"
      using Suc.IH[of cur'] Suc.prems False sd(2) by simp
    then show ?thesis unfolding tn d using sd(1) by (simp add: children_append children_level cur'_def)
  qed
qed simp

text \<open>Depths never decrease along the nodes, so along the edges either.\<close>

lemma trie_nodes_depth:
  "n \<le> SURF_KEYLEN \<Longrightarrow> sorted (map fst (trie_nodes n cur)) \<and>
     (\<forall>x \<in> set (trie_nodes n cur). SURF_KEYLEN - n \<le> fst x \<and> fst x < SURF_KEYLEN)"
proof (induction n arbitrary: cur)
  case (Suc n)
  define d where "d = SURF_KEYLEN - 1 - n"
  define T where "T = trie_nodes n (concat (map (\<lambda>ks. map snd (groups d ks)) cur))"
  have T: "sorted (map fst T)" "\<forall>x \<in> set T. SURF_KEYLEN - n \<le> fst x \<and> fst x < SURF_KEYLEN"
    using Suc by (simp_all add: T_def)
  have d: "d \<le> SURF_KEYLEN - n" "SURF_KEYLEN - Suc n = d" "d < SURF_KEYLEN"
    using Suc.prems by (auto simp: d_def)
  have tn: "trie_nodes (Suc n) cur = map (Pair d) cur @ T" by (simp add: d_def T_def)
  have "sorted (map fst (map (Pair d) cur))" by (simp add: comp_def map_replicate_const)
  with T d show ?case unfolding tn by (auto simp: sorted_append comp_def)
qed simp

lemma edges_sorted: "sorted (map fst N) \<Longrightarrow> sorted (map fst (edges N))"
proof (induction N)
  case (Cons x N)
  obtain d ks where x: "x = (d, ks)" by (cases x)
  have "fst x \<le> fst e" if "e \<in> set (edges N)" for e
    using that Cons.prems by (fastforce simp: edges_def)
  with Cons x show ?case by (auto simp: sorted_append comp_def map_replicate_const)
qed simp

lemma filter_prefix:
  assumes "sorted (map fst xs)" and "p < length xs" and "fst (xs ! p) < c"
  shows "filter (\<lambda>e. fst e < c) xs ! p = xs ! p" and "p < length (filter (\<lambda>e. fst e < c) xs)"
    and "q \<le> p \<Longrightarrow> fst (xs ! q) < c"
proof -
  have all: "fst (xs ! q) < c" if "q \<le> p" for q
    using sorted_nth_mono[OF assms(1), of q p] that assms(2,3) by simp
  then show "q \<le> p \<Longrightarrow> fst (xs ! q) < c" .
  have "filter (\<lambda>e. fst e < c) (take (Suc p) xs) = take (Suc p) xs"
  proof (rule filter_True, rule ballI)
    fix e assume "e \<in> set (take (Suc p) xs)"
    then obtain i where "i < Suc p" "e = xs ! i" by (auto simp: in_set_conv_nth)
    then show "fst e < c" using all[of i] by simp
  qed
  then have split: "filter (\<lambda>e. fst e < c) xs = take (Suc p) xs @ filter (\<lambda>e. fst e < c) (drop (Suc p) xs)"
    by (metis append_take_drop_id filter_append)
  show "filter (\<lambda>e. fst e < c) xs ! p = xs ! p" unfolding split using assms(2) by (simp add: nth_append)
  show "p < length (filter (\<lambda>e. fst e < c) xs)" unfolding split using assms(2) by simp
qed

section \<open>Positions\<close>

definition node_off :: "(nat \<times> uint64 list) list \<Rightarrow> nat \<Rightarrow> nat" where
  "node_off N v = length (edges (take v N))"

lemma node_off_Suc:
  "v < length N \<Longrightarrow> N ! v = (d, ks) \<Longrightarrow> node_off N (Suc v) = node_off N v + length (groups d ks)"
  by (simp add: node_off_def take_Suc_conv_app_nth)

lemma edges_split:
  assumes "v < length N" and "N ! v = (d, ks)"
  shows "edges N = edges (take v N) @ map (Pair d) (groups d ks) @ edges (drop (Suc v) N)"
proof -
  have "N = take v N @ (d, ks) # drop (Suc v) N" using assms by (metis id_take_nth_drop)
  then have "edges N = edges (take v N @ (d, ks) # drop (Suc v) N)" by simp
  then show ?thesis by simp
qed

lemma edges_nth:
  assumes "v < length N" and "N ! v = (d, ks)" and "j < length (groups d ks)"
  shows "edges N ! (node_off N v + j) = (d, groups d ks ! j)" and "node_off N v + j < length (edges N)"
  using edges_split[OF assms(1,2)] assms(3) by (simp_all add: node_off_def nth_append)

lemma length_ld_bits: "length (ld_bits N) = length (edges N)"
  by (induction N) (auto simp: ld_bits_def)

lemma cnt_append: "cnt (xs @ ys) (length xs) = cnt xs (length xs)"
  unfolding cnt_def by (rule arg_cong[where f = card]) (auto simp: nth_append)

lemma tot_append: "cnt (xs @ ys) (length xs + length ys) = cnt xs (length xs) + cnt ys (length ys)"
proof -
  have "cnt (xs @ ys) (length xs + m) = cnt xs (length xs) + cnt ys m" for m
    by (induction m) (auto simp: cnt_append cnt_Suc nth_append)
  then show ?thesis .
qed

lemma tot_first_flags: "0 < n \<Longrightarrow> cnt (first_flags True n) n = 1"
proof -
  assume "0 < n"
  then obtain m where n: "n = Suc m" by (cases n) auto
  have "cnt (True # replicate m False) (Suc i) = 1" if "i \<le> m" for i
    using that by (induction i) (auto simp: cnt_Suc nth_Cons')
  then show ?thesis by (simp add: n first_flags_Suc)
qed

definition nodes_ok :: "(nat \<times> uint64 list) list \<Rightarrow> bool" where
  "nodes_ok N \<longleftrightarrow> (\<forall>x \<in> set N. snd x \<noteq> [])"

lemma tot_ld_bits: "nodes_ok N \<Longrightarrow> cnt (ld_bits N) (length (edges N)) = length N"
proof (induction N)
  case (Cons x N)
  obtain d ks where x: "x = (d, ks)" by (cases x)
  have ld: "ld_bits (x # N) = first_flags True (length (groups d ks)) @ ld_bits N"
    by (simp add: ld_bits_def x)
  have "ks \<noteq> []" using Cons.prems x by (simp add: nodes_ok_def)
  then have g: "0 < length (groups d ks)" by simp
  have "cnt (ld_bits N) (length (edges N)) = length N"
    using Cons by (simp add: nodes_ok_def)
  then show ?case
    using tot_append[of "first_flags True (length (groups d ks))" "ld_bits N"] tot_first_flags[OF g]
    unfolding ld by (simp add: x length_ld_bits)
qed (simp add: ld_bits_def)

lemma ld_bits_first:
  assumes "nodes_ok N" and "v < length N"
  shows "ld_bits N ! node_off N v" and "cnt (ld_bits N) (node_off N v) = v" and "node_off N v < length (edges N)"
proof -
  obtain d ks where x: "N ! v = (d, ks)" by (cases "N ! v")
  have "ks \<noteq> []" using assms x nth_mem[OF assms(2)] by (force simp: nodes_ok_def)
  then have g: "0 < length (groups d ks)" by simp
  have sp: "ld_bits N = ld_bits (take v N) @ first_flags True (length (groups d ks)) @ ld_bits (drop (Suc v) N)"
  proof -
    have "N = take v N @ (d, ks) # drop (Suc v) N" using assms(2) x by (metis id_take_nth_drop)
    then have "ld_bits N = ld_bits (take v N @ (d, ks) # drop (Suc v) N)" by simp
    then show ?thesis by (simp add: ld_bits_def)
  qed
  have len: "length (ld_bits (take v N)) = node_off N v" by (simp add: length_ld_bits node_off_def)
  show "ld_bits N ! node_off N v"
    unfolding sp using g by (simp add: nth_append len first_flags_def)
  have "nodes_ok (take v N)" using assms(1) by (auto simp: nodes_ok_def dest: in_set_takeD)
  then have "cnt (ld_bits (take v N)) (node_off N v) = v"
    using tot_ld_bits[of "take v N"] assms(2) by (simp add: node_off_def)
  then show "cnt (ld_bits N) (node_off N v) = v"
    using cnt_append[of "ld_bits (take v N)"] unfolding sp len by simp
  show "node_off N v < length (edges N)" using edges_nth(2)[OF assms(2) x g] by simp
qed

lemma node_off_end: "node_off N (length N) = length (edges N)"
  by (simp add: node_off_def)

section \<open>The encoding represents the trie\<close>

definition surf_repr :: "bitutils \<Rightarrow> PgTreSurf \<Rightarrow> (nat \<times> uint64 list) list \<Rightarrow> bool" where
  "surf_repr bu s N \<longleftrightarrow> n_labels s \<noteq> 0 \<and> (\<forall>v < length N. case N ! v of (d, ks) \<Rightarrow>
     d < SURF_KEYLEN \<and> ks \<noteq> [] \<and>
     surf_node_first bu s v = node_off N v \<and>
     surf_node_end bu s v = node_off N v + length (groups d ks) \<and>
     (\<forall>j < length (groups d ks).
        labels s ! (node_off N v + j) = fst (groups d ks ! j) \<and>
        bv_get (has_child s) (node_off N v + j) = (d < SURF_KEYLEN - 1) \<and>
        (d < SURF_KEYLEN - 1 \<longrightarrow> surf_child_node bu s (node_off N v + j) < length N \<and>
           N ! surf_child_node bu s (node_off N v + j) = (Suc d, snd (groups d ks ! j)))))"

definition surf_nodes :: "uint64 list \<Rightarrow> (nat \<times> uint64 list) list" where
  "surf_nodes keys = trie_nodes SURF_KEYLEN [keys]"

lemma trie_nodes_ok: "\<forall>ks \<in> set cur. ks \<noteq> [] \<Longrightarrow> nodes_ok (trie_nodes n cur)"
proof (induction n arbitrary: cur)
  case (Suc n)
  have "\<forall>ks \<in> set (concat (map (\<lambda>ks. map snd (groups (SURF_KEYLEN - 1 - n) ks)) cur)). ks \<noteq> []"
    using groups_mem by fastforce
  from Suc.IH[OF this] Suc.prems show ?case by (auto simp: nodes_ok_def)
qed (simp add: nodes_ok_def)

lemma surf_nodes_root: "surf_nodes keys = (0, keys) # children (surf_nodes keys)"
  using trie_nodes_children[of SURF_KEYLEN "[keys]"] by (simp add: surf_nodes_def SURF_KEYLEN_def)

lemma build_fields:
  assumes "keys \<noteq> []"
  shows "labels (pg_tre_surf_build bu keys) = map (\<lambda>(d, b, g). b) (edges (surf_nodes keys))"
    and "n_labels (pg_tre_surf_build bu keys) = length (edges (surf_nodes keys))"
    and "has_child (pg_tre_surf_build bu keys) = bv_build_rank bu (bv_of_bits (hc_bits (surf_nodes keys)))"
    and "louds (pg_tre_surf_build bu keys) = bv_build_rank bu (bv_of_bits (ld_bits (surf_nodes keys)))"
  using assms build_levels_trie[of SURF_KEYLEN "[keys]"]
  by (simp_all add: pg_tre_surf_build_def Let_def surf_nodes_def)

text \<open>At most eight edges per key.\<close>

lemma length_groups_le: "length (groups d ks) \<le> length ks"
proof (induction d ks rule: groups.induct)
  case (2 d k ks)
  then show ?case using length_dropWhile_le[of "\<lambda>x. key_byte x d = key_byte k d" ks] by simp
qed simp

lemma length_edges_level: "length (edges (map (Pair d) cur)) \<le> length (concat cur)"
proof (induction cur)
  case (Cons ks cur)
  then show ?case using length_groups_le[of d ks] by simp
qed simp

lemma concat_next_level: "concat (concat (map (\<lambda>ks. map snd (groups d ks)) cur)) = concat cur"
  by (induction cur) (auto simp: groups_concat)

lemma length_trie_edges: "length (edges (trie_nodes n cur)) \<le> n * length (concat cur)"
proof (induction n arbitrary: cur)
  case (Suc n)
  let ?d = "SURF_KEYLEN - 1 - n"
  have "length (edges (trie_nodes n (concat (map (\<lambda>ks. map snd (groups ?d ks)) cur)))) \<le> n * length (concat cur)"
    using Suc[of "concat (map (\<lambda>ks. map snd (groups ?d ks)) cur)"] unfolding concat_next_level .
  with length_edges_level[of ?d cur] show ?case by simp
qed simp

lemma length_surf_edges: "length (edges (surf_nodes keys)) \<le> 8 * length keys"
  using length_trie_edges[of SURF_KEYLEN "[keys]"] by (simp add: surf_nodes_def SURF_KEYLEN_def)

lemma cnt_all: "\<forall>q < i. q < length bs \<and> bs ! q \<Longrightarrow> cnt bs i = i"
  by (induction i) (auto simp: cnt_Suc)

lemma child_edge:
  assumes "p < length (edges (surf_nodes keys))" and "edges (surf_nodes keys) ! p = (d, b, g)"
    and "d < SURF_KEYLEN - 1"
  shows "cnt (hc_bits (surf_nodes keys)) (Suc p) = Suc p"
    and "Suc p < length (surf_nodes keys)" and "surf_nodes keys ! Suc p = (Suc d, g)"
proof -
  let ?N = "surf_nodes keys" and ?c = "SURF_KEYLEN - 1"
  have so: "sorted (map fst (edges ?N))"
    using trie_nodes_depth[of SURF_KEYLEN "[keys]"] by (intro edges_sorted) (simp add: surf_nodes_def)
  have lt: "fst (edges ?N ! p) < ?c" using assms(2,3) by simp
  note fp = filter_prefix[OF so assms(1) lt]
  have "q < length (hc_bits ?N) \<and> hc_bits ?N ! q" if "q < Suc p" for q
    using fp(3)[of q] that assms(1) by (auto simp: hc_bits_def case_prod_beta)
  then show "cnt (hc_bits ?N) (Suc p) = Suc p" by (intro cnt_all) simp
  have ch: "children ?N = map (\<lambda>(d, b, g). (Suc d, g)) (filter (\<lambda>e. fst e < ?c) (edges ?N))"
  proof -
    have "(\<lambda>(d, b, g). d < ?c) = (\<lambda>e :: nat \<times> uint8 \<times> uint64 list. fst e < ?c)" by auto
    then show ?thesis by (simp only: children_def)
  qed
  have "p < length (children ?N)" "children ?N ! p = (Suc d, g)"
    unfolding ch using fp(1,2) assms(2) by simp_all
  then show "Suc p < length ?N" "?N ! Suc p = (Suc d, g)"
    using surf_nodes_root[of keys] by (metis Suc_less_eq length_Cons, metis nth_Cons_Suc)
qed

theorem surf_repr_build:
  assumes "bitutils_ok bu" and "keys \<noteq> []" and "8 * length keys < UINT32_MAX"
  shows "surf_repr bu (pg_tre_surf_build bu keys) (surf_nodes keys)"
proof -
  let ?N = "surf_nodes keys" and ?s = "pg_tre_surf_build bu keys"
  note fields = build_fields[OF assms(2), of bu]
  have ok: "nodes_ok ?N" using assms(2) trie_nodes_ok[of "[keys]"] by (simp add: surf_nodes_def)
  have small: "length (edges ?N) < UINT32_MAX" using length_surf_edges[of keys] assms(3) by simp
  have sel: "bv_select1 bu (louds ?s) (Suc v) = node_off ?N v" if "v < length ?N" for v
    using bv_select1_found[OF assms(1), of "node_off ?N v" "ld_bits ?N"] ld_bits_first[OF ok that]
    by (simp add: fields length_ld_bits)
  have none: "bv_select1 bu (louds ?s) (Suc (length ?N)) = UINT32_MAX"
    using bv_select1_none[OF assms(1), of "ld_bits ?N"] tot_ld_bits[OF ok] by (simp add: fields length_ld_bits)
  have nend: "surf_node_end bu ?s v = node_off ?N (Suc v)" if v: "v < length ?N" for v
  proof (cases "Suc v < length ?N")
    case True
    then have "node_off ?N (Suc v) \<noteq> UINT32_MAX" using ld_bits_first(3)[OF ok True] small by simp
    then show ?thesis using sel[OF True] by (simp add: surf_node_end_def Let_def)
  next
    case False
    then have "Suc v = length ?N" using v by simp
    with none show ?thesis by (simp add: surf_node_end_def Let_def fields node_off_end)
  qed
  have node: "case ?N ! v of (d, ks) \<Rightarrow>
     d < SURF_KEYLEN \<and> ks \<noteq> [] \<and>
     surf_node_first bu ?s v = node_off ?N v \<and>
     surf_node_end bu ?s v = node_off ?N v + length (groups d ks) \<and>
     (\<forall>j < length (groups d ks).
        labels ?s ! (node_off ?N v + j) = fst (groups d ks ! j) \<and>
        bv_get (has_child ?s) (node_off ?N v + j) = (d < SURF_KEYLEN - 1) \<and>
        (d < SURF_KEYLEN - 1 \<longrightarrow> surf_child_node bu ?s (node_off ?N v + j) < length ?N \<and>
           ?N ! surf_child_node bu ?s (node_off ?N v + j) = (Suc d, snd (groups d ks ! j))))"
    if v: "v < length ?N" for v
  proof -
    obtain d ks where x: "?N ! v = (d, ks)" by (cases "?N ! v")
    have mem: "(d, ks) \<in> set ?N" using v x nth_mem by metis
    have dk: "d < SURF_KEYLEN" "ks \<noteq> []"
      using mem ok trie_nodes_depth[of SURF_KEYLEN "[keys]"] by (force simp: surf_nodes_def nodes_ok_def)+
    have edge: "labels ?s ! (node_off ?N v + j) = fst (groups d ks ! j) \<and>
        bv_get (has_child ?s) (node_off ?N v + j) = (d < SURF_KEYLEN - 1) \<and>
        (d < SURF_KEYLEN - 1 \<longrightarrow> surf_child_node bu ?s (node_off ?N v + j) < length ?N \<and>
           ?N ! surf_child_node bu ?s (node_off ?N v + j) = (Suc d, snd (groups d ks ! j)))"
      if j: "j < length (groups d ks)" for j
    proof -
      let ?p = "node_off ?N v + j"
      obtain b g where bg: "groups d ks ! j = (b, g)" by (cases "groups d ks ! j")
      have e: "edges ?N ! ?p = (d, b, g)" "?p < length (edges ?N)" using edges_nth[OF v x j] bg by simp_all
      have get: "bv_get (has_child ?s) ?p = (d < SURF_KEYLEN - 1)"
        using bv_get_bits[of ?p "hc_bits ?N" bu] e by (simp add: fields hc_bits_def)
      have "surf_child_node bu ?s ?p = Suc ?p" if "d < SURF_KEYLEN - 1"
        using bv_rank1_cnt[OF assms(1), of "Suc ?p" "hc_bits ?N"] child_edge(1)[OF e(2,1) that] e(2)
        by (simp add: surf_child_node_def fields hc_bits_def)
      with child_edge(2,3)[OF e(2,1)] get e bg show ?thesis by (simp add: fields)
    qed
    show ?thesis
      using dk edge sel[OF v] nend[OF v] node_off_Suc[OF v x] by (simp add: x surf_node_first_def)
  qed
  have "length (edges ?N) \<noteq> 0"
    using ld_bits_first(3)[OF ok, of 0] surf_nodes_root[of keys] by (metis length_greater_0_conv list.distinct(1) not_less0)
  with node show ?thesis unfolding surf_repr_def by (simp add: fields(2))
qed

end
