(* ===== verification/Surf_Page.thy ===== *)
theory Surf_Page
  imports Surf_Trie Index_Pages
begin

text \<open>
  The stored form of the range filter: its image (\<open>pg_tre_surf_serialize\<close> and
  \<open>pg_tre_surf_deserialize\<close> of \<open>src/util/surf.c\<close>) and the chain of pages that keeps the image
  (\<open>src/pages/surf_page.c\<close>). Reading back what was written gives the filter.
\<close>

section \<open>The image\<close>

definition SURF_MAGIC :: uint32 where "SURF_MAGIC = 0x53555246"
definition SURF_VERSION :: uint32 where "SURF_VERSION = 1"

text \<open>The bytes of a word as the machine stores it, least significant first, and back.\<close>

definition le_bytes :: "nat \<Rightarrow> 'a::len word \<Rightarrow> uint8 list" where
  "le_bytes n w = map (\<lambda>i. ucast (drop_bit (8 * i) w)) [0..<n]"

primrec le_word :: "uint8 list \<Rightarrow> 'a::len word" where
  "le_word [] = 0"
| "le_word (b # bs) = ucast b OR push_bit 8 (le_word bs)"

text \<open>\<open>memcpy\<close> into a buffer.\<close>

definition put_at :: "nat \<Rightarrow> uint8 list \<Rightarrow> uint8 list \<Rightarrow> uint8 list" where
  "put_at off bs dst = take off dst @ bs @ drop (off + length bs) dst"

definition get_at :: "nat \<Rightarrow> nat \<Rightarrow> uint8 list \<Rightarrow> uint8 list" where
  "get_at off n src = take n (drop off src)"

definition pg_tre_surf_serialized_size :: "PgTreSurf \<Rightarrow> nat" where
  "pg_tre_surf_serialized_size s =
     (let nwords = bv_nwords (n_labels s) in MAXALIGN (5 * 4) + MAXALIGN (n_labels s) + 2 * nwords * 8)"

definition word_bytes :: "uint64 list \<Rightarrow> uint8 list" where
  "word_bytes ws = concat (map (le_bytes 8) ws)"

text \<open>\<open>dst\<close> is the buffer as it was allocated; the padding keeps its bytes.\<close>

definition pg_tre_surf_serialize :: "PgTreSurf \<Rightarrow> uint8 list \<Rightarrow> uint8 list" where
  "pg_tre_surf_serialize s dst =
     (let nwords = bv_nwords (n_labels s);
          hdr = concat (map (le_bytes 4) [SURF_MAGIC, SURF_VERSION, word_of_nat (n_labels s), word_of_nat (n_nodes s), word_of_nat (n_keys s)]);
          dst1 = put_at 0 hdr dst;
          p1 = MAXALIGN (5 * 4);
          dst2 = put_at p1 (take (n_labels s) (labels s)) dst1;
          p2 = p1 + MAXALIGN (n_labels s);
          dst3 = put_at p2 (word_bytes (take nwords (words (has_child s)))) dst2;
          p3 = p2 + nwords * 8
      in put_at p3 (word_bytes (take nwords (words (louds s)))) dst3)"

definition header_word :: "uint8 list \<Rightarrow> nat \<Rightarrow> uint32" where
  "header_word src i = le_word (get_at (4 * i) 4 src)"

definition words_at :: "nat \<Rightarrow> nat \<Rightarrow> uint8 list \<Rightarrow> uint64 list" where
  "words_at off n src = map (\<lambda>i. le_word (get_at (off + 8 * i) 8 src)) [0..<n]"

definition pg_tre_surf_deserialize :: "bitutils \<Rightarrow> uint8 list \<Rightarrow> PgTreSurf outcome" where
  "pg_tre_surf_deserialize bu src =
     (if length src < 5 * 4 then raise (Surf_image_too_small (length src))
      else if header_word src 0 \<noteq> SURF_MAGIC then raise (Surf_bad_magic (header_word src 0))
      else if header_word src 1 \<noteq> SURF_VERSION then raise (Surf_bad_version (header_word src 1))
      else
        let nl = unat (header_word src 2);
            nwords = bv_nwords nl;
            need = MAXALIGN (5 * 4) + MAXALIGN nl + 2 * nwords * 8;
            p1 = MAXALIGN (5 * 4);
            p2 = p1 + MAXALIGN nl;
            p3 = p2 + nwords * 8
        in if length src < need then raise (Surf_image_truncated (length src))
           else ret \<lparr> n_labels = nl, n_nodes = unat (header_word src 3), n_keys = unat (header_word src 4),
                      labels = get_at p1 nl src,
                      has_child = bv_build_rank bu ((bv_init nl)\<lparr> words := words_at p2 nwords src \<rparr>),
                      louds = bv_build_rank bu ((bv_init nl)\<lparr> words := words_at p3 nwords src \<rparr>) \<rparr>)"

section \<open>The chain of pages\<close>

text \<open>Page header 24 bytes, opaque trailer 8, header of the page 16.\<close>

definition surf_page_capacity :: "nat \<Rightarrow> nat" where
  "surf_page_capacity blcksz = blcksz - 24 - 8 - 16"

text \<open>The link of the previous page, whose buffer the writer still holds.\<close>

definition link_surf :: "BlockNumber \<Rightarrow> BlockNumber \<Rightarrow> tre_index \<Rightarrow> tre_index" where
  "link_surf prev this idx =
     (case tree_pages idx prev of
        Some (Surf_page p) \<Rightarrow> put_tree_page prev (Surf_page (p\<lparr> surf_next := this \<rparr>)) idx
      | _ \<Rightarrow> idx)"

text \<open>The loop; \<open>link\<close> is the first page and the previous one, \<open>None\<close> while \<open>is_first\<close>.\<close>

partial_function (option) surf_write_loop :: "nat \<Rightarrow> uint8 list \<Rightarrow> nat \<Rightarrow> (BlockNumber \<times> BlockNumber) option
    \<Rightarrow> tre_index \<Rightarrow> BlockNumber list \<Rightarrow> (BlockNumber \<times> tre_index \<times> BlockNumber list) outcome" where
  "surf_write_loop blcksz bytes off link idx blocks =
     (if off < length bytes \<or> link = None then
        andThen (pg_tre_extend blocks) (\<lambda>(this, blocks').
          let chunk = min (surf_page_capacity blcksz) (length bytes - off);
              page = \<lparr> surf_next = InvalidBlockNumber, surf_chunk = take chunk (drop off bytes),
                       surf_total = (if link = None then word_of_nat (length bytes) else 0) \<rparr>;
              idx1 = put_tree_page this (Surf_page page) idx
          in case link of
               None \<Rightarrow> surf_write_loop blcksz bytes (off + chunk) (Some (this, this)) idx1 blocks'
             | Some (first, prev) \<Rightarrow> surf_write_loop blcksz bytes (off + chunk) (Some (first, this)) (link_surf prev this idx1) blocks')
      else ret (case link of None \<Rightarrow> InvalidBlockNumber | Some (first, prev) \<Rightarrow> first, idx, blocks))"

definition pg_tre_surf_write_image :: "nat \<Rightarrow> uint8 list \<Rightarrow> tre_index \<times> BlockNumber list
    \<Rightarrow> (BlockNumber \<times> tre_index \<times> BlockNumber list) outcome" where
  "pg_tre_surf_write_image blcksz bytes = (\<lambda>(idx, blocks).
     if bytes = [] then ret (InvalidBlockNumber, idx, blocks)
     else surf_write_loop blcksz bytes 0 None idx blocks)"

definition read_surf_page :: "tre_index \<Rightarrow> BlockNumber \<Rightarrow> PgTreSurfHeader outcome" where
  "read_surf_page idx b = andThen (read_tree_page idx b) (\<lambda>p. case p of Surf_page h \<Rightarrow> ret h | _ \<Rightarrow> raise (Unexpected_page_kind b))"

partial_function (option) surf_read_loop :: "tre_index \<Rightarrow> nat \<Rightarrow> uint8 list \<Rightarrow> PgTreSurfHeader \<Rightarrow> uint8 list outcome" where
  "surf_read_loop idx tot bytes hdr =
     (if length bytes + length (surf_chunk hdr) > tot then raise Surf_chain_overflow
      else let bytes1 = bytes @ surf_chunk hdr
           in if surf_next hdr = InvalidBlockNumber then ret bytes1
              else andThen (read_surf_page idx (surf_next hdr)) (\<lambda>h. surf_read_loop idx tot bytes1 h))"

definition pg_tre_surf_read :: "bitutils \<Rightarrow> tre_index \<Rightarrow> BlockNumber \<Rightarrow> PgTreSurf option outcome" where
  "pg_tre_surf_read bu idx root =
     (if root = InvalidBlockNumber then ret None
      else andThen (read_surf_page idx root) (\<lambda>hdr.
        if surf_total hdr = 0 then raise Surf_zero_total
        else andThen (surf_read_loop idx (unat (surf_total hdr)) [] hdr) (\<lambda>bytes.
          if length bytes \<noteq> unat (surf_total hdr) then raise (Surf_chain_short (length bytes))
          else andThen (pg_tre_surf_deserialize bu bytes) (\<lambda>s. ret (Some s)))))"

section \<open>The image reads back\<close>

lemma length_le_bytes [simp]: "length (le_bytes n w) = n"
  by (simp add: le_bytes_def)

lemma bit_le_word:
  "bit (le_word bs :: 'a::len word) i \<longleftrightarrow> i < LENGTH('a) \<and> i div 8 < length bs \<and> bit (bs ! (i div 8)) (i mod 8)"
proof (induction bs arbitrary: i)
  case (Cons b bs)
  show ?case
  proof (cases "i < 8")
    case True
    then show ?thesis by (auto simp: bit_or_iff bit_push_bit_iff bit_ucast_iff dest: bit_imp_le_length)
  next
    case False
    then have i: "i div 8 = Suc ((i - 8) div 8)" "(i - 8) mod 8 = i mod 8" by (simp_all add: le_div_geq le_mod_geq)
    have "\<not> bit b i" using False bit_imp_le_length[of b i] by auto
    then show ?thesis using False Cons.IH[of "i - 8"] i by (auto simp: bit_or_iff bit_push_bit_iff bit_ucast_iff)
  qed
qed simp

lemma le_word_bytes: "LENGTH('a) \<le> 8 * n \<Longrightarrow> le_word (le_bytes n w) = (w :: 'a::len word)"
proof (rule bit_word_eqI)
  fix i assume "LENGTH('a) \<le> 8 * n" and i: "i < LENGTH('a)"
  then have "i div 8 < n" by (simp add: div_less_iff_less_mult)
  moreover have "8 * (i div 8) + i mod 8 = i" by simp
  ultimately show "bit (le_word (le_bytes n w) :: 'a word) i = bit w i"
    using i by (simp add: bit_le_word le_bytes_def bit_ucast_iff bit_drop_bit_eq)
qed

text \<open>Reading where nothing was written later, and where the last write was.\<close>

lemma length_put_at: "off + length bs \<le> length dst \<Longrightarrow> length (put_at off bs dst) = length dst"
  by (simp add: put_at_def)

lemma get_put_same: "off + length bs \<le> length dst \<Longrightarrow> off \<le> o' \<Longrightarrow> o' + n \<le> off + length bs
    \<Longrightarrow> get_at o' n (put_at off bs dst) = get_at (o' - off) n bs"
  by (simp add: get_at_def put_at_def min_def)

lemma get_put_before: "off \<le> length dst \<Longrightarrow> o' + n \<le> off \<Longrightarrow> get_at o' n (put_at off bs dst) = get_at o' n dst"
  by (auto simp: get_at_def put_at_def drop_take min_def)

lemma get_word_bytes: "i < length ws \<Longrightarrow> get_at (8 * i) 8 (word_bytes ws) = le_bytes 8 (ws ! i)"
proof (induction ws arbitrary: i)
  case (Cons w ws)
  then show ?case by (cases i) (simp_all add: word_bytes_def get_at_def)
qed simp

lemma length_word_bytes [simp]: "length (word_bytes ws) = 8 * length ws"
  by (induction ws) (simp_all add: word_bytes_def)

text \<open>A filter as the builder makes it: arrays of the recorded sizes, ranks computed from the words.\<close>

definition vec_ok :: "bitutils \<Rightarrow> nat \<Rightarrow> SurfBitvec \<Rightarrow> bool" where
  "vec_ok bu n v \<longleftrightarrow> nbits v = n \<and> length (words v) = bv_nwords n \<and> rank v = rank_table bu 0 (words v)"

definition surf_ok :: "bitutils \<Rightarrow> PgTreSurf \<Rightarrow> bool" where
  "surf_ok bu s \<longleftrightarrow> length (labels s) = n_labels s \<and> vec_ok bu (n_labels s) (has_child s) \<and> vec_ok bu (n_labels s) (louds s)
     \<and> n_labels s < 2 ^ 32 \<and> n_nodes s < 2 ^ 32 \<and> n_keys s < 2 ^ 32"

lemma vec_rebuild: "vec_ok bu n v \<Longrightarrow> bv_build_rank bu ((bv_init n)\<lparr> words := words v \<rparr>) = v"
  by (simp add: vec_ok_def bv_build_rank_def bv_init_def)

theorem deserialize_serialize:
  assumes "surf_ok bu s" and "length dst = pg_tre_surf_serialized_size s"
  shows "pg_tre_surf_deserialize bu (pg_tre_surf_serialize s dst) = ret s"
proof -
  define nw hdr p2 p3 where "nw = bv_nwords (n_labels s)" and
    "hdr = concat (map (le_bytes 4) [SURF_MAGIC, SURF_VERSION, word_of_nat (n_labels s), word_of_nat (n_nodes s), word_of_nat (n_keys s)])"
    and "p2 = 24 + MAXALIGN (n_labels s)" and "p3 = p2 + nw * 8"
  define d1 d2 d3 where "d1 = put_at 0 hdr dst" and "d2 = put_at 24 (labels s) d1" and "d3 = put_at p2 (word_bytes (words (has_child s))) d2"
  define img where "img = put_at p3 (word_bytes (words (louds s))) d3"
  have MA: "MAXALIGN 20 = 24" by (simp add: MAXALIGN_def)
  have ok: "length (labels s) = n_labels s" "length (words (has_child s)) = nw" "length (words (louds s)) = nw"
    using assms(1) by (simp_all add: surf_ok_def vec_ok_def nw_def)
  have al: "n_labels s \<le> MAXALIGN (n_labels s)" by (rule MAXALIGN_ge)
  have len: "length dst = p3 + nw * 8" "length hdr = 20" "24 + n_labels s \<le> p2"
    using assms(2) al by (simp_all add: pg_tre_surf_serialized_size_def MA p3_def p2_def nw_def hdr_def Let_def)
  have ld: "length d1 = length dst" "length d2 = length dst" "length d3 = length dst" "length img = length dst"
    using len ok by (simp_all add: d1_def d2_def d3_def img_def length_put_at p3_def)
  have ser: "pg_tre_surf_serialize s dst = img"
    using ok by (simp add: pg_tre_surf_serialize_def MA Let_def img_def d3_def d2_def d1_def hdr_def p3_def p2_def nw_def)
  have before: "get_at k n img = get_at k n d3" if "k + n \<le> p3" for k n
    unfolding img_def using that ld len(1) by (simp add: get_put_before)
  have before3: "get_at k n d3 = get_at k n d2" if "k + n \<le> p2" for k n
    unfolding d3_def using that ld len(1) by (simp add: get_put_before p3_def)
  have before2: "get_at k n d2 = get_at k n d1" if "k + n \<le> 24" for k n
    unfolding d2_def using that ld len by (simp add: get_put_before p3_def)
  have h: "header_word img i = le_word (get_at (4 * i) 4 hdr)" if "i < 5" for i
  proof -
    have "get_at (4 * i) 4 img = get_at (4 * i) 4 d1"
      using that len(3) before[of "4 * i" 4] before3[of "4 * i" 4] before2[of "4 * i" 4] by (simp add: p3_def)
    also have "\<dots> = get_at (4 * i) 4 hdr" unfolding d1_def using that len get_put_same[of 0 hdr dst "4 * i" 4] by (simp add: p3_def)
    finally show ?thesis by (simp add: header_word_def)
  qed
  have hw: "header_word img 0 = SURF_MAGIC" "header_word img 1 = SURF_VERSION" "header_word img 2 = word_of_nat (n_labels s)"
      "header_word img 3 = word_of_nat (n_nodes s)" "header_word img 4 = word_of_nat (n_keys s)"
    by (simp_all add: h hdr_def get_at_def le_word_bytes)
  have u: "unat (word_of_nat k :: uint32) = k" if "k < 2 ^ 32" for k using that by (simp add: unat_of_nat take_bit_nat_eq_self)
  have nl: "unat (header_word img 2) = n_labels s" "unat (header_word img 3) = n_nodes s" "unat (header_word img 4) = n_keys s"
    using assms(1) by (simp_all add: hw u surf_ok_def)
  have lab: "get_at 24 (n_labels s) img = labels s"
  proof -
    have "get_at 24 (n_labels s) img = get_at 24 (n_labels s) d2" using len(3) before before3 by (simp add: p3_def)
    also have "\<dots> = labels s" unfolding d2_def using ok(1) len ld get_put_same[of 24 "labels s" d1 24 "n_labels s"] by (simp add: p3_def get_at_def)
    finally show ?thesis .
  qed
  have hc: "words_at p2 nw img = words (has_child s)"
  proof (rule nth_equalityI)
    fix i assume "i < length (words_at p2 nw img)"
    then have i: "i < nw" by (simp add: words_at_def)
    have "get_at (p2 + 8 * i) 8 img = get_at (p2 + 8 * i) 8 d3" using i before by (simp add: p3_def)
    also have "\<dots> = le_bytes 8 (words (has_child s) ! i)"
      unfolding d3_def using i ok(2) ld len(1) get_put_same[of p2 "word_bytes (words (has_child s))" d2 "p2 + 8 * i" 8]
      by (simp add: p3_def get_word_bytes)
    finally show "words_at p2 nw img ! i = words (has_child s) ! i" using i by (simp add: words_at_def le_word_bytes)
  qed (simp add: words_at_def ok)
  have lo: "words_at p3 nw img = words (louds s)"
  proof (rule nth_equalityI)
    fix i assume "i < length (words_at p3 nw img)"
    then have i: "i < nw" by (simp add: words_at_def)
    have "get_at (p3 + 8 * i) 8 img = le_bytes 8 (words (louds s) ! i)"
      unfolding img_def using i ok(3) ld len(1) get_put_same[of p3 "word_bytes (words (louds s))" d3 "p3 + 8 * i" 8]
      by (simp add: get_word_bytes)
    then show "words_at p3 nw img ! i = words (louds s) ! i" using i by (simp add: words_at_def le_word_bytes)
  qed (simp add: words_at_def ok)
  have vr: "bv_build_rank bu ((bv_init (n_labels s))\<lparr> words := words (has_child s) \<rparr>) = has_child s"
      "bv_build_rank bu ((bv_init (n_labels s))\<lparr> words := words (louds s) \<rparr>) = louds s"
    using assms(1) vec_rebuild by (simp_all add: surf_ok_def)
  have "\<not> length img < 20" "\<not> length img < 24 + MAXALIGN (n_labels s) + 2 * nw * 8"
    using ld(4) len by (simp_all add: p3_def p2_def)
  then show ?thesis
    unfolding ser pg_tre_surf_deserialize_def
    using hw(1,2) len(3) by (auto simp: MA nl Let_def lab hc lo vr simp flip: nw_def p2_def p3_def)
qed

lemma cnt_le: "cnt bs i \<le> i"
  using card_mono[of "{..<i}" "{j. j < i \<and> j < length bs \<and> bs ! j}"] by (auto simp: cnt_def)

lemma vec_of_bits: "vec_ok bu (length bs) (bv_build_rank bu (bv_of_bits bs))"
  using length_bit_words[of bs "length bs"] by (simp add: vec_ok_def bv_build_rank_def bv_of_bits_def bit_words_def bv_init_def)

lemma built_ok:
  assumes "8 * length keys < 2 ^ 32"
  shows "surf_ok bu (pg_tre_surf_build bu keys)"
proof (cases "keys = []")
  case True
  then show ?thesis by (simp add: pg_tre_surf_build_def surf_ok_def vec_ok_def bv_build_rank_def bv_init_def)
next
  case False
  let ?N = "surf_nodes keys"
  have ok: "nodes_ok ?N" using False trie_nodes_ok[of "[keys]"] by (simp add: surf_nodes_def)
  have "length (edges ?N) \<le> 8 * length keys" by (rule length_surf_edges)
  moreover have "length ?N \<le> length (edges ?N)" using tot_ld_bits[OF ok] cnt_le[of "ld_bits ?N" "length (edges ?N)"] by simp
  moreover have "n_nodes (pg_tre_surf_build bu keys) = length ?N" "n_keys (pg_tre_surf_build bu keys) = length keys"
    using False build_levels_trie[of SURF_KEYLEN "[keys]"] by (simp_all add: pg_tre_surf_build_def Let_def surf_nodes_def)
  moreover have "length (hc_bits ?N) = length (edges ?N)" by (simp add: hc_bits_def)
  ultimately show ?thesis using assms vec_of_bits[of bu "hc_bits ?N"] vec_of_bits[of bu "ld_bits ?N"]
    by (simp add: surf_ok_def build_fields[OF False] length_ld_bits)
qed

section \<open>The chain reads back\<close>

fun surf_seg :: "(BlockNumber \<Rightarrow> tree_page option) \<Rightarrow> BlockNumber \<Rightarrow> uint8 list list \<Rightarrow> bool" where
  "surf_seg pages b [] \<longleftrightarrow> b = InvalidBlockNumber"
| "surf_seg pages b (c # cs) \<longleftrightarrow> b \<noteq> InvalidBlockNumber
     \<and> (\<exists>p. pages b = Some (Surf_page p) \<and> surf_chunk p = c \<and> surf_seg pages (surf_next p) cs)"

lemma surf_seg_mono: "surf_seg pages b cs \<Longrightarrow> pages \<subseteq>\<^sub>m pages' \<Longrightarrow> surf_seg pages' b cs"
  by (induction cs arbitrary: b) (auto dest: map_leD)

lemma read_loop_ret:
  assumes "surf_seg (tree_pages idx) (surf_next hdr) cs" and "tot = length acc + length (surf_chunk hdr) + length (concat cs)"
  shows "surf_read_loop idx tot acc hdr = ret (acc @ surf_chunk hdr @ concat cs)"
  using assms
proof (induction cs arbitrary: acc hdr)
  case Nil
  then show ?case by (subst surf_read_loop.simps) simp
next
  case (Cons c cs)
  then obtain p where p: "surf_next hdr \<noteq> InvalidBlockNumber" "tree_pages idx (surf_next hdr) = Some (Surf_page p)" "surf_chunk p = c"
      "surf_seg (tree_pages idx) (surf_next p) cs" by auto
  have "surf_read_loop idx tot (acc @ surf_chunk hdr) p = ret ((acc @ surf_chunk hdr) @ surf_chunk p @ concat cs)"
    by (rule Cons.IH[OF p(4)]) (use Cons.prems(2) p(3) in simp)
  then show ?case using p Cons.prems(2)
    by (subst surf_read_loop.simps) (simp add: read_surf_page_def read_tree_page_def)
qed

text \<open>
  The loop from a written page \<open>prev\<close> on: it is linked to a chain with the rest of the bytes, and
  every other page stays.
\<close>

lemma write_loop_ret:
  assumes "0 < surf_page_capacity blcksz" and "blocks_ok blocks idx" and "length bytes - off \<le> surf_page_capacity blcksz * length blocks"
    and "tree_pages idx prev = Some (Surf_page p)" and "surf_next p = InvalidBlockNumber"
  shows "\<exists>idx' blocks' nb cs. surf_write_loop blcksz bytes off (Some (first, prev)) idx blocks = ret (first, idx', blocks')
    \<and> tree_pages idx' prev = Some (Surf_page (p\<lparr> surf_next := nb \<rparr>)) \<and> surf_seg (tree_pages idx') nb cs \<and> concat cs = drop off bytes
    \<and> (\<forall>b. b \<noteq> prev \<and> b \<notin> set blocks \<longrightarrow> tree_pages idx' b = tree_pages idx b) \<and> blocks_ok blocks' idx'
    \<and> idx' = idx\<lparr> tree_pages := tree_pages idx' \<rparr>"
  using assms(2-5)
proof (induction "length bytes - off" arbitrary: off idx blocks prev p rule: less_induct)
  case less
  show ?case
  proof (cases "off < length bytes")
    case False
    moreover have "surf_write_loop blcksz bytes off (Some (first, prev)) idx blocks = ret (first, idx, blocks)"
      using False by (subst surf_write_loop.simps) simp
    moreover have "p\<lparr> surf_next := InvalidBlockNumber \<rparr> = p" using less.prems(4) by (cases p) simp
    ultimately show ?thesis using less.prems
      by (intro exI[of _ idx] exI[of _ blocks] exI[of _ InvalidBlockNumber] exI[of _ "[]"]) simp
  next
    case True
    then obtain this bs where blk: "blocks = this # bs" using less.prems(2) by (cases blocks) auto
    let ?c = "min (surf_page_capacity blcksz) (length bytes - off)"
    let ?page = "\<lparr> surf_next = InvalidBlockNumber, surf_chunk = take ?c (drop off bytes), surf_total = 0 \<rparr>"
    let ?idx1 = "put_tree_page this (Surf_page ?page) idx"
    let ?idx2 = "link_surf prev this ?idx1"
    have ne: "prev \<noteq> this" "prev \<notin> set bs" using less.prems(1,3) blk by (auto simp: blocks_ok_def)
    have l: "?idx2 = put_tree_page prev (Surf_page (p\<lparr> surf_next := this \<rparr>)) ?idx1"
      using less.prems(3) ne by (simp add: link_surf_def put_tree_page_def)
    have ok: "blocks_ok bs ?idx2" using less.prems(1,3) blk ne unfolding l by (auto simp: blocks_ok_def put_tree_page_def)
    have cap: "length bytes - (off + ?c) < length bytes - off" using True assms(1) by (auto simp: min_def)
    have room: "length bytes - (off + ?c) \<le> surf_page_capacity blcksz * length bs" using less.prems(2) blk by (auto simp: min_def)
    have at: "tree_pages ?idx2 this = Some (Surf_page ?page)" unfolding l using ne by (simp add: put_tree_page_def)
    from less.hyps[OF cap ok room at] obtain idx' blocks' nb cs where
      r: "surf_write_loop blcksz bytes (off + ?c) (Some (first, this)) ?idx2 bs = ret (first, idx', blocks')"
        "tree_pages idx' this = Some (Surf_page (?page\<lparr> surf_next := nb \<rparr>))" "surf_seg (tree_pages idx') nb cs" "concat cs = drop (off + ?c) bytes"
        "\<forall>b. b \<noteq> this \<and> b \<notin> set bs \<longrightarrow> tree_pages idx' b = tree_pages ?idx2 b" "blocks_ok blocks' idx'" "idx' = ?idx2\<lparr> tree_pages := tree_pages idx' \<rparr>"
      by auto
    have "surf_write_loop blcksz bytes off (Some (first, prev)) idx blocks = ret (first, idx', blocks')"
      using True r(1) by (subst surf_write_loop.simps) (simp add: blk pg_tre_extend_def Let_def)
    moreover have "tree_pages idx' prev = Some (Surf_page (p\<lparr> surf_next := this \<rparr>))" using r(5) ne unfolding l by (simp add: put_tree_page_def)
    moreover have "surf_seg (tree_pages idx') this (take ?c (drop off bytes) # cs)"
      using r(2,3) less.prems(1) blk by (auto simp: blocks_ok_def)
    moreover have "concat (take ?c (drop off bytes) # cs) = drop off bytes"
      using r(4) by (metis append_take_drop_id concat.simps(2) drop_drop add.commute)
    moreover have "\<forall>b. b \<noteq> prev \<and> b \<notin> set blocks \<longrightarrow> tree_pages idx' b = tree_pages idx b"
      using r(5) blk unfolding l by (auto simp: put_tree_page_def)
    moreover have "idx' = idx\<lparr> tree_pages := tree_pages idx' \<rparr>" using r(7) unfolding l by (simp add: put_tree_page_def)
    ultimately show ?thesis using r(6) by blast
  qed
qed

theorem write_image_ret:
  assumes "0 < surf_page_capacity blcksz" and "blocks_ok blocks idx" and "length bytes \<le> surf_page_capacity blcksz * length blocks"
    and "bytes \<noteq> []" and "length bytes < 2 ^ 32"
  shows "\<exists>root idx' blocks'. pg_tre_surf_write_image blcksz bytes (idx, blocks) = ret (root, idx', blocks')
    \<and> root \<noteq> InvalidBlockNumber \<and> blocks_ok blocks' idx' \<and> grown_tree idx idx'
    \<and> (\<forall>idx2. tree_pages idx' \<subseteq>\<^sub>m tree_pages idx2 \<longrightarrow> pg_tre_surf_read bu idx2 root = andThen (pg_tre_surf_deserialize bu bytes) (\<lambda>s. ret (Some s)))"
proof -
  obtain this bs where blk: "blocks = this # bs" using assms(3,4) by (cases blocks) auto
  let ?c = "min (surf_page_capacity blcksz) (length bytes)"
  let ?page = "\<lparr> surf_next = InvalidBlockNumber, surf_chunk = take ?c bytes, surf_total = word_of_nat (length bytes) \<rparr>"
  let ?idx1 = "put_tree_page this (Surf_page ?page) idx"
  have pf: "blocks_ok bs ?idx1" "tree_pages ?idx1 this = Some (Surf_page ?page)" "this \<noteq> InvalidBlockNumber"
    using put_fresh[OF assms(2)[unfolded blk]] by blast+
  have room: "length bytes - ?c \<le> surf_page_capacity blcksz * length bs" using assms(3) blk by (auto simp: min_def)
  have nx: "surf_next ?page = InvalidBlockNumber" by simp
  from write_loop_ret[OF assms(1) pf(1) room pf(2) nx, of this] obtain idx' blocks' nb cs where
    r: "surf_write_loop blcksz bytes ?c (Some (this, this)) ?idx1 bs = ret (this, idx', blocks')"
      "tree_pages idx' this = Some (Surf_page (?page\<lparr> surf_next := nb \<rparr>))" "surf_seg (tree_pages idx') nb cs" "concat cs = drop ?c bytes"
      "\<forall>b. b \<noteq> this \<and> b \<notin> set bs \<longrightarrow> tree_pages idx' b = tree_pages ?idx1 b" "blocks_ok blocks' idx'" "idx' = ?idx1\<lparr> tree_pages := tree_pages idx' \<rparr>"
    by blast
  have w: "pg_tre_surf_write_image blcksz bytes (idx, blocks) = ret (this, idx', blocks')"
    using assms(4) r(1) unfolding pg_tre_surf_write_image_def
    by (simp, subst surf_write_loop.simps) (simp add: blk pg_tre_extend_def Let_def)
  have "tree_pages idx \<subseteq>\<^sub>m tree_pages idx'"
  proof (unfold map_le_def, intro ballI)
    fix b assume "b \<in> dom (tree_pages idx)"
    then have "b \<notin> set blocks" using assms(2) by (auto simp: blocks_ok_def)
    then show "tree_pages idx b = tree_pages idx' b" using r(5) blk by (simp add: put_tree_page_def)
  qed
  then have g: "grown_tree idx idx'" using r(7) by (simp add: grown_tree_def) (simp add: put_tree_page_def)
  have tot: "unat (word_of_nat (length bytes) :: uint32) = length bytes" "(word_of_nat (length bytes) :: uint32) \<noteq> 0"
  proof -
    show u: "unat (word_of_nat (length bytes) :: uint32) = length bytes" using assms(5) by (simp add: unat_of_nat take_bit_nat_eq_self)
    show "(word_of_nat (length bytes) :: uint32) \<noteq> 0" using u assms(4) by force
  qed
  have "pg_tre_surf_read bu idx2 this = andThen (pg_tre_surf_deserialize bu bytes) (\<lambda>s. ret (Some s))" if le: "tree_pages idx' \<subseteq>\<^sub>m tree_pages idx2" for idx2
  proof -
    have "surf_read_loop idx2 (length bytes) [] (?page\<lparr> surf_next := nb \<rparr>) = ret bytes"
      using read_loop_ret[of idx2 "?page\<lparr> surf_next := nb \<rparr>" cs "length bytes" "[]"] surf_seg_mono[OF r(3) le] r(4) by simp
    then show ?thesis using pf(3) map_leD[OF le r(2)] tot
      by (simp add: pg_tre_surf_read_def read_surf_page_def read_tree_page_def)
  qed
  then show ?thesis using w pf(3) r(6) g by blast
qed

text \<open>The size of an image, from the number of keys.\<close>

lemma image_size:
  "pg_tre_surf_serialized_size (pg_tre_surf_build bu keys) \<le> 64 + 10 * length keys"
  "length dst = pg_tre_surf_serialized_size s \<Longrightarrow> surf_ok bu s \<Longrightarrow> length (pg_tre_surf_serialize s dst) = length dst"
proof -
  let ?s = "pg_tre_surf_build bu keys"
  have n: "n_labels ?s \<le> 8 * length keys"
    using length_surf_edges[of keys] by (cases "keys = []") (simp_all add: build_fields, simp add: pg_tre_surf_build_def)
  have "MAXALIGN (n_labels ?s) \<le> n_labels ?s + 7" unfolding MAXALIGN_def using div_times_less_eq_dividend by blast
  moreover have "bv_nwords (n_labels ?s) * 64 \<le> n_labels ?s + 64"
    using div_times_less_eq_dividend[of "n_labels ?s + 63" 64] by (auto simp: bv_nwords_def Let_def)
  ultimately show "pg_tre_surf_serialized_size ?s \<le> 64 + 10 * length keys"
    using n by (simp add: pg_tre_surf_serialized_size_def MAXALIGN_def Let_def)
  assume d: "length dst = pg_tre_surf_serialized_size s" and ok: "surf_ok bu s"
  have MA: "MAXALIGN 20 = 24" by (simp add: MAXALIGN_def)
  have al: "n_labels s \<le> MAXALIGN (n_labels s)" by (rule MAXALIGN_ge)
  have len: "length (labels s) = n_labels s" "length (words (has_child s)) = bv_nwords (n_labels s)" "length (words (louds s)) = bv_nwords (n_labels s)"
    using ok by (simp_all add: surf_ok_def vec_ok_def)
  show "length (pg_tre_surf_serialize s dst) = length dst"
    using d al len by (simp add: pg_tre_surf_serialize_def pg_tre_surf_serialized_size_def Let_def MA length_put_at)
qed

end
