(* ===== verification/Linear_Probe.thy ===== *)
theory Linear_Probe
  imports Outcome
begin

text \<open>
  Open addressing with linear probing, as three tables of the code use it: the hash of a
  pending-list merge, the set of seen trigrams of an insert and the crack cache of a scan.
  None of them deletes. \<open>key\<close> reads the key of a slot, \<open>None\<close> for an empty one; \<open>home cap k\<close>
  is the slot where the search for \<open>k\<close> starts in a table of \<open>cap\<close> slots.
\<close>

definition probe_at :: "nat \<Rightarrow> nat \<Rightarrow> nat \<Rightarrow> nat" where
  "probe_at cap start j = (start + j) mod cap"

text \<open>The slots at which a search for \<open>k\<close> ends.\<close>

definition probe_stop :: "('a \<Rightarrow> 'k option) \<Rightarrow> 'a list \<Rightarrow> 'k \<Rightarrow> nat \<Rightarrow> bool" where
  "probe_stop key tab k i \<longleftrightarrow> key (tab ! i) = None \<or> key (tab ! i) = Some k"

definition first_stop :: "('a \<Rightarrow> 'k option) \<Rightarrow> 'a list \<Rightarrow> 'k \<Rightarrow> nat \<Rightarrow> nat \<Rightarrow> bool" where
  "first_stop key tab k start j \<longleftrightarrow> j < length tab \<and> probe_stop key tab k (probe_at (length tab) start j)
     \<and> (\<forall>j'<j. \<not> probe_stop key tab k (probe_at (length tab) start j'))"

text \<open>Every stored key lies on its own search path, before any empty slot.\<close>

definition probe_ok :: "('a \<Rightarrow> 'k option) \<Rightarrow> (nat \<Rightarrow> 'k \<Rightarrow> nat) \<Rightarrow> 'a list \<Rightarrow> bool" where
  "probe_ok key home tab \<longleftrightarrow> (\<forall>i < length tab. \<forall>k. key (tab ! i) = Some k \<longrightarrow>
     (\<exists>j. first_stop key tab k (home (length tab) k) j \<and> i = probe_at (length tab) (home (length tab) k) j))"

text \<open>The table as a map.\<close>

definition tab_get :: "('a \<Rightarrow> 'k option) \<Rightarrow> 'a list \<Rightarrow> 'k \<Rightarrow> 'a option" where
  "tab_get key tab k = List.find (\<lambda>x. key x = Some k) tab"

lemma probe_at_less [simp]: "0 < cap \<Longrightarrow> probe_at cap s j < cap"
  by (simp add: probe_at_def)

lemma probe_at_Suc: "probe_at cap s (Suc j) = (probe_at cap s j + 1) mod cap"
  by (simp add: probe_at_def mod_Suc_eq)

lemma probe_at_onto:
  assumes "i < cap"
  obtains j where "j < cap" and "probe_at cap s j = i"
proof
  let ?r = "s mod cap"
  let ?j = "if ?r \<le> i then i - ?r else i + cap - ?r"
  have r: "?r < cap" using assms by (intro mod_less_divisor) simp
  show "?j < cap" using r assms by auto
  have "?r + ?j = i \<or> ?r + ?j = i + cap" using r by (auto simp: not_le)
  then have "(?r + ?j) mod cap = i" using assms by (metis mod_add_self2 mod_less)
  then show "probe_at cap s ?j = i" by (simp add: probe_at_def mod_add_left_eq)
qed

lemma first_stop_exists:
  assumes "i < length tab" and "key (tab ! i) = None"
  shows "\<exists>j. first_stop key tab k s j"
proof -
  let ?P = "\<lambda>j. probe_stop key tab k (probe_at (length tab) s j)"
  obtain j0 where j0: "j0 < length tab" "probe_at (length tab) s j0 = i" using probe_at_onto[OF assms(1)] .
  have "?P j0" using assms j0(2) by (simp add: probe_stop_def)
  then have "?P (LEAST j. ?P j)" and "(LEAST j. ?P j) \<le> j0" by (rule LeastI, rule Least_le)
  moreover have "\<not> ?P j'" if "j' < (LEAST j. ?P j)" for j' using not_less_Least[OF that] .
  ultimately show ?thesis using j0(1) unfolding first_stop_def by (meson le_less_trans)
qed

lemma first_stop_less: "first_stop key tab k s j \<Longrightarrow> probe_at (length tab) s j < length tab"
  by (intro probe_at_less) (auto simp: first_stop_def)

lemma first_stop_unique: "first_stop key tab k s j \<Longrightarrow> first_stop key tab k s j' \<Longrightarrow> j = j'"
  unfolding first_stop_def by (meson linorder_neqE_nat)

lemma probe_ok_empty: "(\<And>x. x \<in> set tab \<Longrightarrow> key x = None) \<Longrightarrow> probe_ok key home tab"
  by (auto simp: probe_ok_def)

text \<open>A search that ends at an empty slot proves that the key is absent.\<close>

lemma search_result:
  assumes "probe_ok key home tab" and "first_stop key tab k (home (length tab) k) j" and "i < length tab" and "key (tab ! i) = Some k"
  shows "i = probe_at (length tab) (home (length tab) k) j"
proof -
  from assms(1,3,4) obtain j' where j': "first_stop key tab k (home (length tab) k) j'" "i = probe_at (length tab) (home (length tab) k) j'"
    unfolding probe_ok_def by blast
  with first_stop_unique[OF assms(2) j'(1)] show ?thesis by simp
qed

lemma probe_ok_unique:
  assumes "probe_ok key home tab" and "i < length tab" and "i' < length tab" and "key (tab ! i) = Some k" and "key (tab ! i') = Some k"
  shows "i = i'"
proof -
  from assms(1,2,4) obtain j where j: "first_stop key tab k (home (length tab) k) j" unfolding probe_ok_def by blast
  show ?thesis using search_result[OF assms(1) j assms(2,4)] search_result[OF assms(1) j assms(3,5)] by simp
qed

lemma tab_get_Some:
  assumes "probe_ok key home tab"
  shows "tab_get key tab k = Some x \<longleftrightarrow> (\<exists>i < length tab. tab ! i = x \<and> key x = Some k)"
proof
  assume "tab_get key tab k = Some x"
  then show "\<exists>i < length tab. tab ! i = x \<and> key x = Some k" unfolding tab_get_def find_Some_iff by blast
next
  assume "\<exists>i < length tab. tab ! i = x \<and> key x = Some k"
  then obtain i where i: "i < length tab" "tab ! i = x" "key x = Some k" by blast
  then have "key (tab ! j) \<noteq> Some k" if "j < i" for j using probe_ok_unique[OF assms, of j i] that by auto
  with i show "tab_get key tab k = Some x" unfolding tab_get_def find_Some_iff by blast
qed

lemma tab_get_None: "tab_get key tab k = None \<longleftrightarrow> (\<forall>i < length tab. key (tab ! i) \<noteq> Some k)"
  unfolding tab_get_def find_None_iff by (metis in_set_conv_nth)

lemma search_get:
  assumes "probe_ok key home tab" and "first_stop key tab k (home (length tab) k) j" and "s = probe_at (length tab) (home (length tab) k) j"
  shows "key (tab ! s) = Some k \<Longrightarrow> tab_get key tab k = Some (tab ! s)"
    and "key (tab ! s) \<noteq> Some k \<Longrightarrow> key (tab ! s) = None \<and> tab_get key tab k = None"
proof -
  have s: "s < length tab" using first_stop_less[OF assms(2)] assms(3) by simp
  show "key (tab ! s) = Some k \<Longrightarrow> tab_get key tab k = Some (tab ! s)" using s tab_get_Some[OF assms(1)] by blast
  show "key (tab ! s) \<noteq> Some k \<Longrightarrow> key (tab ! s) = None \<and> tab_get key tab k = None"
    using assms search_result[OF assms(1,2)] unfolding tab_get_None by (auto simp: first_stop_def probe_stop_def)
qed

text \<open>Writing an element with key \<open>k\<close> where the search for \<open>k\<close> ends.\<close>

lemma probe_ok_write:
  assumes "probe_ok key home tab" and "first_stop key tab k (home (length tab) k) j" and "s = probe_at (length tab) (home (length tab) k) j"
    and "key x = Some k"
  shows "probe_ok key home (tab[s := x])"
  unfolding probe_ok_def
proof (intro allI impI)
  fix i k' assume i: "i < length (tab[s := x])" and k': "key (tab[s := x] ! i) = Some k'"
  let ?h = "home (length tab) k'" and ?at = "probe_at (length tab)"
  have s: "s < length tab" using first_stop_less[OF assms(2)] assms(3) by simp
  have same: "probe_stop key (tab[s := x]) k' l = probe_stop key tab k' l" if "l < length tab" "l \<noteq> s" for l
    using that by (simp add: probe_stop_def)
  obtain j' where j': "first_stop key tab k' ?h j'" "i = ?at ?h j'"
  proof (cases "i = s")
    case True
    then have "k' = k" using k' s assms(4) by simp
    then show thesis using that assms(2,3) True by blast
  next
    case False
    then have "key (tab ! i) = Some k'" using k' by simp
    then show thesis using that assms(1) i unfolding probe_ok_def by auto
  qed
  have "\<not> probe_stop key (tab[s := x]) k' (?at ?h l)" if "l < j'" for l
  proof -
    have ns: "\<not> probe_stop key tab k' (?at ?h l)" using j'(1) that by (simp add: first_stop_def)
    have l: "?at ?h l < length tab" using s by (intro probe_at_less) auto
    show ?thesis
    proof (cases "?at ?h l = s")
      case True
      then have "key (tab ! s) = Some k" and "k \<noteq> k'"
        using ns assms(2,3) by (auto simp: probe_stop_def first_stop_def)
      then show ?thesis using True s assms(4) by (simp add: probe_stop_def)
    qed (use ns same[OF l] in simp)
  qed
  moreover have "probe_stop key (tab[s := x]) k' (?at ?h j')" using k' j'(2) by (simp add: probe_stop_def)
  ultimately show "\<exists>j. first_stop key (tab[s := x]) k' (home (length (tab[s := x])) k') j
      \<and> i = probe_at (length (tab[s := x])) (home (length (tab[s := x])) k') j"
    using j' by (auto simp: first_stop_def)
qed

lemma option_eqI: "(\<And>y. a = Some y \<longleftrightarrow> b = Some y) \<Longrightarrow> a = b"
  by (cases a; cases b) auto

lemma tab_get_write:
  assumes "probe_ok key home tab" and "first_stop key tab k (home (length tab) k) j" and "s = probe_at (length tab) (home (length tab) k) j"
    and "key x = Some k"
  shows "tab_get key (tab[s := x]) k' = (if k' = k then Some x else tab_get key tab k')"
proof -
  note ok' = probe_ok_write[OF assms]
  have s: "s < length tab" using first_stop_less[OF assms(2)] assms(3) by simp
  have stop: "key (tab ! s) = None \<or> key (tab ! s) = Some k" using assms(2,3) by (auto simp: first_stop_def probe_stop_def)
  show ?thesis
  proof (cases "k' = k")
    case True
    then show ?thesis using tab_get_Some[OF ok', of k x] s assms(4) by auto
  next
    case False
    have "tab_get key (tab[s := x]) k' = Some y \<longleftrightarrow> tab_get key tab k' = Some y" for y
      unfolding tab_get_Some[OF ok'] tab_get_Some[OF assms(1)]
      using False stop s assms(4) by (metis length_list_update nth_list_update option.distinct(1) option.inject)
    then have "tab_get key (tab[s := x]) k' = tab_get key tab k'" by (intro option_eqI) blast
    then show ?thesis using False by simp
  qed
qed

section \<open>The contract of a search loop\<close>

text \<open>A loop that steps to the next slot until a condition holds finds the first such slot.\<close>

lemma probe_loop:
  assumes "\<And>i. i < cap \<Longrightarrow> loop i = (if stop i then ret i else loop ((i + 1) mod cap))" and "0 < cap"
    and "stop (probe_at cap s j)" and "\<And>j'. j' < j \<Longrightarrow> \<not> stop (probe_at cap s j')" and "m \<le> j"
  shows "loop (probe_at cap s m) = ret (probe_at cap s j)"
  using assms(5)
proof (induction rule: inc_induct)
  case base
  then show ?case using assms(1)[of "probe_at cap s j"] assms(2,3) by simp
next
  case (step m)
  then show ?case using assms(1)[of "probe_at cap s m"] assms(2,4) by (simp add: probe_at_Suc)
qed

lemma probe_at_0 [simp]: "s < cap \<Longrightarrow> probe_at cap s 0 = s"
  by (simp add: probe_at_def)

text \<open>
  \<open>search tab k\<close> returns the first slot on the path of \<open>k\<close> at which the search ends; the
  masks of two of the tables are right only for the capacities \<open>cap_ok\<close>.
\<close>

locale probe_search =
  fixes key :: "'a \<Rightarrow> 'k option" and home :: "nat \<Rightarrow> 'k \<Rightarrow> nat" and cap_ok :: "nat \<Rightarrow> bool"
    and search :: "'a list \<Rightarrow> 'k \<Rightarrow> nat outcome"
  assumes search_first: "cap_ok (length tab) \<Longrightarrow> first_stop key tab k (home (length tab) k) j \<Longrightarrow>
    search tab k = ret (probe_at (length tab) (home (length tab) k) j)"
begin

text \<open>A table with an empty slot: the search ends, and a write at its result is a map update.\<close>

lemma search_write:
  assumes "cap_ok (length tab)" and "probe_ok key home tab" and "i < length tab" and "key (tab ! i) = None"
  obtains s where "search tab k = ret s" and "s < length tab"
    and "tab_get key tab k = (if key (tab ! s) = None then None else Some (tab ! s))"
    and "key (tab ! s) = None \<or> key (tab ! s) = Some k"
    and "\<And>x. key x = Some k \<Longrightarrow> probe_ok key home (tab[s := x])
          \<and> (\<forall>k'. tab_get key (tab[s := x]) k' = (if k' = k then Some x else tab_get key tab k'))"
proof -
  obtain j where j: "first_stop key tab k (home (length tab) k) j" using first_stop_exists[where key = key and tab = tab and i = i] assms(3,4) by blast
  define s where "s = probe_at (length tab) (home (length tab) k) j"
  show thesis
  proof (rule that)
    show "search tab k = ret s" unfolding s_def by (rule search_first[OF assms(1) j])
    show "s < length tab" using first_stop_less[OF j] by (simp add: s_def)
    show "key (tab ! s) = None \<or> key (tab ! s) = Some k" using j by (auto simp: s_def first_stop_def probe_stop_def)
    then show "tab_get key tab k = (if key (tab ! s) = None then None else Some (tab ! s))"
      using search_get[OF assms(2) j s_def] by auto
    show "probe_ok key home (tab[s := x]) \<and> (\<forall>k'. tab_get key (tab[s := x]) k' = (if k' = k then Some x else tab_get key tab k'))"
      if "key x = Some k" for x
      using probe_ok_write[OF assms(2) j s_def that] tab_get_write[OF assms(2) j s_def that] by blast
  qed
qed

end

text \<open>A table with fewer used slots than slots has an empty one.\<close>

definition used_slots :: "('a \<Rightarrow> 'k option) \<Rightarrow> 'a list \<Rightarrow> nat" where
  "used_slots key tab = length (filter (\<lambda>x. key x \<noteq> None) tab)"

lemma used_slots_simps [simp]:
  "used_slots key [] = 0" "used_slots key (x # xs) = (if key x = None then 0 else 1) + used_slots key xs"
  by (simp_all add: used_slots_def)

lemma tab_get_simps [simp]:
  "tab_get key [] k = None" "tab_get key (x # xs) k = (if key x = Some k then Some x else tab_get key xs k)"
  by (simp_all add: tab_get_def)

lemma used_slots_less:
  assumes "used_slots key tab < length tab"
  obtains i where "i < length tab" and "key (tab ! i) = None"
proof -
  have "\<not> (\<forall>x \<in> set tab. key x \<noteq> None)" using assms unfolding used_slots_def by (metis (mono_tags, lifting) filter_True less_irrefl)
  then show thesis using that by (auto simp: in_set_conv_nth)
qed

lemma used_slots_write:
  assumes "s < length tab" and "key x \<noteq> None"
  shows "used_slots key (tab[s := x]) = used_slots key tab + (if key (tab ! s) = None then 1 else 0)"
  using assms
proof (induction tab arbitrary: s)
  case (Cons y tab)
  then show ?case by (cases s) (auto simp: used_slots_def)
qed simp

lemma used_slots_card:
  assumes "probe_ok key home tab" and "finite Q" and "\<And>k. tab_get key tab k \<noteq> None \<Longrightarrow> k \<in> Q"
  shows "used_slots key tab \<le> card Q"
proof -
  let ?I = "{i. i < length tab \<and> key (tab ! i) \<noteq> None}"
  have "inj_on (\<lambda>i. the (key (tab ! i))) ?I"
    by (rule inj_onI) (auto intro: probe_ok_unique[OF assms(1)])
  moreover have "(\<lambda>i. the (key (tab ! i))) ` ?I \<subseteq> Q"
  proof
    fix k assume "k \<in> (\<lambda>i. the (key (tab ! i))) ` ?I"
    then obtain i where "i < length tab" "key (tab ! i) = Some k" by auto
    then have "tab_get key tab k \<noteq> None" unfolding tab_get_None by blast
    then show "k \<in> Q" by (rule assms(3))
  qed
  ultimately have "card ?I \<le> card Q" by (rule card_inj_on_le) (rule assms(2))
  then show ?thesis by (simp add: used_slots_def length_filter_conv_card)
qed

end
