(* ===== verification/Scan.thy ===== *)
theory Scan
  imports Posting Run_Catalog Pending Surf_Page Trigram_Query Linear_Probe
begin

text \<open>
  \<open>src/am/amscan.c\<close>: the scan of an index. A scan reads the pending list into an overlay,
  resolves every trigram of the query over all runs, optionally through a cache, and combines
  the resulting bitmaps by the mode of the query.

  Three moments of the index are told apart: the prefilter and the walk over the pending list
  read the states of a \<open>view\<close> (one per page read, as in the pending list), the trees are read
  afterwards, in the state \<open>idx\<close>.
\<close>

text \<open>The server's constants, the bitmap library and the settings that a scan uses.\<close>

record scan_env =
  sc_lib :: sm_lib
  sc_bits :: bitutils
  sc_blcksz :: nat
  sc_max_tuples :: nat
  sc_packing :: PgTreTidPacking
  sc_crack_on_read :: bool

section \<open>The overlay of pending entries\<close>

record PendingOverlayEntry =
  ov_hash :: uint64
  tids_arr :: "uint64 list"
  ov_tids :: "sm option"

type_synonym PendingOverlay = "PendingOverlayEntry list"

definition query_wants_trigram :: "TrigramQuery \<Rightarrow> uint64 \<Rightarrow> bool" where
  "query_wants_trigram q h = list_ex (list_ex (\<lambda>a. trigram_hash a = h)) (conjuncts q)"

text \<open>The position of the entry of a hash; a new entry goes to the end.\<close>

definition overlay_find_or_create :: "PendingOverlay \<Rightarrow> uint64 \<Rightarrow> nat \<times> PendingOverlay" where
  "overlay_find_or_create ov h =
     (let i = length (takeWhile (\<lambda>e. ov_hash e \<noteq> h) ov)
      in (i, if i < length ov then ov else ov @ [\<lparr> ov_hash = h, tids_arr = [], ov_tids = None \<rparr>]))"

definition overlay_collect_cb :: "nat \<Rightarrow> PgTreTidPacking \<Rightarrow> TrigramQuery \<Rightarrow> PendingOverlay pending_callback" where
  "overlay_collect_cb max_tuples pk q h tid pos ov =
     (if \<not> query_wants_trigram q h then ret ov
      else
        let (i, ov1) = overlay_find_or_create ov h
        in case pg_tre_pack_tid max_tuples pk tid of
             Inl (Tid_offset_exceeds off) \<Rightarrow> raise (Tid_offset_beyond_page off)
           | Inr packed \<Rightarrow> ret (ov1[i := (ov1 ! i)\<lparr> tids_arr := tids_arr (ov1 ! i) @ [packed] \<rparr>]))"

definition overlay_build :: "scan_env \<Rightarrow> (nat \<Rightarrow> tre_index) \<Rightarrow> TrigramQuery \<Rightarrow> PendingOverlay outcome" where
  "overlay_build env view q =
     pg_tre_pending_scan (sc_max_tuples env) (sc_packing env) view (overlay_collect_cb (sc_max_tuples env) (sc_packing env) q) []"

text \<open>
  The map of a hash, built from its sorted identifiers without repetitions on the first use
  and kept; \<open>NULL\<close> where there is none or memory runs out.
\<close>

fun overlay_lookup :: "sm_lib \<Rightarrow> PendingOverlay \<Rightarrow> uint64 \<Rightarrow> sm option \<times> PendingOverlay" where
  "overlay_lookup lib [] h = (None, [])"
| "overlay_lookup lib (e # es) h =
     (if ov_hash e \<noteq> h then (let (m, es') = overlay_lookup lib es h in (m, e # es'))
      else case ov_tids e of
             Some m \<Rightarrow> (Some m, e # es)
           | None \<Rightarrow>
               if tids_arr e = [] then (None, e # es)
               else let sorted_tids = sort (tids_arr e); ms = remdups_adj sorted_tids
                    in if build_fails lib ms then (None, e\<lparr> tids_arr := sorted_tids \<rparr> # es)
                       else (Some (set ms), e\<lparr> tids_arr := sorted_tids, ov_tids := Some (set ms) \<rparr> # es))"

section \<open>The crack cache\<close>

record CrackCacheEntry =
  cc_hash :: uint64
  cc_used :: bool
  cc_present :: bool
  cc_runs_sm :: "sm option"

text \<open>The slots of the cache and the number of used ones; a disabled cache has no slots.\<close>

record CrackCache =
  cc_slots :: "CrackCacheEntry list"
  cc_n :: nat

text \<open>The doubling of the capacity; a capacity of 0 does not occur.\<close>

function crack_capacity :: "nat \<Rightarrow> nat \<Rightarrow> nat" where
  "crack_capacity want cap = (if cap = 0 \<or> want \<le> cap then cap else crack_capacity want (2 * cap))"
  by pat_completeness auto
termination
  by (relation "measure (\<lambda>(want, cap). want - cap)") auto

declare crack_capacity.simps [simp del]

definition crack_cache_init :: "bool \<Rightarrow> TrigramQuery \<Rightarrow> CrackCache" where
  "crack_cache_init crack_on_read q =
     (let n_alts = sum_list (map length (conjuncts q))
      in if \<not> crack_on_read \<or> conjuncts q = [] \<or> n_alts = 0 then \<lparr> cc_slots = [], cc_n = 0 \<rparr>
         else \<lparr> cc_slots = replicate (crack_capacity (n_alts * 2) 8)
                  \<lparr> cc_hash = 0, cc_used = False, cc_present = False, cc_runs_sm = None \<rparr>, cc_n = 0 \<rparr>)"

partial_function (option) crack_probe :: "CrackCacheEntry list \<Rightarrow> uint64 \<Rightarrow> uint32 \<Rightarrow> uint32 outcome" where
  "crack_probe slots h i =
     (let e = slots ! unat i
      in if \<not> cc_used e \<or> cc_hash e = h then ret i
         else crack_probe slots h ((i + 1) AND (word_of_nat (length slots) - 1)))"

definition crack_cache_slot :: "CrackCacheEntry list \<Rightarrow> uint64 \<Rightarrow> nat outcome" where
  "crack_cache_slot slots h =
     andThen (crack_probe slots h (ucast h AND (word_of_nat (length slots) - 1))) (\<lambda>i. ret (unat i))"

section \<open>Resolving a trigram\<close>

text \<open>The loop over the runs, with the range of hashes of each run as a filter.\<close>

partial_function (option) union_runs :: "scan_env \<Rightarrow> tre_index \<Rightarrow> uint64 \<Rightarrow> PgTreRunIter \<Rightarrow> sm option \<Rightarrow> sm option outcome" where
  "union_runs env idx h it acc =
     andThen (pg_tre_run_catalog_next idx it) (\<lambda>(r, it1).
       case r of
         None \<Rightarrow> ret acc
       | Some run \<Rightarrow>
           if h < min_trigram_hash run \<or> h > max_trigram_hash run then union_runs env idx h it1 acc
           else andThen (run_posting (sc_lib env) (sc_blcksz env) idx (run_root_upper run) h) (\<lambda>p.
                  case p of
                    None \<Rightarrow> union_runs env idx h it1 acc
                  | Some run_sm \<Rightarrow> union_runs env idx h it1
                      (case acc of None \<Rightarrow> Some run_sm | Some a \<Rightarrow> sm_union (sc_lib env) a run_sm)))"

definition resolve_runs :: "scan_env \<Rightarrow> tre_index \<Rightarrow> uint64 \<Rightarrow> sm option outcome" where
  "resolve_runs env idx h = andThen (pg_tre_run_catalog_open idx) (\<lambda>it. union_runs env idx h it None)"

text \<open>What a lookup leaves in the slot: nothing is written when the copy fails.\<close>

definition crack_fill :: "sm_lib \<Rightarrow> nat \<Rightarrow> uint64 \<Rightarrow> sm option \<Rightarrow> CrackCache \<Rightarrow> CrackCache" where
  "crack_fill lib i h m cc =
     (let fill = (\<lambda>e. \<lparr> cc_slots = (cc_slots cc)[i := e], cc_n = cc_n cc + 1 \<rparr>)
      in case m of
           None \<Rightarrow> fill \<lparr> cc_hash = h, cc_used = True, cc_present = False, cc_runs_sm = None \<rparr>
         | Some a \<Rightarrow>
             (case sm_copy lib a of
                None \<Rightarrow> cc
              | Some c \<Rightarrow> fill \<lparr> cc_hash = h, cc_used = True, cc_present = True, cc_runs_sm = Some c \<rparr>))"

definition resolve_trigram_runs :: "scan_env \<Rightarrow> tre_index \<Rightarrow> uint64 \<Rightarrow> CrackCache \<Rightarrow> (sm option \<times> CrackCache) outcome" where
  "resolve_trigram_runs env idx h cc =
     (let uncached = andThen (resolve_runs env idx h) (\<lambda>m. ret (m, cc))
      in if cc_slots cc = [] then uncached
         else andThen (crack_cache_slot (cc_slots cc) h) (\<lambda>i.
           let e = cc_slots cc ! i
           in if cc_used e
              then (if \<not> cc_present e then ret (None, cc)
                    else case cc_runs_sm e of
                           None \<Rightarrow> ret (None, cc)
                         | Some a \<Rightarrow>
                             (case sm_copy (sc_lib env) a of
                                Some hit \<Rightarrow> ret (Some hit, cc)
                              | None \<Rightarrow> uncached))
              else andThen (resolve_runs env idx h) (\<lambda>m. ret (m, crack_fill (sc_lib env) i h m cc))))"

section \<open>Resolving a conjunct\<close>

type_synonym scan_mem = "PendingOverlay \<times> CrackCache"

text \<open>Adding the pending identifiers of a trigram to those of the runs.\<close>

definition with_overlay :: "sm_lib \<Rightarrow> PendingOverlay \<Rightarrow> uint64 \<Rightarrow> sm option \<Rightarrow> sm option \<times> PendingOverlay" where
  "with_overlay lib ov h m =
     (let (pend, ov') = overlay_lookup lib ov h
      in (case pend of
            None \<Rightarrow> m
          | Some p \<Rightarrow> (case m of None \<Rightarrow> sm_copy lib p | Some a \<Rightarrow> sm_union lib a p), ov'))"

definition or_into :: "sm_lib \<Rightarrow> sm option \<Rightarrow> sm option \<Rightarrow> sm option" where
  "or_into lib accum m =
     (case m of
        None \<Rightarrow> accum
      | Some b \<Rightarrow> (case accum of None \<Rightarrow> Some b | Some a \<Rightarrow> sm_union lib a b))"

primrec resolve_conjunct_with_overlay ::
    "scan_env \<Rightarrow> tre_index \<Rightarrow> TrigramConjunct \<Rightarrow> sm option \<Rightarrow> scan_mem \<Rightarrow> (sm option \<times> scan_mem) outcome" where
  "resolve_conjunct_with_overlay env idx [] accum mem = ret (accum, mem)"
| "resolve_conjunct_with_overlay env idx (a # alts) accum mem =
     (case mem of (ov, cc) \<Rightarrow>
        andThen (resolve_trigram_runs env idx (trigram_hash a) cc) (\<lambda>(m, cc').
          let (m', ov') = with_overlay (sc_lib env) ov (trigram_hash a) m
          in resolve_conjunct_with_overlay env idx alts (or_into (sc_lib env) accum m') (ov', cc')))"

section \<open>The three modes\<close>

text \<open>CNF: the intersection of the conjuncts; an empty one ends the loop with no candidate.\<close>

primrec candidates_cnf :: "scan_env \<Rightarrow> tre_index \<Rightarrow> TrigramConjunct list \<Rightarrow> sm option \<Rightarrow> scan_mem \<Rightarrow> sm option outcome" where
  "candidates_cnf env idx [] result mem = ret result"
| "candidates_cnf env idx (c # cs) result mem =
     andThen (resolve_conjunct_with_overlay env idx c None mem) (\<lambda>(m, mem').
       case m of
         None \<Rightarrow> ret None
       | Some b \<Rightarrow>
           (case result of
              None \<Rightarrow> candidates_cnf env idx cs (Some b) mem'
            | Some a \<Rightarrow>
                (case sm_intersection (sc_lib env) a b of
                   None \<Rightarrow> ret None
                 | Some merged \<Rightarrow>
                     if merged = {} then ret None else candidates_cnf env idx cs (Some merged) mem')))"

text \<open>The intersection within one piece; an absent trigram ends it.\<close>

primrec piece_and :: "scan_env \<Rightarrow> tre_index \<Rightarrow> TrigramConjunct \<Rightarrow> sm option \<Rightarrow> scan_mem \<Rightarrow> (sm option \<times> scan_mem) outcome" where
  "piece_and env idx [] piece_acc mem = ret (piece_acc, mem)"
| "piece_and env idx (a # alts) piece_acc mem =
     andThen (resolve_conjunct_with_overlay env idx [a] None mem) (\<lambda>(m, mem').
       case m of
         None \<Rightarrow> ret (None, mem')
       | Some b \<Rightarrow>
           (case piece_acc of
              None \<Rightarrow> piece_and env idx alts (Some b) mem'
            | Some p \<Rightarrow>
                (case sm_intersection (sc_lib env) p b of
                   None \<Rightarrow> ret (None, mem')
                 | Some p' \<Rightarrow> piece_and env idx alts (Some p') mem')))"

text \<open>PIECES: the union of the pieces. A union that is \<open>NULL\<close> is taken for a lack of memory.\<close>

primrec candidates_pieces :: "scan_env \<Rightarrow> tre_index \<Rightarrow> TrigramConjunct list \<Rightarrow> sm option \<Rightarrow> scan_mem \<Rightarrow> sm option outcome" where
  "candidates_pieces env idx [] result mem = ret result"
| "candidates_pieces env idx (c # cs) result mem =
     andThen (piece_and env idx c None mem) (\<lambda>(piece_acc, mem').
       case piece_acc of
         None \<Rightarrow> candidates_pieces env idx cs result mem'
       | Some p \<Rightarrow>
           (case result of
              None \<Rightarrow> candidates_pieces env idx cs (Some p) mem'
            | Some a \<Rightarrow>
                (case sm_union (sc_lib env) a p of
                   None \<Rightarrow> raise Out_of_memory
                 | Some u \<Rightarrow> candidates_pieces env idx cs (Some u) mem')))"

text \<open>DNF: the union of all alternatives, each looked up in the tree of the meta page.\<close>

primrec candidates_dnf :: "scan_env \<Rightarrow> tre_index \<Rightarrow> TrigramDisjunct list \<Rightarrow> sm option \<Rightarrow> PendingOverlay \<Rightarrow> sm option outcome" where
  "candidates_dnf env idx [] result ov = ret result"
| "candidates_dnf env idx (a # alts) result ov =
     andThen (andThen (pg_tre_upper_lookup (sc_blcksz env) idx (trigram_hash a)) (\<lambda>r.
        case r of
          None \<Rightarrow> ret None
        | Some ref \<Rightarrow> pg_tre_posting_materialize (sc_lib env) (sc_blcksz env) idx (ref_root ref) (ref_inline ref) (ref_bytes ref)))
       (\<lambda>m. let (m', ov') = with_overlay (sc_lib env) ov (trigram_hash a) m
            in candidates_dnf env idx alts (or_into (sc_lib env) result m') ov')"

text \<open>The first component is the flag \<open>out_always_true\<close>.\<close>

definition tre_compute_candidate_sm ::
    "scan_env \<Rightarrow> (nat \<Rightarrow> tre_index) \<Rightarrow> tre_index \<Rightarrow> TrigramQuery \<Rightarrow> (bool \<times> sm option) outcome" where
  "tre_compute_candidate_sm env view idx q =
     (if always_true q then ret (True, None)
      else andThen (overlay_build env view q) (\<lambda>ov.
        let cc = crack_cache_init (sc_crack_on_read env) q
        in andThen
             (case mode q of
                TRIGRAM_QUERY_CNF \<Rightarrow> candidates_cnf env idx (conjuncts q) None (ov, cc)
              | TRIGRAM_QUERY_PIECES \<Rightarrow> candidates_pieces env idx (conjuncts q) None (ov, cc)
              | TRIGRAM_QUERY_DNF \<Rightarrow> candidates_dnf env idx (concat (conjuncts q)) None ov)
             (\<lambda>m. ret (False, m))))"

end
