(* ===== verification/Char_Stream.thy ===== *)
theory Char_Stream
  imports Outcome
begin

text \<open>
  \<open>src/util/utf8.c\<close>: the stream of characters of a text in the database encoding.

  The tables of the encoding are PostgreSQL's: they are the fields of \<open>encoding\<close> and every
  definition that decodes takes one. \<open>mblen\<close> is \<open>pg_encoding_mblen_or_incomplete\<close> on the bytes
  that are left, \<open>verifymbchar\<close> and \<open>mb2wchar\<close> get the bytes of one character.
\<close>

record encoding =
  mblen :: "uint8 list \<Rightarrow> int"
  verifymbchar :: "uint8 list \<Rightarrow> int"
  mb2wchar :: "uint8 list \<Rightarrow> uint32"

datatype decoded = Decoded nat uint32 | Invalid_sequence | Truncated

definition pg_tre_decode_char :: "encoding \<Rightarrow> uint8 list \<Rightarrow> decoded" where
  "pg_tre_decode_char enc s =
     (if s = [] then Truncated
      else if \<not> bit (hd s) 7 then Decoded 1 (ucast (hd s))
      else
        let len = mblen enc s
        in if len = INT32_MAX \<or> len > int (length s) then Truncated
           else if verifymbchar enc (take (nat len) s) \<noteq> len then Invalid_sequence
           else
             let wc = mb2wchar enc (take (nat len) s)
             in Decoded (nat len) (if wc > 0x7FFFFFFF then (wc AND 0x00FFFFFF) OR 0x40000000 else wc))"

record PgTreCpStream =
  src :: "uint8 list"
  src_pos :: nat

definition pg_tre_cpstream_init :: "uint8 list \<Rightarrow> PgTreCpStream" where
  "pg_tre_cpstream_init s = \<lparr> src = s, src_pos = 0 \<rparr>"

text \<open>The result of a call is -1 at the end of the stream, or the character as an \<open>int32\<close>.\<close>

definition pg_tre_cpstream_next :: "encoding \<Rightarrow> PgTreCpStream \<Rightarrow> (int \<times> PgTreCpStream) outcome" where
  "pg_tre_cpstream_next enc s =
     (if src_pos s \<ge> length (src s) then ret (- 1, s)
      else
        case pg_tre_decode_char enc (drop (src_pos s) (src s)) of
          Decoded len wc \<Rightarrow> ret (sint wc, s\<lparr> src_pos := src_pos s + len \<rparr>)
        | _ \<Rightarrow> raise (Invalid_byte_sequence (src_pos s)))"

text \<open>All characters, as a client that reads until a negative result sees them.\<close>

partial_function (option) cpstream_chars :: "encoding \<Rightarrow> PgTreCpStream \<Rightarrow> int list outcome" where
  "cpstream_chars enc s =
     andThen (pg_tre_cpstream_next enc s) (\<lambda>(cp, s').
       if cp < 0 then ret [] else andThen (cpstream_chars enc s') (\<lambda>cps. ret (cp # cps)))"

section \<open>The stream advances and ends\<close>

text \<open>
  What the stream relies on: the length of a character is positive, as the documentation of
  \<open>pg_encoding_mblen\<close> says.
\<close>

definition encoding_ok :: "encoding \<Rightarrow> bool" where
  "encoding_ok enc \<longleftrightarrow> (\<forall>s. s \<noteq> [] \<longrightarrow> 0 < mblen enc s)"

lemma sint_nonneg: "w \<le> 0x7FFFFFFF \<Longrightarrow> 0 \<le> sint (w :: uint32)"
proof -
  assume "w \<le> 0x7FFFFFFF"
  then have "\<not> bit w 31"
    by (simp add: bit_iff_odd_drop_bit drop_bit_eq_div word_le_nat_alt) (simp add: word_arith_nat_div)
  then show ?thesis by (simp add: sint_uint signed_take_bit_nonnegative_iff bit_uint_iff)
qed

text \<open>The fold of oversized characters and the widening of a byte stay below the sign bit.\<close>

lemma folded_small: "((wc :: uint32) AND 0x00FFFFFF) OR 0x40000000 \<le> 0x7FFFFFFF"
proof -
  have "(wc AND 0x00FFFFFF) OR 0x40000000 = ((wc AND 0x00FFFFFF) OR 0x40000000) AND 0x7FFFFFFF"
    by (simp add: bit.conj_disj_distrib2 and.assoc)
  also have "\<dots> \<le> 0x7FFFFFFF" by (rule word_and_le1)
  finally show ?thesis .
qed

lemma byte_small: "(ucast (b :: uint8) :: uint32) \<le> 0x7FFFFFFF"
proof -
  have "unat (ucast b :: uint32) = unat b" using unsigned_less[of b, where 'a = nat] by (simp add: unsigned_ucast_eq take_bit_nat_eq_self)
  then show ?thesis using unsigned_less[of b, where 'a = nat] by (simp add: word_le_nat_alt)
qed

lemma decode_char_bounds:
  assumes "encoding_ok enc" and "pg_tre_decode_char enc s = Decoded len wc"
  shows "0 < len" and "len \<le> length s" and "0 \<le> sint wc"
proof -
  have "0 < len \<and> len \<le> length s \<and> wc \<le> 0x7FFFFFFF"
  proof (cases "s = [] \<or> \<not> bit (hd s) 7")
    case True
    then show ?thesis using assms(2) byte_small[of "hd s"]
      by (auto simp: pg_tre_decode_char_def Suc_le_eq split: if_splits)
  next
    case False
    then have "0 < mblen enc s" using assms(1) by (simp add: encoding_ok_def)
    then show ?thesis using False assms(2) folded_small
      by (auto simp: pg_tre_decode_char_def Let_def not_less split: if_splits)
  qed
  then show "0 < len" "len \<le> length s" "0 \<le> sint wc" using sint_nonneg by auto
qed

lemma decode_char_error_free:
  assumes "pg_tre_cpstream_next enc s = ret (cp, s')" and "encoding_ok enc" and "src_pos s < length (src s)"
  shows "0 \<le> cp \<and> src s' = src s \<and> src_pos s < src_pos s' \<and> src_pos s' \<le> length (src s)"
  using assms decode_char_bounds[OF assms(2), of "drop (src_pos s) (src s)"]
  by (auto simp: pg_tre_cpstream_next_def split: decoded.splits)

text \<open>Reading a whole text terminates: it ends with the characters, none negative, or with the error.\<close>

lemma cpstream_chars_total:
  assumes "encoding_ok enc"
  shows "(\<exists>cps. cpstream_chars enc s = ret cps \<and> (\<forall>cp \<in> set cps. 0 \<le> cp) \<and> length cps \<le> length (src s) - src_pos s)
    \<or> (\<exists>i. cpstream_chars enc s = raise (Invalid_byte_sequence i))"
proof (induction "length (src s) - src_pos s" arbitrary: s rule: less_induct)
  case less
  show ?case
  proof (cases "src_pos s < length (src s)")
    case False
    then show ?thesis by (subst (1 2) cpstream_chars.simps) (simp add: pg_tre_cpstream_next_def)
  next
    case True
    show ?thesis
    proof (cases "pg_tre_decode_char enc (drop (src_pos s) (src s))")
      case (Decoded len wc)
      define s' where "s' = s\<lparr> src_pos := src_pos s + len \<rparr>"
      note b = decode_char_bounds[OF assms Decoded]
      have nx: "pg_tre_cpstream_next enc s = ret (sint wc, s')" using True Decoded by (simp add: pg_tre_cpstream_next_def s'_def)
      have "length (src s') - src_pos s' < length (src s) - src_pos s" using True b(1) by (simp add: s'_def)
      from less[OF this] b True show ?thesis
        by (subst (1 2) cpstream_chars.simps) (auto simp: nx s'_def)
    next
      case Invalid_sequence
      then have "cpstream_chars enc s = raise (Invalid_byte_sequence (src_pos s))"
        using True by (subst cpstream_chars.simps) (simp add: pg_tre_cpstream_next_def)
      then show ?thesis by blast
    next
      case Truncated
      then have "cpstream_chars enc s = raise (Invalid_byte_sequence (src_pos s))"
        using True by (subst cpstream_chars.simps) (simp add: pg_tre_cpstream_next_def)
      then show ?thesis by blast
    qed
  qed
qed

end
