(* ===== verification/Insert.thy ===== *)
theory Insert
  imports Char_Stream Trigram_Query Linear_Probe Pending
begin

text \<open>
  \<open>src/am/aminsert.c\<close>: the insert of one row. The text is cut into trigrams, each distinct one
  is appended to the pending list once, in batches; a set with open addressing remembers the
  trigrams of the row, 0 marking an empty slot, and stops growing when it is half full.
\<close>

definition SEEN_STACK :: uint32 where
  "SEEN_STACK = 512"

definition SEEN_MAX :: uint32 where
  "SEEN_MAX = 0x400000"

partial_function (option) seen_capacity :: "uint32 \<Rightarrow> uint32 \<Rightarrow> uint32 outcome" where
  "seen_capacity len cap =
     (if cap < SEEN_MAX \<and> cap < len * 2 then seen_capacity len (push_bit 1 cap) else ret cap)"

text \<open>The set of trigrams seen: the slots, how many are used, and whether the hash 0 was seen.\<close>

record seen_set =
  seen :: "uint64 list"
  n_seen :: uint32
  seen_zero :: bool

partial_function (option) seen_probe :: "uint64 list \<Rightarrow> uint32 \<Rightarrow> uint64 \<Rightarrow> uint32 \<Rightarrow> uint32 outcome" where
  "seen_probe tab cap h slot =
     (if tab ! unat slot \<noteq> 0 \<and> tab ! unat slot \<noteq> h then seen_probe tab cap h ((slot + 1) AND (cap - 1)) else ret slot)"

text \<open>Whether a trigram is to be skipped because it was seen, and the set afterwards.\<close>

definition note_trigram :: "uint32 \<Rightarrow> uint64 \<Rightarrow> seen_set \<Rightarrow> (bool \<times> seen_set) outcome" where
  "note_trigram cap h ss =
     (if h = 0 then (if seen_zero ss then ret (True, ss) else ret (False, ss\<lparr> seen_zero := True \<rparr>))
      else if n_seen ss < cap div 2
      then andThen (seen_probe (seen ss) cap h (ucast h AND (cap - 1))) (\<lambda>slot.
             if seen ss ! unat slot = h then ret (True, ss)
             else ret (False, ss\<lparr> seen := (seen ss)[unat slot := h], n_seen := n_seen ss + 1 \<rparr>))
      else ret (False, ss))"

definition ring_push :: "int list \<Rightarrow> int \<Rightarrow> int list" where
  "ring_push ring cp = (if length ring \<ge> 3 then [ring ! 1, ring ! 2, cp] else ring @ [cp])"

text \<open>The part of the server and of the index that an insert uses without changing it.\<close>

record insert_env =
  ie_hash :: hashfn
  ie_blcksz :: nat
  ie_max_tuples :: nat
  ie_packing :: PgTreTidPacking
  ie_cap :: uint32
  ie_tid :: ItemPointer

record insert_state =
  ring :: "int list"
  seen_trigrams :: seen_set
  batch :: "uint64 list"
  ins_index :: tre_index
  ins_blocks :: "BlockNumber list"
  n_pending :: uint64

definition flush_batch :: "insert_env \<Rightarrow> insert_state \<Rightarrow> insert_state outcome" where
  "flush_batch env st =
     andThen (pg_tre_pending_append_batch (ie_blcksz env) (ie_max_tuples env) (ie_packing env) (ins_blocks st) (ins_index st)
               (map (\<lambda>h. (h, ie_tid env, 0)) (batch st)))
       (\<lambda>(n, idx, blocks). ret (st\<lparr> batch := [], ins_index := idx, ins_blocks := blocks, n_pending := n \<rparr>))"

text \<open>The body of the loop over the characters.\<close>

definition insert_char :: "insert_env \<Rightarrow> int \<Rightarrow> insert_state \<Rightarrow> insert_state outcome" where
  "insert_char env cp st =
     (let rg = ring_push (ring st) cp; st1 = st\<lparr> ring := rg \<rparr>
      in if length rg < 3 then ret st1
         else
           let h = pg_tre_hash_trigram_cp (ie_hash env) (rg ! 0, rg ! 1, rg ! 2)
           in andThen (note_trigram (ie_cap env) h (seen_trigrams st1)) (\<lambda>(skip, ss).
                if skip then ret st1
                else
                  let st2 = st1\<lparr> seen_trigrams := ss, batch := batch st1 @ [h] \<rparr>
                  in if length (batch st2) = PG_TRE_PENDING_BATCH_MAX then flush_batch env st2 else ret st2))"

partial_function (option) insert_chars :: "encoding \<Rightarrow> insert_env \<Rightarrow> PgTreCpStream \<Rightarrow> insert_state \<Rightarrow> insert_state outcome" where
  "insert_chars enc env s st =
     andThen (pg_tre_cpstream_next enc s) (\<lambda>(cp, s').
       if cp < 0 then ret st else andThen (insert_char env cp st) (insert_chars enc env s'))"

text \<open>
  \<open>try_merge\<close> is the merge that an insert past the limit tries (\<open>pg_tre_pending_maybe_merge\<close>
  with the merge lock taken, or nothing if another session holds it). The result is the
  boolean the server gets, the index and the blocks left.
\<close>

definition pg_tre_aminsert ::
    "encoding \<Rightarrow> hashfn \<Rightarrow> nat \<Rightarrow> nat \<Rightarrow> PgTreTidPacking \<Rightarrow> int \<Rightarrow> (tre_index \<Rightarrow> tre_index outcome) \<Rightarrow> BlockNumber list
      \<Rightarrow> tre_index \<Rightarrow> uint8 list option \<Rightarrow> ItemPointer \<Rightarrow> (bool \<times> tre_index) outcome" where
  "pg_tre_aminsert enc hf blcksz max_tuples pk limit_kb try_merge blocks idx value tid =
     (case value of
        None \<Rightarrow> ret (False, idx)
      | Some str \<Rightarrow>
          andThen (seen_capacity (word_of_nat (length str)) SEEN_STACK) (\<lambda>cap.
            let env = \<lparr> ie_hash = hf, ie_blcksz = blcksz, ie_max_tuples = max_tuples, ie_packing = pk, ie_cap = cap, ie_tid = tid \<rparr>;
                st0 = \<lparr> ring = [], seen_trigrams = \<lparr> seen = replicate (unat cap) 0, n_seen = 0, seen_zero = False \<rparr>,
                        batch = [], ins_index = idx, ins_blocks = blocks, n_pending = 0 \<rparr>
            in andThen (insert_chars enc env (pg_tre_cpstream_init str) st0) (\<lambda>st1.
               andThen (if batch st1 \<noteq> [] then flush_batch env st1 else ret st1) (\<lambda>st2.
                 if pending_over_limit limit_kb (n_pending st2)
                 then andThen (try_merge (ins_index st2)) (\<lambda>idx'. ret (True, idx'))
                 else ret (True, ins_index st2)))))"

end
