(* ===== verification/Pending_Chain.thy ===== *)
theory Pending_Chain
  imports Pending
begin

text \<open>
  The pending list on a well-formed chain of pages: what the readers see, that appends keep the
  chain well formed and add at its end only, and that a merge, however the appends of other
  sessions interleave with its reads, removes exactly the entries it has consumed.
\<close>

section \<open>Chains of pending pages\<close>

type_synonym pend_map = "BlockNumber \<Rightarrow> PgTrePendingPage option"

text \<open>\<open>pend_seg pages b bs e\<close>: following \<open>next_page\<close> from \<open>b\<close> visits the blocks \<open>bs\<close> and arrives at \<open>e\<close>.\<close>

fun pend_seg :: "pend_map \<Rightarrow> BlockNumber \<Rightarrow> BlockNumber list \<Rightarrow> BlockNumber \<Rightarrow> bool" where
  "pend_seg pages b [] e \<longleftrightarrow> b = e"
| "pend_seg pages b (c # bs) e \<longleftrightarrow> b = c \<and> c \<noteq> InvalidBlockNumber \<and>
     (\<exists>p. pages c = Some p \<and> pend_seg pages (next_page p) bs e)"

definition page_items :: "pend_map \<Rightarrow> BlockNumber \<Rightarrow> PgTrePendingEntry list" where
  "page_items pages b = (case pages b of None \<Rightarrow> [] | Some p \<Rightarrow> take (pend_n p) (pend_entries p))"

definition pend_items :: "pend_map \<Rightarrow> BlockNumber list \<Rightarrow> PgTrePendingEntry list" where
  "pend_items pages bs = concat (map (page_items pages) bs)"

definition page_ok :: "nat \<Rightarrow> PgTrePendingPage \<Rightarrow> bool" where
  "page_ok blcksz p \<longleftrightarrow> pend_n p \<le> length (pend_entries p) \<and> pend_n p \<le> pending_capacity blcksz"

definition pending_inv :: "nat \<Rightarrow> tre_index \<Rightarrow> BlockNumber list \<Rightarrow> bool" where
  "pending_inv blcksz idx bs \<longleftrightarrow> magic (meta_page idx) = PG_TRE_META_MAGIC
     \<and> pend_seg (pending_pages idx) (pending_head (meta_page idx)) bs InvalidBlockNumber \<and> distinct bs
     \<and> pending_tail (meta_page idx) = (if bs = [] then InvalidBlockNumber else last bs)
     \<and> (\<forall>b \<in> set bs. \<forall>p. pending_pages idx b = Some p \<longrightarrow> page_ok blcksz p)
     \<and> pending_n_entries (meta_page idx) = word_of_nat (length (pend_items (pending_pages idx) bs))"

lemma pend_seg_append: "pend_seg pages b (xs @ ys) e \<longleftrightarrow> (\<exists>m. pend_seg pages b xs m \<and> pend_seg pages m ys e)"
  by (induction xs arbitrary: b) auto

lemma pend_seg_det:
  "pend_seg pages b xs InvalidBlockNumber \<Longrightarrow> pend_seg pages b ys InvalidBlockNumber \<Longrightarrow> xs = ys"
proof (induction xs arbitrary: b ys)
  case Nil
  then show ?case by (cases ys) auto
next
  case (Cons c xs)
  then show ?case by (cases ys) auto
qed

lemma pend_seg_cong: "(\<And>b. b \<in> set bs \<Longrightarrow> pages' b = pages b) \<Longrightarrow> pend_seg pages' b bs e = pend_seg pages b bs e"
  by (induction bs arbitrary: b) auto

lemma pend_seg_mem: "pend_seg pages b bs e \<Longrightarrow> c \<in> set bs \<Longrightarrow> c \<noteq> InvalidBlockNumber \<and> (\<exists>p. pages c = Some p)"
  by (induction bs arbitrary: b) auto

lemma pend_seg_head: "pend_seg pages b bs e \<Longrightarrow> bs \<noteq> [] \<Longrightarrow> b = hd bs"
  by (cases bs) auto

lemma pend_items_simps [simp]:
  "pend_items pages [] = []" "pend_items pages (b # bs) = page_items pages b @ pend_items pages bs"
  "pend_items pages (xs @ ys) = pend_items pages xs @ pend_items pages ys"
  by (simp_all add: pend_items_def)

lemma pend_items_cong: "(\<And>b. b \<in> set bs \<Longrightarrow> pages' b = pages b) \<Longrightarrow> pend_items pages' bs = pend_items pages bs"
  by (induction bs) (auto simp: page_items_def)

lemma page_items_length: "pages b = Some p \<Longrightarrow> pend_n p \<le> length (pend_entries p) \<Longrightarrow> length (page_items pages b) = pend_n p"
  by (simp add: page_items_def)

lemma pending_inv_head:
  "pending_inv blcksz idx bs \<Longrightarrow> pending_head (meta_page idx) = (if bs = [] then InvalidBlockNumber else hd bs)"
  by (cases bs) (auto simp: pending_inv_def)

lemma pending_inv_page:
  assumes "pending_inv blcksz idx bs" and "b \<in> set bs"
  obtains p where "pending_pages idx b = Some p" and "page_ok blcksz p"
    and "page_items (pending_pages idx) b = take (pend_n p) (pend_entries p)"
    and "length (page_items (pending_pages idx) b) = pend_n p"
proof -
  from assms pend_seg_mem obtain p where p: "pending_pages idx b = Some p" unfolding pending_inv_def by blast
  with assms have "page_ok blcksz p" by (auto simp: pending_inv_def)
  with p that show ?thesis by (auto simp: page_items_def page_ok_def)
qed

lemma pending_inv_valid: "pending_inv blcksz idx bs \<Longrightarrow> b \<in> set bs \<Longrightarrow> b \<noteq> InvalidBlockNumber"
  using pend_seg_mem unfolding pending_inv_def by blast

lemma pending_inv_unique: "pending_inv blcksz idx bs \<Longrightarrow> pending_inv blcksz idx cs \<Longrightarrow> bs = cs"
  using pend_seg_det unfolding pending_inv_def by blast

section \<open>Appending\<close>

lemma pack_items_length: "pack_items mt pk its = ret es \<Longrightarrow> length es = length its"
  by (induction its arbitrary: es)
     (auto simp: andThen_ret_iff split: sum.splits tid_error.splits prod.splits)

lemma pack_items_append:
  "pack_items mt pk (xs @ ys) = andThen (pack_items mt pk xs) (\<lambda>es. andThen (pack_items mt pk ys) (\<lambda>fs. ret (es @ fs)))"
  by (induction xs)
     (auto simp: andThen_def ret_def raise_def split: sum.splits tid_error.splits prod.splits Option.bind_splits)

lemma pack_items_split:
  assumes "pack_items mt pk (xs @ ys) = ret es"
  obtains es1 es2 where "pack_items mt pk xs = ret es1" and "pack_items mt pk ys = ret es2" and "es = es1 @ es2"
  using assms unfolding pack_items_append by (auto simp: andThen_ret_iff)

lemma put_entries_ok:
  assumes "page_ok blcksz p" and "pend_n p + length es \<le> pending_capacity blcksz"
  shows "page_ok blcksz (put_entries p es)"
    and "take (pend_n (put_entries p es)) (pend_entries (put_entries p es)) = take (pend_n p) (pend_entries p) @ es"
    and "next_page (put_entries p es) = next_page p"
  using assms by (auto simp: put_entries_def page_ok_def)

lemma page_init_ok [simp]: "page_ok blcksz pending_page_init" "pend_n pending_page_init = 0"
    "pend_entries pending_page_init = []" "next_page pending_page_init = InvalidBlockNumber"
  by (simp_all add: page_ok_def pending_page_init_def)

text \<open>
  One record of the append path, by any session: some tail is acquired and at most as many
  entries as it has room for are put on it. The block that an extension hands out is not one
  of the list.
\<close>

inductive append_step :: "nat \<Rightarrow> tre_index \<Rightarrow> tre_index \<Rightarrow> bool" for blcksz :: nat where
  append_stepI: "acquire_tail blcksz idx blocks = ret (t, blocks') \<Longrightarrow>
     length es \<le> pending_capacity blcksz - pend_n (tail_page t) \<Longrightarrow>
     (\<And>b. b \<in> set blocks \<Longrightarrow> b \<noteq> InvalidBlockNumber \<and> (\<forall>bs. pending_inv blcksz idx bs \<longrightarrow> b \<notin> set bs)) \<Longrightarrow>
     append_step blcksz idx (append_record t es idx)"

inductive_cases append_stepE: "append_step blcksz idx idx'"

text \<open>What an append changes: pages are added after the last one, and entries at its end.\<close>

definition grown :: "tre_index \<Rightarrow> BlockNumber list \<Rightarrow> tre_index \<Rightarrow> BlockNumber list \<Rightarrow> bool" where
  "grown idx bs idx' bs' \<longleftrightarrow> (\<exists>ys. bs' = bs @ ys)
     \<and> (\<forall>b \<in> set (butlast bs). pending_pages idx' b = pending_pages idx b)
     \<and> (bs \<noteq> [] \<longrightarrow> (\<exists>zs. page_items (pending_pages idx') (last bs) = page_items (pending_pages idx) (last bs) @ zs))"

lemma grown_refl: "grown idx bs idx bs"
  by (simp add: grown_def)

lemma grown_trans:
  assumes "grown a as b bs" and "grown b bs c cs"
  shows "grown a as c cs"
proof -
  from assms obtain ys zs where y: "bs = as @ ys" "cs = bs @ zs" unfolding grown_def by blast
  have front: "pending_pages c x = pending_pages a x" if "x \<in> set (butlast as)" for x
  proof -
    have "x \<in> set (butlast bs)" using that y(1) by (cases "ys = []") (auto simp: butlast_append dest: in_set_butlastD)
    with that assms show ?thesis unfolding grown_def by metis
  qed
  have tail: "\<exists>ws. page_items (pending_pages c) (last as) = page_items (pending_pages a) (last as) @ ws" if ne: "as \<noteq> []"
  proof -
    obtain us where us: "page_items (pending_pages b) (last as) = page_items (pending_pages a) (last as) @ us"
      using assms(1) ne unfolding grown_def by blast
    show ?thesis
    proof (cases "ys = []")
      case True
      with y ne assms(2) us show ?thesis unfolding grown_def by (metis append.right_neutral append_assoc)
    next
      case False
      then have "last as \<in> set (butlast bs)" using y(1) ne by (simp add: butlast_append)
      then have "pending_pages c (last as) = pending_pages b (last as)" using assms(2) unfolding grown_def by blast
      with us show ?thesis by (auto simp: page_items_def)
    qed
  qed
  show ?thesis using y front tail by (simp add: grown_def)
qed

lemma append_seg_last:
  assumes "pend_seg pages b bs e" and "bs \<noteq> []" and "distinct bs"
    and "pages (last bs) = Some p" and "pages' (last bs) = Some p'" and "next_page p' = e'"
    and "\<And>c. c \<in> set (butlast bs) \<Longrightarrow> pages' c = pages c"
  shows "pend_seg pages' b bs e'"
proof -
  have bs: "bs = butlast bs @ [last bs]" using assms(2) by simp
  from assms(1) obtain m where m: "pend_seg pages b (butlast bs) m" "pend_seg pages m [last bs] e"
    by (subst (asm) bs) (auto simp: pend_seg_append)
  have "pend_seg pages' b (butlast bs) m" using m(1) pend_seg_cong[of "butlast bs" pages' pages] assms(7) by blast
  moreover have "pend_seg pages' m [last bs] e'" using m(2) assms(4-6) by auto
  ultimately show ?thesis by (subst bs) (auto simp only: pend_seg_append)
qed

lemma butlast_last_distinct: "distinct bs \<Longrightarrow> bs \<noteq> [] \<Longrightarrow> last bs \<notin> set (butlast bs)"
  by (metis append_butlast_last_id distinct_butlast not_distinct_conv_prefix)

text \<open>The three ways to acquire a tail.\<close>

lemma acquire_cases:
  assumes "pending_inv blcksz idx bs" and "acquire_tail blcksz idx blocks = ret (t, blocks')"
  obtains (first) b where "bs = []" "blocks = b # blocks'" "t = \<lparr> tail_blk = b, tail_page = pending_page_init,
        tail_is_new = True, head_is_new = True, prev_tail = None \<rparr>"
  | (full) b p where "bs \<noteq> []" "blocks = b # blocks'" "pending_pages idx (last bs) = Some p" "page_ok blcksz p"
      "t = \<lparr> tail_blk = b, tail_page = pending_page_init, tail_is_new = True, head_is_new = False,
        prev_tail = Some (last bs) \<rparr>"
  | (room) p where "bs \<noteq> []" "blocks' = blocks" "pending_pages idx (last bs) = Some p" "page_ok blcksz p"
      "pend_n p < pending_capacity blcksz"
      "t = \<lparr> tail_blk = last bs, tail_page = p, tail_is_new = False, head_is_new = False, prev_tail = None \<rparr>"
proof (cases "bs = []")
  case True
  then have "pending_tail (meta_page idx) = InvalidBlockNumber" using assms(1) by (simp add: pending_inv_def)
  with assms(2) True first show ?thesis
    by (auto simp: acquire_tail_def Let_def pg_tre_extend_def andThen_ret_iff split: list.splits)
next
  case False
  then have t: "pending_tail (meta_page idx) = last bs" "last bs \<noteq> InvalidBlockNumber"
    using assms(1) pending_inv_valid[OF assms(1), of "last bs"] by (auto simp: pending_inv_def)
  obtain p where p: "pending_pages idx (last bs) = Some p" "page_ok blcksz p"
    using pending_inv_page[OF assms(1), of "last bs"] False by auto
  show ?thesis
  proof (cases "pending_capacity blcksz \<le> pend_n p")
    case True
    with assms(2) t p full[OF False] show ?thesis
      by (auto simp: acquire_tail_def Let_def read_pending_page_def pg_tre_extend_def andThen_ret_iff split: list.splits)
  next
    case notfull: False
    with assms(2) t p room[OF False _ p] show ?thesis
      by (auto simp: acquire_tail_def Let_def read_pending_page_def)
  qed
qed

lemma append_step_inv:
  assumes "pending_inv blcksz idx bs" and "acquire_tail blcksz idx blocks = ret (t, blocks')"
    and "length es \<le> pending_capacity blcksz - pend_n (tail_page t)"
    and "\<And>b. b \<in> set blocks \<Longrightarrow> b \<noteq> InvalidBlockNumber \<and> b \<notin> set bs"
  shows "\<exists>bs'. pending_inv blcksz (append_record t es idx) bs' \<and> grown idx bs (append_record t es idx) bs'
    \<and> set bs' \<subseteq> set bs \<union> {tail_blk t} \<and> pend_items (pending_pages (append_record t es idx)) bs'
      = pend_items (pending_pages idx) bs @ es"
  using assms(1,2)
proof (cases rule: acquire_cases)
  case (first b)
  let ?p = "put_entries pending_page_init es"
  have p: "page_ok blcksz ?p" "take (pend_n ?p) (pend_entries ?p) = es" "next_page ?p = InvalidBlockNumber"
    using put_entries_ok[of blcksz pending_page_init es] assms(3) first by simp_all
  have b: "b \<noteq> InvalidBlockNumber" using assms(4) first(2) by simp
  have pages: "pending_pages (append_record t es idx) = (pending_pages idx)(b \<mapsto> ?p)"
    using first by (simp add: append_record_def link_tail_def)
  have items: "pend_items (pending_pages (append_record t es idx)) [b] = es"
    by (simp add: pages page_items_def p(2))
  have "pending_inv blcksz (append_record t es idx) [b]"
    using assms(1) first p b items unfolding pending_inv_def pages
    by (simp add: append_record_def link_tail_def)
  then show ?thesis using first items by (intro exI[of _ "[b]"]) (simp add: grown_def)
next
  case (full b p)
  let ?q = "put_entries pending_page_init es" and ?l = "last bs"
  let ?pages = "(pending_pages idx)(?l \<mapsto> p\<lparr> next_page := b \<rparr>, b \<mapsto> ?q)"
  have q: "page_ok blcksz ?q" "take (pend_n ?q) (pend_entries ?q) = es" "next_page ?q = InvalidBlockNumber"
    using put_entries_ok[of blcksz pending_page_init es] assms(3) full by simp_all
  have b: "b \<noteq> InvalidBlockNumber" "b \<notin> set bs" using assms(4) full(2) by simp_all
  have l: "?l \<in> set bs" "?l \<noteq> b" using full(1) b(2) by auto
  have pages: "pending_pages (append_record t es idx) = ?pages"
    using full by (simp add: append_record_def link_tail_def)
  have inv: "distinct bs" "pend_seg (pending_pages idx) (pending_head (meta_page idx)) bs InvalidBlockNumber"
    using assms(1) by (simp_all add: pending_inv_def)
  have same: "?pages c = pending_pages idx c" if "c \<in> set (butlast bs)" for c
    using that butlast_last_distinct[OF inv(1) full(1)] b(2) by (auto dest: in_set_butlastD)
  have it: "page_items ?pages c = page_items (pending_pages idx) c" if "c \<in> set bs" for c
    using that b(2) full(3) by (auto simp: page_items_def)
  then have items: "pend_items ?pages (bs @ [b]) = pend_items (pending_pages idx) bs @ es"
    by (simp add: pend_items_def page_items_def q(2) cong: map_cong)
  have "pend_seg ?pages (pending_head (meta_page idx)) bs b"
    by (rule append_seg_last[OF inv(2) full(1) inv(1) full(3)]) (use l same in auto)
  then have "pend_seg ?pages (pending_head (meta_page idx)) (bs @ [b]) InvalidBlockNumber"
    using b(1) q(3) by (auto simp: pend_seg_append)
  moreover have "page_ok blcksz x" if "c \<in> set (bs @ [b])" "?pages c = Some x" for c x
    using that assms(1) q(1) full(4) by (auto simp: pending_inv_def page_ok_def split: if_splits)
  ultimately have "pending_inv blcksz (append_record t es idx) (bs @ [b])"
    using assms(1) full(1,5) b(2) inv(1) unfolding pending_inv_def pages items
    by (simp add: append_record_def link_tail_def)
  moreover have "grown idx bs (append_record t es idx) (bs @ [b])"
    using same it[OF l(1)] by (simp add: grown_def pages)
  moreover have "tail_blk t = b" using full(5) by simp
  ultimately show ?thesis using items by (intro exI[of _ "bs @ [b]"]) (simp add: pages)
next
  case (room p)
  let ?q = "put_entries p es" and ?l = "last bs"
  let ?pages = "(pending_pages idx)(?l \<mapsto> ?q)"
  have q: "page_ok blcksz ?q" "take (pend_n ?q) (pend_entries ?q) = take (pend_n p) (pend_entries p) @ es"
      "next_page ?q = next_page p"
    using put_entries_ok[of blcksz p es] assms(3) room by simp_all
  have pages: "pending_pages (append_record t es idx) = ?pages"
    using room by (simp add: append_record_def link_tail_def)
  have inv: "distinct bs" "pend_seg (pending_pages idx) (pending_head (meta_page idx)) bs InvalidBlockNumber"
    using assms(1) by (simp_all add: pending_inv_def)
  have same: "?pages c = pending_pages idx c" if "c \<in> set (butlast bs)" for c
    using that butlast_last_distinct[OF inv(1) room(1)] by auto
  have bs: "bs = butlast bs @ [?l]" using room(1) by simp
  have it: "page_items ?pages ?l = page_items (pending_pages idx) ?l @ es"
    using q(2) room(3) by (simp add: page_items_def)
  have "pend_items ?pages (butlast bs) = pend_items (pending_pages idx) (butlast bs)"
    using same by (rule pend_items_cong)
  then have items: "pend_items ?pages bs = pend_items (pending_pages idx) bs @ es"
    by (subst (1 2) bs) (simp add: it del: append_butlast_last_id fun_upd_apply)
  have nx: "next_page p = InvalidBlockNumber"
    using inv(2) room(3) by (subst (asm) bs) (auto simp: pend_seg_append)
  have "pend_seg ?pages (pending_head (meta_page idx)) bs InvalidBlockNumber"
    by (rule append_seg_last[OF inv(2) room(1) inv(1) room(3), where p' = ?q]) (use same nx q(3) in auto)
  then have "pending_inv blcksz (append_record t es idx) bs"
    using assms(1) room q(1) unfolding pending_inv_def pages items
    by (simp add: append_record_def link_tail_def)
  moreover have "grown idx bs (append_record t es idx) bs"
    using same it by (simp add: grown_def pages)
  ultimately show ?thesis using items by (intro exI[of _ bs]) (auto simp: pages)
qed

lemma acquire_ret:
  assumes "pending_inv blcksz idx bs" and "blocks \<noteq> []" and "0 < pending_capacity blcksz"
  shows "\<exists>t blocks'. acquire_tail blcksz idx blocks = ret (t, blocks') \<and> pend_n (tail_page t) < pending_capacity blcksz
    \<and> (blocks' = blocks \<or> blocks' = tl blocks) \<and> (tail_blk t \<in> set bs \<or> blocks' = tl blocks \<and> tail_blk t = hd blocks)"
proof (cases "bs = []")
  case True
  then show ?thesis using assms
    by (cases blocks) (auto simp: acquire_tail_def Let_def pg_tre_extend_def pending_inv_def)
next
  case False
  then have t: "pending_tail (meta_page idx) = last bs" "last bs \<noteq> InvalidBlockNumber"
    using assms(1) pending_inv_valid[OF assms(1), of "last bs"] by (auto simp: pending_inv_def)
  obtain p where p: "pending_pages idx (last bs) = Some p"
    using pending_inv_page[OF assms(1), of "last bs"] False by auto
  show ?thesis using assms(2,3) False t p
    by (cases blocks) (auto simp: acquire_tail_def Let_def read_pending_page_def pg_tre_extend_def)
qed

text \<open>
  The append loop on a well-formed list: it terminates, every item is packed and added at the
  end in order, and the returned count is the counter of the meta page. Each iteration is one
  step of the append path. At most one block per item is needed.
\<close>

lemma append_loop_ret:
  assumes "pending_inv blcksz idx bs" and "0 < pending_capacity blcksz"
    and "pack_items mt pk items = ret es" and "length items \<le> length blocks" and "distinct blocks"
    and "\<And>b. b \<in> set blocks \<Longrightarrow> b \<noteq> InvalidBlockNumber \<and> b \<notin> set bs"
  shows "\<exists>idx' blocks' bs'. append_loop blcksz mt pk blocks idx items n =
      ret (if items = [] then n else pending_n_entries (meta_page idx'), idx', blocks')
    \<and> (append_step blcksz)\<^sup>*\<^sup>* idx idx' \<and> pending_inv blcksz idx' bs' \<and> grown idx bs idx' bs'
    \<and> (\<exists>k \<le> length items. blocks' = drop k blocks \<and> set bs' \<subseteq> set bs \<union> set (take k blocks))
    \<and> pend_items (pending_pages idx') bs' = pend_items (pending_pages idx) bs @ es"
  using assms
proof (induction "length items" arbitrary: items es idx bs blocks n rule: less_induct)
  case less
  show ?case
  proof (cases "items = []")
    case True
    with less.prems show ?thesis by (subst append_loop.simps) (auto simp: grown_refl)
  next
    case False
    then have "blocks \<noteq> []" using less.prems(4) by auto
    from acquire_ret[OF less.prems(1) this less.prems(2)] obtain t blocks' where
      t: "acquire_tail blcksz idx blocks = ret (t, blocks')" "pend_n (tail_page t) < pending_capacity blcksz"
        "blocks' = blocks \<or> blocks' = tl blocks" "tail_blk t \<in> set bs \<or> blocks' = tl blocks \<and> tail_blk t = hd blocks"
      by blast
    define room where "room = pending_capacity blcksz - pend_n (tail_page t)"
    have room: "0 < room" using t(2) by (simp add: room_def)
    obtain es1 es2 where es: "pack_items mt pk (take room items) = ret es1" "pack_items mt pk (drop room items) = ret es2"
        "es = es1 @ es2"
      using pack_items_split[of mt pk "take room items" "drop room items" es] less.prems(3) by auto
    have len: "length es1 \<le> room" using pack_items_length[OF es(1)] by simp
    define idx1 where "idx1 = append_record t es1 idx"
    from append_step_inv[OF less.prems(1) t(1)] len less.prems(6) obtain bs1 where
      bs1: "pending_inv blcksz idx1 bs1" "grown idx bs idx1 bs1" "set bs1 \<subseteq> set bs \<union> {tail_blk t}"
        "pend_items (pending_pages idx1) bs1 = pend_items (pending_pages idx) bs @ es1"
      unfolding room_def idx1_def by blast
    have step: "append_step blcksz idx idx1"
      unfolding idx1_def
    proof (rule append_stepI[OF t(1)])
      show "b \<noteq> InvalidBlockNumber \<and> (\<forall>bs. pending_inv blcksz idx bs \<longrightarrow> b \<notin> set bs)" if "b \<in> set blocks" for b
        using less.prems(6)[OF that] pending_inv_unique[OF less.prems(1)] by blast
    qed (use len room_def in simp)
    obtain k0 where k0: "k0 \<le> 1" "blocks' = drop k0 blocks" "set bs1 \<subseteq> set bs \<union> set (take k0 blocks)"
    proof (cases "tail_blk t \<in> set bs \<and> blocks' = blocks")
      case True
      then show thesis using bs1(3) by (intro that[of 0]) auto
    next
      case False
      then have "blocks' = tl blocks \<and> (tail_blk t \<in> set bs \<or> tail_blk t = hd blocks)" using t(3,4) by blast
      then show thesis using bs1(3) \<open>blocks \<noteq> []\<close> by (intro that[of 1]) (cases blocks; auto simp: drop_Suc)+
    qed
    have hd: "distinct blocks'" "set blocks' \<subseteq> set blocks" "length (drop room items) \<le> length blocks'"
      using k0(1,2) less.prems(4,5) room by (auto dest: in_set_dropD)
    have fresh: "b \<noteq> InvalidBlockNumber \<and> b \<notin> set bs1" if "b \<in> set blocks'" for b
    proof -
      have "b \<noteq> tail_blk t"
        using that t(4) less.prems(5,6) hd(2) \<open>blocks \<noteq> []\<close> by (cases blocks) auto
      then show ?thesis using less.prems(6)[of b] that hd(2) bs1(3) by blast
    qed
    have "length (drop room items) < length items" using room False by simp
    from less.hyps[OF this bs1(1) less.prems(2) es(2) hd(3,1) fresh, of "pending_n_entries (meta_page idx1)"]
    obtain idx' blocks'' bs' where rec: "append_loop blcksz mt pk blocks' idx1 (drop room items) (pending_n_entries (meta_page idx1)) =
        ret (if drop room items = [] then pending_n_entries (meta_page idx1) else pending_n_entries (meta_page idx'), idx', blocks'')"
      "(append_step blcksz)\<^sup>*\<^sup>* idx1 idx'" "pending_inv blcksz idx' bs'" "grown idx1 bs1 idx' bs'"
      "\<exists>k \<le> length (drop room items). blocks'' = drop k blocks' \<and> set bs' \<subseteq> set bs1 \<union> set (take k blocks')"
      "pend_items (pending_pages idx') bs' = pend_items (pending_pages idx1) bs1 @ es2"
      by blast
    have stop: "drop room items = [] \<Longrightarrow> idx' = idx1" using rec(1) by (subst (asm) append_loop.simps) auto
    have "append_loop blcksz mt pk blocks idx items n =
        append_loop blcksz mt pk blocks' idx1 (drop room items) (pending_n_entries (meta_page idx1))"
      using False t(1,2) es(1) room by (subst append_loop.simps) (simp add: Let_def room_def idx1_def)
    then have "append_loop blcksz mt pk blocks idx items n = ret (pending_n_entries (meta_page idx'), idx', blocks'')"
      using rec(1) stop by (auto split: if_splits)
    moreover have "\<exists>k \<le> length items. blocks'' = drop k blocks \<and> set bs' \<subseteq> set bs \<union> set (take k blocks)"
    proof -
      from rec(5) obtain k where k: "k \<le> length (drop room items)" "blocks'' = drop k blocks'"
          "set bs' \<subseteq> set bs1 \<union> set (take k blocks')" by blast
      have "set (take (k0 + k) blocks) = set (take k0 blocks) \<union> set (take k blocks')"
        unfolding k0(2) by (simp add: take_add)
      moreover have "k0 + k \<le> length items" using k(1) k0(1) room False by (cases items) auto
      ultimately show ?thesis using k k0 by (intro exI[of _ "k0 + k"]) (auto simp: add.commute)
    qed
    ultimately show ?thesis
      using False rec(3,6) bs1(4) es(3) grown_trans[OF bs1(2) rec(4)] converse_rtranclp_into_rtranclp[of "append_step blcksz", OF step rec(2)]
      by (intro exI[of _ idx'] exI[of _ blocks''] exI[of _ bs']) (simp del: Un_iff)
  qed
qed

lemma steps_inv:
  assumes "(append_step blcksz)\<^sup>*\<^sup>* idx idx'" and "pending_inv blcksz idx bs"
  shows "\<exists>bs'. pending_inv blcksz idx' bs' \<and> grown idx bs idx' bs'"
  using assms
proof (induction rule: rtranclp_induct)
  case base
  then show ?case using grown_refl by blast
next
  case (step j k)
  then obtain bs1 where bs1: "pending_inv blcksz j bs1" "grown idx bs j bs1" by blast
  from step.hyps(2) obtain blocks t blocks' es where
    st: "k = append_record t es j" "acquire_tail blcksz j blocks = ret (t, blocks')"
      "length es \<le> pending_capacity blcksz - pend_n (tail_page t)"
      "\<And>b. b \<in> set blocks \<Longrightarrow> b \<noteq> InvalidBlockNumber \<and> (\<forall>bs. pending_inv blcksz j bs \<longrightarrow> b \<notin> set bs)"
    by (elim append_stepE) blast
  from append_step_inv[OF bs1(1) st(2,3)] st(4) bs1(1) obtain bs2 where
    "pending_inv blcksz k bs2" "grown j bs1 k bs2" unfolding st(1) by blast
  then show ?case using grown_trans[OF bs1(2)] by blast
qed

section \<open>Reading\<close>

lemma visit_append:
  "visit_entries mt pk cb (xs @ ys) ctx = andThen (visit_entries mt pk cb xs ctx) (visit_entries mt pk cb ys)"
  by (simp add: visit_entries_def ofold_append)

text \<open>A history of the index as a reader's successive reads find it: only appends happen between them.\<close>

definition append_history :: "nat \<Rightarrow> (nat \<Rightarrow> tre_index) \<Rightarrow> bool" where
  "append_history blcksz view \<longleftrightarrow> (\<forall>i. (append_step blcksz)\<^sup>*\<^sup>* (view i) (view (Suc i)))"

lemma history_steps:
  assumes "append_history blcksz view" and "i \<le> j"
  shows "(append_step blcksz)\<^sup>*\<^sup>* (view i) (view j)"
  using assms(2)
proof (induction rule: dec_induct)
  case (step n)
  then show ?case using assms(1) unfolding append_history_def by (meson rtranclp_trans)
qed simp

text \<open>A page of the front of the list is the same at every later read.\<close>

lemma grown_front:
  assumes "grown idx bs idx' bs'" and "b \<in> set (butlast bs)"
  shows "pending_pages idx' b = pending_pages idx b"
  using assms unfolding grown_def by blast

lemma grown_page:
  assumes "grown idx bs idx' bs'" and "b \<in> set bs"
  shows "\<exists>zs. page_items (pending_pages idx') b = page_items (pending_pages idx) b @ zs"
proof (cases bs rule: rev_cases)
  case (snoc fr l)
  show ?thesis
  proof (cases "b = l")
    case True
    then show ?thesis using assms(1) snoc unfolding grown_def by auto
  next
    case False
    then show ?thesis using grown_front[OF assms(1), of b] assms(2) snoc by (simp add: page_items_def)
  qed
qed (use assms in simp)

text \<open>
  The walk of a merge over a list that starts with the blocks \<open>ys\<close> and the watermark tail,
  whatever was linked behind it, reads their entries as they were when the watermark was taken.
\<close>

lemma watermark_walk_front:
  assumes hist: "append_history blcksz view" and "pending_inv blcksz (view i0) (xs @ ys @ wm_tail wm # ws)" and "i0 \<le> i"
    and "pend_seg (pending_pages (view i0)) b (ys @ [wm_tail wm]) e"
    and n: "wm_tail_n wm = length (page_items (pending_pages (view i0)) (wm_tail wm))"
  shows "watermark_walk mt pk cb wm view i b ctx consumed =
    andThen (visit_entries mt pk cb (pend_items (pending_pages (view i0)) (ys @ [wm_tail wm])) ctx)
      (\<lambda>ctx'. ret (ctx', consumed @ ys))"
  using assms(2-4)
proof (induction ys arbitrary: xs i b ctx consumed)
  case Nil
  let ?w = "wm_tail wm"
  from steps_inv[OF history_steps[OF hist Nil.prems(2)] Nil.prems(1)] obtain bs' where
    bs': "pending_inv blcksz (view i) bs'" "grown (view i0) (xs @ [] @ ?w # ws) (view i) bs'" by blast
  obtain zs where zs: "page_items (pending_pages (view i)) ?w = page_items (pending_pages (view i0)) ?w @ zs"
    using grown_page[OF bs'(2), of ?w] by auto
  have "?w \<in> set bs'" using bs'(2) unfolding grown_def by auto
  from pending_inv_page[OF bs'(1) this] obtain p where p: "pending_pages (view i) ?w = Some p"
    "page_items (pending_pages (view i)) ?w = take (pend_n p) (pend_entries p)"
    "length (page_items (pending_pages (view i)) ?w) = pend_n p" by blast
  have le: "wm_tail_n wm \<le> pend_n p" using n p(3) zs by simp
  have "take (wm_tail_n wm) (pend_entries p) = take (wm_tail_n wm) (page_items (pending_pages (view i)) ?w)"
    using p(2) le by (simp add: min_absorb1)
  then have tk: "take (wm_tail_n wm) (pend_entries p) = page_items (pending_pages (view i0)) ?w" using zs n by simp
  have b: "b = ?w" "b \<noteq> InvalidBlockNumber" using Nil.prems(3) by auto
  have lim: "(if b = ?w \<and> pend_n p > wm_tail_n wm then wm_tail_n wm else pend_n p) = wm_tail_n wm" using le b by auto
  show ?case using p(1) b tk lim by (subst watermark_walk.simps) (simp add: read_pending_page_def Let_def)
next
  case (Cons y ys)
  let ?w = "wm_tail wm"
  have y: "y \<in> set (butlast (xs @ (y # ys) @ ?w # ws))" by (simp add: butlast_append)
  from steps_inv[OF history_steps[OF hist Cons.prems(2)] Cons.prems(1)] obtain bs' where
    bs': "grown (view i0) (xs @ (y # ys) @ ?w # ws) (view i) bs'" by blast
  obtain p where p: "pending_pages (view i0) y = Some p" "pend_seg (pending_pages (view i0)) (next_page p) (ys @ [?w]) e"
      "b = y" "y \<noteq> InvalidBlockNumber"
    using Cons.prems(3) by auto
  have pi: "pending_pages (view i) y = Some p" using grown_front[OF bs' y] p(1) by simp
  have ny: "y \<noteq> ?w" using Cons.prems(1) by (auto simp: pending_inv_def)
  have it: "page_items (pending_pages (view i0)) y = take (pend_n p) (pend_entries p)" using p(1) by (simp add: page_items_def)
  have "watermark_walk mt pk cb wm view i b ctx consumed =
      andThen (visit_entries mt pk cb (take (pend_n p) (pend_entries p)) ctx)
        (\<lambda>ctx'. watermark_walk mt pk cb wm view (Suc i) (next_page p) ctx' (consumed @ [y]))"
    using p(3,4) pi ny by (subst watermark_walk.simps) (simp add: read_pending_page_def Let_def)
  also have "\<dots> = andThen (visit_entries mt pk cb (take (pend_n p) (pend_entries p)) ctx)
      (\<lambda>ctx'. andThen (visit_entries mt pk cb (pend_items (pending_pages (view i0)) (ys @ [?w])) ctx')
        (\<lambda>ctx''. ret (ctx'', consumed @ y # ys)))"
    using Cons.IH[of "xs @ [y]" "Suc i" "next_page p"] Cons.prems(1,2) p(2) by simp
  finally show ?case by (simp add: it visit_append andThen_assoc)
qed

section \<open>Finalising a merge\<close>

lemma survivor_tally_ret:
  assumes "pend_seg (pending_pages idx) b bs InvalidBlockNumber"
    and "\<And>c p. c \<in> set bs \<Longrightarrow> pending_pages idx c = Some p \<Longrightarrow> pend_n p \<le> length (pend_entries p)"
  shows "survivor_tally idx b acc = ret (acc + word_of_nat (length (pend_items (pending_pages idx) bs)))"
  using assms
proof (induction bs arbitrary: b acc)
  case Nil
  then show ?case by (subst survivor_tally.simps) simp
next
  case (Cons c bs)
  then obtain p where p: "pending_pages idx c = Some p" "pend_seg (pending_pages idx) (next_page p) bs InvalidBlockNumber"
      "b = c" "c \<noteq> InvalidBlockNumber" by auto
  have "length (page_items (pending_pages idx) c) = pend_n p" using Cons.prems(2)[of c p] p(1) by (simp add: page_items_def)
  moreover have "survivor_tally idx (next_page p) (acc + word_of_nat (pend_n p))
      = ret (acc + word_of_nat (pend_n p) + word_of_nat (length (pend_items (pending_pages idx) bs)))"
    by (rule Cons.IH[OF p(2)]) (rule Cons.prems(2), simp_all)
  ultimately show ?case using p(1,3,4)
    by (subst survivor_tally.simps) (simp add: read_pending_page_def add.assoc)
qed

lemma sub32_le: "b \<le> a \<Longrightarrow> a < 2 ^ 32 \<Longrightarrow> sub32 a b = a - b"
  unfolding sub32_def
  by (subst unat_sub) (simp_all add: word_le_nat_alt unat_of_nat take_bit_nat_eq_self)

lemma counter_sub:
  assumes "a + b < 2 ^ 64"
  shows "(word_of_nat b :: uint64) \<le> word_of_nat (a + b)" and "word_of_nat (a + b) - word_of_nat b = (word_of_nat a :: uint64)"
  using assms by (simp_all add: word_le_nat_alt unat_of_nat take_bit_nat_eq_self del: of_nat_add) simp

lemma compact_tail_items:
  assumes "pend_n p \<le> length (pend_entries p)" and "wm_tail_n wm \<le> pend_n p" and "s = pend_n p - wm_tail_n wm"
  shows "take (pend_n (compact_tail wm s p)) (pend_entries (compact_tail wm s p)) = drop (wm_tail_n wm) (take (pend_n p) (pend_entries p))"
    and "page_ok blcksz p \<Longrightarrow> page_ok blcksz (compact_tail wm s p)" and "next_page (compact_tail wm s p) = next_page p"
  using assms by (auto simp: compact_tail_def page_ok_def drop_take)

text \<open>
  The state of a list at finalisation: the blocks of the watermark, the last of them the
  watermark tail, then the pages that appends have linked since.
\<close>

definition merge_end :: "nat \<Rightarrow> tre_index \<Rightarrow> BlockNumber list \<Rightarrow> watermark \<Rightarrow> BlockNumber list \<Rightarrow> bool" where
  "merge_end blcksz idx front wm late \<longleftrightarrow> pending_inv blcksz idx (front @ wm_tail wm # late)
     \<and> wm_tail_n wm \<le> length (page_items (pending_pages idx) (wm_tail wm))
     \<and> pending_capacity blcksz < 2 ^ 32
     \<and> length (pend_items (pending_pages idx) (front @ wm_tail wm # late)) < 2 ^ 64"

lemma merge_end_page:
  assumes "merge_end blcksz idx front wm late"
  obtains p where "pending_pages idx (wm_tail wm) = Some p" and "page_ok blcksz p" and "wm_tail_n wm \<le> pend_n p"
    and "page_items (pending_pages idx) (wm_tail wm) = take (pend_n p) (pend_entries p)"
    and "pend_seg (pending_pages idx) (next_page p) late InvalidBlockNumber"
proof -
  have inv: "pending_inv blcksz idx (front @ wm_tail wm # late)" using assms by (simp add: merge_end_def)
  from pending_inv_page[OF inv, of "wm_tail wm"] obtain p where p: "pending_pages idx (wm_tail wm) = Some p" "page_ok blcksz p"
      "page_items (pending_pages idx) (wm_tail wm) = take (pend_n p) (pend_entries p)"
      "length (page_items (pending_pages idx) (wm_tail wm)) = pend_n p"
    by (metis in_set_conv_decomp)
  moreover have "pend_seg (pending_pages idx) (next_page p) late InvalidBlockNumber"
    using inv p(1) by (auto simp: pending_inv_def pend_seg_append)
  ultimately show thesis using that assms by (simp add: merge_end_def)
qed

lemma rewind_iff:
  assumes "merge_end blcksz idx front wm late" and "pending_pages idx (wm_tail wm) = Some p"
  shows "rewind_needed wm (meta_page idx) p \<longleftrightarrow> wm_tail_n wm < pend_n p \<or> late \<noteq> []"
proof -
  have seg: "pend_seg (pending_pages idx) (next_page p) late InvalidBlockNumber"
    using merge_end_page[OF assms(1)] assms(2) by (metis option.inject)
  have "pending_tail (meta_page idx) = last (wm_tail wm # late)" using assms(1) by (simp add: merge_end_def pending_inv_def)
  then show ?thesis using seg by (cases late) (auto simp: rewind_needed_def)
qed

lemma finalize_drop_all:
  assumes "merge_end blcksz idx front wm late" and "pending_pages idx (wm_tail wm) = Some p" and "\<not> rewind_needed wm (meta_page idx) p"
  shows "\<exists>idx'. finalize_merge idx root rng ntri ntup wm front adds
      = ret (word_of_nat (length (pend_items (pending_pages idx) front @ take (wm_tail_n wm) (page_items (pending_pages idx) (wm_tail wm)))),
          front @ [wm_tail wm], idx')
    \<and> pending_inv blcksz idx' [] \<and> pend_items (pending_pages idx) (front @ wm_tail wm # late)
      = pend_items (pending_pages idx) front @ take (wm_tail_n wm) (page_items (pending_pages idx) (wm_tail wm))
    \<and> late = [] \<and> root_upper (meta_page idx') = root"
proof -
  have inv: "pending_inv blcksz idx (front @ wm_tail wm # late)" using assms(1) by (simp add: merge_end_def)
  have late: "late = []" "pend_n p \<le> wm_tail_n wm" using assms(3) rewind_iff[OF assms(1,2)] by auto
  have "length (page_items (pending_pages idx) (wm_tail wm)) = pend_n p"
    using pending_inv_page[OF inv, of "wm_tail wm"] assms(2) by (metis in_set_conv_decomp option.inject)
  then have it: "take (wm_tail_n wm) (page_items (pending_pages idx) (wm_tail wm)) = page_items (pending_pages idx) (wm_tail wm)"
    using late(2) by simp
  show ?thesis
    using assms(2,3) pending_inv_valid[OF inv, of "wm_tail wm"] inv late(1) it
    by (auto simp: finalize_merge_def Let_def read_pending_page_def pending_inv_def swap_roots_def)
qed

lemma finalize_rewound:
  assumes "merge_end blcksz idx front wm late" and "pending_pages idx (wm_tail wm) = Some p" and "rewind_needed wm (meta_page idx) p"
  shows "\<exists>idx'. finalize_merge idx root rng ntri ntup wm front adds
      = ret (word_of_nat (length (pend_items (pending_pages idx) front @ take (wm_tail_n wm) (page_items (pending_pages idx) (wm_tail wm)))),
          front, idx')
    \<and> pending_inv blcksz idx' (wm_tail wm # late) \<and> pend_items (pending_pages idx) (front @ wm_tail wm # late)
      = pend_items (pending_pages idx) front @ take (wm_tail_n wm) (page_items (pending_pages idx) (wm_tail wm))
        @ pend_items (pending_pages idx') (wm_tail wm # late) \<and> root_upper (meta_page idx') = root"
proof -
  let ?k = "wm_tail_n wm" and ?P = "pending_pages idx" and ?w = "wm_tail wm"
  have inv: "pending_inv blcksz idx (front @ wm_tail wm # late)" using assms(1) by (simp add: merge_end_def)
  from merge_end_page[OF assms(1)] assms(2) have p: "page_ok blcksz p" "?k \<le> pend_n p" "page_items ?P ?w = take (pend_n p) (pend_entries p)"
      "pend_seg ?P (next_page p) late InvalidBlockNumber" by (metis option.inject)+
  define s where "s = pend_n p - ?k"
  let ?q = "compact_tail wm s p" and ?P' = "?P(?w \<mapsto> compact_tail wm s p)"
  have surv: "sub32 (pend_n p) ?k = s" using p(1,2) assms(1) by (simp add: sub32_le s_def page_ok_def merge_end_def)
  have np: "pend_n p \<le> length (pend_entries p)" using p(1) by (simp add: page_ok_def)
  note ct = compact_tail_items[OF np p(2) s_def]
  have q: "take (pend_n ?q) (pend_entries ?q) = drop ?k (page_items ?P ?w)" "page_ok blcksz ?q" "next_page ?q = next_page p"
    unfolding p(3) by (rule ct(1), rule ct(2)[OF p(1)], rule ct(3))
  have nl: "?w \<notin> set late" "distinct late" using inv by (simp_all add: pending_inv_def)
  have eqP: "?P' b = ?P b" if "b \<in> set late" for b using that nl(1) by auto
  have late: "pend_seg ?P' (next_page p) late InvalidBlockNumber" "pend_items ?P' late = pend_items ?P late"
    using p(4) eqP pend_seg_cong[of late ?P' ?P, OF eqP] pend_items_cong[of late ?P' ?P, OF eqP] by blast+
  have items: "pend_items ?P' (?w # late) = drop ?k (page_items ?P ?w) @ pend_items ?P late"
    using late(2) q(1) by (simp add: page_items_def)
  have ns: "length (drop ?k (page_items ?P ?w)) = s" using p(1-3) by (simp add: s_def page_ok_def)
  define tot where "tot = (word_of_nat (length (pend_items ?P' (?w # late))) :: uint64)"
  have tally: "survivor_tally idx (next_page p) (word_of_nat s) = ret tot"
  proof -
    have "survivor_tally idx (next_page p) (word_of_nat s) = ret (word_of_nat s + word_of_nat (length (pend_items ?P late)))"
      by (rule survivor_tally_ret[OF p(4)]) (use inv in \<open>auto simp: pending_inv_def page_ok_def\<close>)
    then show ?thesis using ns unfolding items tot_def by simp
  qed
  have whole: "pend_items ?P (front @ ?w # late) = pend_items ?P front @ take ?k (page_items ?P ?w) @ pend_items ?P' (?w # late)"
    using items by simp
  let ?es = "pend_items ?P front @ take ?k (page_items ?P ?w)"
  have len: "length (pend_items ?P (front @ ?w # late)) = length ?es + length (pend_items ?P' (?w # late))"
    unfolding whole by (simp del: pend_items_simps)
  have "pending_n_entries (meta_page idx) = word_of_nat (length (pend_items ?P (front @ ?w # late)))"
      "length (pend_items ?P (front @ ?w # late)) < 2 ^ 64"
    using assms(1) by (simp_all add: merge_end_def pending_inv_def)
  then have sub: "tot \<le> pending_n_entries (meta_page idx)" "pending_n_entries (meta_page idx) - tot = word_of_nat (length ?es)"
    unfolding len tot_def using counter_sub by metis+
  define idx' where "idx' = idx\<lparr> pending_pages := ?P', meta_page := swap_roots root rng ntri ntup adds
      ((meta_page idx)\<lparr> pending_head := ?w, pending_n_entries := tot \<rparr>) \<rparr>"
  have "finalize_merge idx root rng ntri ntup wm front adds = ret (word_of_nat (length ?es), front, idx')"
    using assms(2,3) pending_inv_valid[OF inv, of ?w] surv tally sub
    by (simp add: finalize_merge_def Let_def read_pending_page_def idx'_def)
  moreover have "pending_inv blcksz idx' (?w # late)"
    using inv pending_inv_valid[OF inv, of ?w] late(1) q(2,3) nl unfolding pending_inv_def
    by (auto simp: idx'_def swap_roots_def tot_def)
  ultimately show ?thesis using whole by (auto simp: idx'_def swap_roots_def)
qed

end
