(* ===== verification/Pending_Read.thy ===== *)
theory Pending_Read
  imports Pending_Chain
begin

text \<open>
  What the readers of the pending list see while other sessions append: the scan of a query
  returns every entry that was there when it started, in order, and a merge consumes a prefix
  of the list and leaves the rest.
\<close>

section \<open>The scan of a query\<close>

lemma grown_items:
  assumes "grown idx (xs @ zs) idx' (xs @ zs')"
  shows "\<exists>us. pend_items (pending_pages idx') zs' = pend_items (pending_pages idx) zs @ us"
proof (cases zs rule: rev_cases)
  case Nil
  then show ?thesis by simp
next
  case (snoc ys y)
  from assms obtain ws where ws: "zs' = zs @ ws" unfolding grown_def by auto
  have "butlast (xs @ zs) = xs @ ys" using snoc by (simp add: butlast_append)
  then have "pending_pages idx' b = pending_pages idx b" if "b \<in> set ys" for b
    using grown_front[OF assms, of b] that by simp
  then have "pend_items (pending_pages idx') ys = pend_items (pending_pages idx) ys" by (rule pend_items_cong)
  moreover obtain vs where "page_items (pending_pages idx') y = page_items (pending_pages idx) y @ vs"
    using assms snoc unfolding grown_def by auto
  ultimately show ?thesis using snoc ws by simp
qed

text \<open>A finite history: every read sees a well-formed list, and from read \<open>n\<close> on nothing changes.\<close>

lemma history_grown:
  assumes "append_history blcksz view" and "\<And>j. n \<le> j \<Longrightarrow> view j = view n"
    and "pending_inv blcksz (view n) bs'" and "pending_inv blcksz (view i) bs"
  shows "grown (view i) bs (view n) bs'"
proof (cases "i \<le> n")
  case True
  from steps_inv[OF history_steps[OF assms(1) True] assms(4)] show ?thesis using pending_inv_unique[OF assms(3)] by auto
next
  case False
  then show ?thesis using assms(2)[of i] assms(3,4) pending_inv_unique grown_refl by (metis nat_le_linear)
qed

lemma scan_walk_invalid [simp]: "scan_walk mt pk cb view i InvalidBlockNumber ctx = ret ctx"
  by (subst scan_walk.simps) simp

lemma andThen_ret [simp]: "andThen m ret = m"
  by (cases m) (auto simp: andThen_def ret_def raise_def split: sum.splits)

lemma visit_Nil [simp]: "visit_entries mt pk cb [] ctx = ret ctx"
  by (simp add: visit_entries_def)

lemma scan_walk_page:
  assumes "pend_seg (pending_pages (view i)) b (y # zs) InvalidBlockNumber"
  obtains p where "pending_pages (view i) y = Some p" and "pend_seg (pending_pages (view i)) (next_page p) zs InvalidBlockNumber"
    and "\<And>ctx. scan_walk mt pk cb view i b ctx = andThen (visit_entries mt pk cb (page_items (pending_pages (view i)) y) ctx)
          (scan_walk mt pk cb view (Suc i) (next_page p))"
proof -
  from assms obtain p where p: "pending_pages (view i) y = Some p" "b = y" "y \<noteq> InvalidBlockNumber"
      "pend_seg (pending_pages (view i)) (next_page p) zs InvalidBlockNumber" by auto
  have "scan_walk mt pk cb view i b ctx = andThen (visit_entries mt pk cb (page_items (pending_pages (view i)) y) ctx)
      (scan_walk mt pk cb view (Suc i) (next_page p))" for ctx
    using p by (subst scan_walk.simps) (simp add: read_pending_page_def page_items_def)
  with p that show thesis by blast
qed

lemma scan_walk_history:
  assumes hist: "append_history blcksz view" and stable: "\<And>j. n \<le> j \<Longrightarrow> view j = view n"
    and "pending_inv blcksz (view n) (xs @ ys)" and "pending_inv blcksz (view i) (xs @ zs)"
    and "pend_seg (pending_pages (view i)) b zs InvalidBlockNumber"
  shows "\<exists>es us vs. (\<forall>ctx. scan_walk mt pk cb view i b ctx = visit_entries mt pk cb es ctx)
    \<and> es = pend_items (pending_pages (view i)) zs @ us \<and> pend_items (pending_pages (view n)) ys = es @ vs"
  using assms(3-5)
proof (induction ys arbitrary: xs zs i b)
  case Nil
  then have "zs = []" using history_grown[OF hist stable Nil.prems(1,2)] by (simp add: grown_def)
  with Nil.prems(3) show ?case by simp
next
  case (Cons y ys)
  have gr: "grown (view i) (xs @ zs) (view n) (xs @ y # ys)" by (rule history_grown[OF hist stable Cons.prems(1,2)])
  show ?case
  proof (cases "zs = []")
    case True
    then show ?thesis using Cons.prems(3)
      by (intro exI[of _ "[]"] exI[of _ "pend_items (pending_pages (view n)) (y # ys)"]) simp
  next
    case False
    then obtain zs' where zs: "zs = y # zs'" using gr unfolding grown_def by (cases zs) auto
    from scan_walk_page[where view = view and i = i and mt = mt and pk = pk and cb = cb, OF Cons.prems(3)[unfolded zs]] obtain p where
      p: "pending_pages (view i) y = Some p" "pend_seg (pending_pages (view i)) (next_page p) zs' InvalidBlockNumber"
        "\<And>ctx. scan_walk mt pk cb view i b ctx = andThen (visit_entries mt pk cb (page_items (pending_pages (view i)) y) ctx)
          (scan_walk mt pk cb view (Suc i) (next_page p))" by metis
    show ?thesis
    proof (cases "zs' = []")
      case True
      then have inv: "next_page p = InvalidBlockNumber" using p(2) by simp
      have "scan_walk mt pk cb view (Suc i) InvalidBlockNumber = ret" by (rule ext) simp
      then have "scan_walk mt pk cb view i b ctx = visit_entries mt pk cb (pend_items (pending_pages (view i)) zs) ctx" for ctx
        using p(3)[of ctx] inv zs True by simp
      then show ?thesis using grown_items[OF gr] by auto
    next
      case False
      have "(append_step blcksz)\<^sup>*\<^sup>* (view i) (view (Suc i))" using hist unfolding append_history_def by blast
      from steps_inv[OF this Cons.prems(2)] obtain bs1 where
        bs1: "pending_inv blcksz (view (Suc i)) bs1" "grown (view i) (xs @ zs) (view (Suc i)) bs1" by blast
      then obtain zs1 where zs1: "bs1 = (xs @ [y]) @ zs1" using zs unfolding grown_def by auto
      have front: "y \<in> set (butlast (xs @ zs))" using zs False by (simp add: butlast_append)
      have py: "pending_pages (view (Suc i)) y = Some p" "pending_pages (view n) y = Some p"
        using grown_front[OF bs1(2) front] grown_front[OF gr front] p(1) by simp_all
      have "pend_seg (pending_pages (view (Suc i))) (next_page p) zs1 InvalidBlockNumber"
        using bs1(1) py(1) unfolding zs1 pending_inv_def by (auto simp: pend_seg_append)
      from Cons.IH[OF _ bs1(1)[unfolded zs1] this] Cons.prems(1) obtain es us vs where
        es: "\<And>ctx. scan_walk mt pk cb view (Suc i) (next_page p) ctx = visit_entries mt pk cb es ctx"
          "es = pend_items (pending_pages (view (Suc i))) zs1 @ us" "pend_items (pending_pages (view n)) ys = es @ vs"
        by auto
      obtain ws where ws: "pend_items (pending_pages (view (Suc i))) zs1 = pend_items (pending_pages (view i)) zs' @ ws"
        using grown_items[of "view i" "xs @ [y]" zs' "view (Suc i)" zs1] bs1(2) zs zs1 by auto
      have same: "page_items (pending_pages (view n)) y = page_items (pending_pages (view i)) y"
        using p(1) py(2) by (simp add: page_items_def)
      have "scan_walk mt pk cb view (Suc i) (next_page p) = visit_entries mt pk cb es" using es(1) by (rule ext)
      then have "scan_walk mt pk cb view i b ctx = visit_entries mt pk cb (page_items (pending_pages (view i)) y @ es) ctx" for ctx
        by (simp add: p(3) visit_append)
      then show ?thesis using es(2,3) ws zs same
        by (intro exI[of _ "page_items (pending_pages (view i)) y @ es"] exI[of _ "ws @ us"] exI[of _ vs]) simp
    qed
  qed
qed

theorem scan_history:
  assumes "append_history blcksz view" and "\<And>j. n \<le> j \<Longrightarrow> view j = view n" and "pending_inv blcksz (view 0) bs"
  shows "\<exists>es us vs bs'. pending_inv blcksz (view n) bs' \<and> pg_tre_pending_scan mt pk view cb ctx = visit_entries mt pk cb es ctx
    \<and> es = pend_items (pending_pages (view 0)) bs @ us \<and> pend_items (pending_pages (view n)) bs' = es @ vs"
proof -
  from steps_inv[OF history_steps[OF assms(1)] assms(3)] obtain bs' where
    bs': "pending_inv blcksz (view n) bs'" by blast
  have m: "pg_tre_meta_read (view 0) = ret (normalize_meta (meta_page (view 0)))"
    using assms(3) by (intro meta_read_ret) (simp add: pending_inv_def)
  have st: "(append_step blcksz)\<^sup>*\<^sup>* (view 0) (view 1)" using history_steps[OF assms(1), of 0 1] by simp
  from steps_inv[OF this assms(3)] obtain bs1 where bs1: "pending_inv blcksz (view 1) bs1" "grown (view 0) bs (view 1) bs1" by blast
  show ?thesis
  proof (cases "bs = []")
    case True
    then show ?thesis using m bs' pending_inv_head[OF assms(3)]
      by (intro exI[of _ "[]"] exI[of _ "pend_items (pending_pages (view n)) bs'"] exI[of _ bs'])
         (simp add: pg_tre_pending_scan_def)
  next
    case False
    then have h: "pending_head (meta_page (view 0)) = hd bs1"
      using pending_inv_head[OF assms(3)] bs1(2) unfolding grown_def by auto
    have "bs1 \<noteq> []" using False bs1(2) unfolding grown_def by auto
    then have "pend_seg (pending_pages (view 1)) (hd bs1) bs1 InvalidBlockNumber"
      using bs1(1) pend_seg_head unfolding pending_inv_def by metis
    with scan_walk_history[where xs = "[]", OF assms(1,2) _ _ this, of bs' mt pk cb] bs' bs1(1) obtain es us vs where
      es: "\<And>ctx. scan_walk mt pk cb view 1 (hd bs1) ctx = visit_entries mt pk cb es ctx"
        "es = pend_items (pending_pages (view 1)) bs1 @ us" "pend_items (pending_pages (view n)) bs' = es @ vs" by auto
    obtain ws where "pend_items (pending_pages (view 1)) bs1 = pend_items (pending_pages (view 0)) bs @ ws"
      using grown_items[where xs = "[]"] bs1(2) by (metis append_Nil)
    then show ?thesis using es m h bs'
      by (intro exI[of _ es] exI[of _ "ws @ us"] exI[of _ vs] exI[of _ bs']) (simp add: pg_tre_pending_scan_def)
  qed
qed

corollary scan_quiet:
  assumes "pending_inv blcksz idx bs"
  shows "pg_tre_pending_scan mt pk (\<lambda>i. idx) cb ctx = visit_entries mt pk cb (pend_items (pending_pages idx) bs) ctx"
proof -
  have "append_history blcksz (\<lambda>i. idx)" by (simp add: append_history_def)
  from scan_history[where view = "\<lambda>i. idx" and n = 0 and mt = mt and pk = pk and cb = cb and ctx = ctx, OF this refl assms]
  obtain es us vs bs' where
    es: "pending_inv blcksz idx bs'" "pg_tre_pending_scan mt pk (\<lambda>i. idx) cb ctx = visit_entries mt pk cb es ctx"
      "es = pend_items (pending_pages idx) bs @ us" "pend_items (pending_pages idx) bs' = es @ vs" by blast
  from es(4) have "es = pend_items (pending_pages idx) bs"
    unfolding pending_inv_unique[OF assms es(1), symmetric] es(3) by simp
  with es(2) show ?thesis by simp
qed

section \<open>The scan of a merge\<close>

lemma scan_watermark_history:
  assumes "append_history blcksz view" and "pending_inv blcksz (view 0) (fr @ [l])"
  obtains n where "n = length (page_items (pending_pages (view 1)) l)"
    and "pg_tre_pending_scan_watermark mt pk view cb ctx =
      andThen (visit_entries mt pk cb (pend_items (pending_pages (view 1)) (fr @ [l])) ctx)
        (\<lambda>ctx'. ret (\<lparr> wm_head = hd (fr @ [l]), wm_tail = l, wm_tail_n = n \<rparr>, ctx', fr))"
proof -
  let ?P = "pending_pages (view 1)" and ?h = "hd (fr @ [l])"
  have st: "(append_step blcksz)\<^sup>*\<^sup>* (view 0) (view 1)" using history_steps[OF assms(1), of 0 1] by simp
  from steps_inv[OF st assms(2)] obtain bs1 where bs1: "pending_inv blcksz (view 1) bs1" "grown (view 0) (fr @ [l]) (view 1) bs1" by blast
  then obtain ws where ws: "bs1 = [] @ fr @ l # ws" unfolding grown_def by auto
  then have "l \<in> set bs1" by simp
  from pending_inv_page[OF bs1(1) this] obtain p where p: "?P l = Some p" "length (page_items ?P l) = pend_n p" by metis
  define wm where "wm = \<lparr> wm_head = ?h, wm_tail = l, wm_tail_n = pend_n p \<rparr>"
  have m: "pg_tre_meta_read (view 0) = ret (normalize_meta (meta_page (view 0)))"
    using assms(2) by (intro meta_read_ret) (simp add: pending_inv_def)
  have h: "pending_head (meta_page (view 0)) = ?h" "?h \<noteq> InvalidBlockNumber" "pending_tail (meta_page (view 0)) = l"
    using pending_inv_head[OF assms(2)] assms(2) pending_inv_valid[OF assms(2), of ?h] hd_in_set[of "fr @ [l]"]
    by (simp_all add: pending_inv_def)
  have "pend_seg ?P ?h (fr @ l # ws) InvalidBlockNumber"
    using bs1(1) pending_inv_head[OF bs1(1)] ws by (cases fr) (auto simp: pending_inv_def)
  then obtain e where e: "pend_seg ?P ?h (fr @ [wm_tail wm]) e" by (auto simp: pend_seg_append wm_def)
  have walk: "watermark_walk mt pk cb wm view 2 ?h ctx [] =
      andThen (visit_entries mt pk cb (pend_items ?P (fr @ [l])) ctx) (\<lambda>ctx'. ret (ctx', fr))"
    using watermark_walk_front[where i = 2, OF assms(1) _ _ e, of "[]" ws mt pk cb ctx "[]"] bs1(1) ws p(2) by (simp add: wm_def)
  have "pg_tre_pending_scan_watermark mt pk view cb ctx =
      andThen (watermark_walk mt pk cb wm view 2 ?h ctx []) (\<lambda>(ctx', consumed). ret (wm, ctx', consumed))"
    using m h p(1) by (simp add: pg_tre_pending_scan_watermark_def read_pending_page_def Let_def wm_def)
  then show thesis using that[OF p(2)[symmetric]] unfolding walk by (simp add: andThen_assoc wm_def)
qed

text \<open>What the watermark of the first reads covers, in any later state of the index.\<close>

lemma watermark_later:
  assumes "append_history blcksz view" and "pending_inv blcksz (view 0) (fr @ [l])"
    and "(append_step blcksz)\<^sup>*\<^sup>* (view 1) idx" and "pending_inv blcksz idx bs'"
    and "n = length (page_items (pending_pages (view 1)) l)"
  shows "\<exists>late. bs' = fr @ l # late" and "n \<le> length (page_items (pending_pages idx) l)"
    and "pend_items (pending_pages idx) fr @ take n (page_items (pending_pages idx) l) = pend_items (pending_pages (view 1)) (fr @ [l])"
    and "\<exists>us. pend_items (pending_pages (view 1)) (fr @ [l]) = pend_items (pending_pages (view 0)) (fr @ [l]) @ us"
proof -
  have "(append_step blcksz)\<^sup>*\<^sup>* (view 0) (view 1)" using history_steps[OF assms(1), of 0 1] by simp
  from steps_inv[OF this assms(2)] obtain bs1 where bs1: "pending_inv blcksz (view 1) bs1" "grown (view 0) (fr @ [l]) (view 1) bs1" by blast
  then obtain ws where ws: "bs1 = (fr @ [l]) @ ws" unfolding grown_def by auto
  from steps_inv[OF assms(3) bs1(1)] have gr: "grown (view 1) bs1 idx bs'" using pending_inv_unique[OF assms(4)] by blast
  then show "\<exists>late. bs' = fr @ l # late" using ws unfolding grown_def by auto
  obtain zs where zs: "page_items (pending_pages idx) l = page_items (pending_pages (view 1)) l @ zs"
    using grown_page[OF gr, of l] ws by auto
  then show "n \<le> length (page_items (pending_pages idx) l)" using assms(5) by simp
  have "pending_pages idx b = pending_pages (view 1) b" if "b \<in> set fr" for b
    using grown_front[OF gr, of b] that ws by (simp add: butlast_append)
  then have "pend_items (pending_pages idx) fr = pend_items (pending_pages (view 1)) fr" by (rule pend_items_cong)
  with zs show "pend_items (pending_pages idx) fr @ take n (page_items (pending_pages idx) l) = pend_items (pending_pages (view 1)) (fr @ [l])"
    using assms(5) by simp
  have "pending_pages (view 1) b = pending_pages (view 0) b" if "b \<in> set fr" for b
    using grown_front[OF bs1(2), of b] that by simp
  then have "pend_items (pending_pages (view 1)) fr = pend_items (pending_pages (view 0)) fr" by (rule pend_items_cong)
  then show "\<exists>us. pend_items (pending_pages (view 1)) (fr @ [l]) = pend_items (pending_pages (view 0)) (fr @ [l]) @ us"
    using grown_page[OF bs1(2), of l] by simp
qed

theorem merge_history:
  assumes "append_history blcksz view" and "pending_inv blcksz (view 0) bs" and "bs \<noteq> []"
    and "(append_step blcksz)\<^sup>*\<^sup>* (view 1) idx" and "pending_inv blcksz idx bs'"
    and "pending_capacity blcksz < 2 ^ 32" and "length (pend_items (pending_pages idx) bs') < 2 ^ 64"
  shows "\<exists>es us wm front freed idx' bs''.
    pg_tre_pending_scan_watermark mt pk view cb ctx = andThen (visit_entries mt pk cb es ctx) (\<lambda>ctx'. ret (wm, ctx', front))
    \<and> es = pend_items (pending_pages (view 0)) bs @ us
    \<and> finalize_merge idx root rng ntri ntup wm front adds = ret (word_of_nat (length es), freed, idx')
    \<and> pending_inv blcksz idx' bs'' \<and> pend_items (pending_pages idx) bs' = es @ pend_items (pending_pages idx') bs''
    \<and> bs' = freed @ bs'' \<and> root_upper (meta_page idx') = root"
proof -
  obtain fr l where bs: "bs = fr @ [l]" using assms(3) by (cases bs rule: rev_cases) auto
  note inv0 = assms(2)[unfolded bs]
  obtain n where n: "n = length (page_items (pending_pages (view 1)) l)"
    "pg_tre_pending_scan_watermark mt pk view cb ctx = andThen (visit_entries mt pk cb (pend_items (pending_pages (view 1)) (fr @ [l])) ctx)
        (\<lambda>ctx'. ret (\<lparr> wm_head = hd (fr @ [l]), wm_tail = l, wm_tail_n = n \<rparr>, ctx', fr))"
    using scan_watermark_history[OF assms(1) inv0] by metis
  define wm where "wm = \<lparr> wm_head = hd (fr @ [l]), wm_tail = l, wm_tail_n = n \<rparr>"
  note later = watermark_later[OF assms(1) inv0 assms(4,5) n(1)]
  define es where "es = pend_items (pending_pages idx) fr @ take (wm_tail_n wm) (page_items (pending_pages idx) (wm_tail wm))"
  have es: "es = pend_items (pending_pages (view 1)) (fr @ [l])" using later(3) by (simp add: es_def wm_def)
  have scan: "pg_tre_pending_scan_watermark mt pk view cb ctx = andThen (visit_entries mt pk cb es ctx) (\<lambda>ctx'. ret (wm, ctx', fr))"
    unfolding es wm_def by (rule n(2))
  obtain us where us: "es = pend_items (pending_pages (view 0)) bs @ us" using later(4) unfolding es bs by blast
  obtain late where late: "bs' = fr @ wm_tail wm # late" using later(1) by (auto simp: wm_def)
  have me: "merge_end blcksz idx fr wm late"
    using assms(5-7) later(2) unfolding late by (simp add: merge_end_def wm_def)
  from merge_end_page[OF me] obtain p where p: "pending_pages idx (wm_tail wm) = Some p" by blast
  show ?thesis
  proof (cases "rewind_needed wm (meta_page idx) p")
    case True
    from finalize_rewound[OF me p True, of root rng ntri ntup adds, folded es_def] obtain idx' where
      "finalize_merge idx root rng ntri ntup wm fr adds = ret (word_of_nat (length es), fr, idx')"
      "pending_inv blcksz idx' (wm_tail wm # late)" "root_upper (meta_page idx') = root"
      "pend_items (pending_pages idx) bs' = es @ pend_items (pending_pages idx') (wm_tail wm # late)"
      unfolding late es_def by auto
    then show ?thesis using scan us late by blast
  next
    case False
    from finalize_drop_all[OF me p False, of root rng ntri ntup adds, folded es_def] obtain idx' where
      "finalize_merge idx root rng ntri ntup wm fr adds = ret (word_of_nat (length es), fr @ [wm_tail wm], idx')"
      "pending_inv blcksz idx' []" "root_upper (meta_page idx') = root"
      "pend_items (pending_pages idx) bs' = es" "late = []"
      unfolding late es_def by auto
    then show ?thesis using scan us late
      by (intro exI[of _ es] exI[of _ us] exI[of _ wm] exI[of _ fr] exI[of _ "fr @ [wm_tail wm]"] exI[of _ idx'] exI[of _ "[]"]) simp
  qed
qed

section \<open>Listing\<close>

text \<open>The list as its own reader reports it: the callback collects the triples.\<close>

definition list_cb :: "pending_item list pending_callback" where
  "list_cb h tid pos acc = ret (acc @ [(h, tid, pos)])"

definition pending_listing :: "nat \<Rightarrow> PgTreTidPacking \<Rightarrow> tre_index \<Rightarrow> pending_item list outcome" where
  "pending_listing max_tuples pk idx = pg_tre_pending_scan max_tuples pk (\<lambda>i. idx) list_cb []"

definition entry_item :: "nat \<Rightarrow> PgTreTidPacking \<Rightarrow> PgTrePendingEntry \<Rightarrow> pending_item" where
  "entry_item max_tuples pk e = (entry_hash e, pg_tre_unpack_tid max_tuples pk (entry_tid e), position e)"

lemma visit_list_cb: "visit_entries mt pk list_cb es acc = ret (acc @ map (entry_item mt pk) es)"
  by (induction es arbitrary: acc) (auto simp: visit_entries_def list_cb_def entry_item_def)

lemma listing_inv:
  "pending_inv blcksz idx bs \<Longrightarrow> pending_listing mt pk idx = ret (map (entry_item mt pk) (pend_items (pending_pages idx) bs))"
  by (simp add: pending_listing_def scan_quiet visit_list_cb)

lemma pack_items_ret:
  assumes "mt < 65535" and "\<And>it. it \<in> set items \<Longrightarrow> unat (ip_posid (fst (snd it))) \<le> mt"
  shows "\<exists>es. pack_items mt pk items = ret es \<and> map (entry_item mt pk) es = items"
  using assms(2)
proof (induction items)
  case (Cons it items)
  obtain h tid pos where it: "it = (h, tid, pos)" by (cases it)
  obtain p where p: "pg_tre_pack_tid mt pk tid = Inr p"
    using pack_defined[OF assms(1)] Cons.prems[of it] it by auto
  moreover obtain es where "pack_items mt pk items = ret es" "map (entry_item mt pk) es = items"
    using Cons.IH Cons.prems by auto
  moreover have "entry_item mt pk \<lparr> entry_hash = h, entry_tid = p, position = pos \<rparr> = it"
    using it pack_unpack[OF assms(1) p] by (simp add: entry_item_def)
  ultimately show ?case using it by simp
qed simp

text \<open>Appending a batch, in terms of the listing.\<close>

lemma append_batch_ret:
  assumes "pending_inv blcksz idx bs" and "0 < pending_capacity blcksz" and "mt < 65535"
    and "items \<noteq> []" and "length items \<le> PG_TRE_PENDING_BATCH_MAX"
    and "\<And>it. it \<in> set items \<Longrightarrow> unat (ip_posid (fst (snd it))) \<le> mt"
    and "length items \<le> length blocks" and "distinct blocks"
    and "\<And>b. b \<in> set blocks \<Longrightarrow> b \<noteq> InvalidBlockNumber \<and> b \<notin> set bs"
  shows "\<exists>n idx' k bs'. pg_tre_pending_append_batch blcksz mt pk blocks idx items = ret (n, idx', drop k blocks)
    \<and> k \<le> length items \<and> pending_inv blcksz idx' bs' \<and> set bs' \<subseteq> set bs \<union> set (take k blocks)
    \<and> n = pending_n_entries (meta_page idx')
    \<and> (\<forall>old. pending_listing mt pk idx = ret old \<longrightarrow> pending_listing mt pk idx' = ret (old @ items))"
proof -
  from pack_items_ret[of mt items pk, OF assms(3,6)] obtain es where es: "pack_items mt pk items = ret es"
      "map (entry_item mt pk) es = items" by blast
  from append_loop_ret[OF assms(1,2) es(1) assms(7-9), of 0] obtain idx' blocks' bs' k where
    r: "append_loop blcksz mt pk blocks idx items 0 = ret (pending_n_entries (meta_page idx'), idx', blocks')"
      "pending_inv blcksz idx' bs'" "pend_items (pending_pages idx') bs' = pend_items (pending_pages idx) bs @ es"
      "k \<le> length items" "blocks' = drop k blocks" "set bs' \<subseteq> set bs \<union> set (take k blocks)"
    using assms(4) by auto
  have "pg_tre_pending_append_batch blcksz mt pk blocks idx items = ret (pending_n_entries (meta_page idx'), idx', drop k blocks)"
    using assms(4,5) r(1,5) by (simp add: pg_tre_pending_append_batch_def)
  moreover have "pending_listing mt pk idx' = ret (old @ items)" if "pending_listing mt pk idx = ret old" for old
    using that listing_inv[OF assms(1), of mt pk] listing_inv[OF r(2), of mt pk] r(3) es(2) by simp
  ultimately show ?thesis using r by blast
qed

end
