(* ===== verification/Insert_Correct.thy ===== *)
theory Insert_Correct
  imports Insert Pending_Read
begin

text \<open>
  The set of seen trigrams is a set, its search ends, and the insert of a row appends exactly
  the trigrams of its text.
\<close>

section \<open>The capacity\<close>

lemma word_of_unat32: "word_of_nat (unat w) = (w :: uint32)"
  by simp

lemma unat_pow2: "k < 32 \<Longrightarrow> unat ((2 :: uint32) ^ k) = 2 ^ k"
proof -
  assume k: "k < 32"
  then have "(2 :: nat) ^ k < 2 ^ 32" by (intro power_strict_increasing) simp_all
  from unat_of_nat32[OF this] show ?thesis by simp
qed

lemma seen_capacity_pow:
  assumes "k \<le> 22"
  shows "\<exists>n. k \<le> n \<and> n \<le> 22 \<and> seen_capacity len (2 ^ k) = ret (2 ^ n) \<and> (n < 22 \<longrightarrow> len * 2 \<le> 2 ^ n)"
  using assms
proof (induction rule: inc_induct)
  case base
  then show ?case by (intro exI[of _ 22]) (subst seen_capacity.simps, simp add: SEEN_MAX_def)
next
  case (step k)
  show ?case
  proof (cases "(2 :: uint32) ^ k < SEEN_MAX \<and> 2 ^ k < len * 2")
    case True
    then have "seen_capacity len (2 ^ k) = seen_capacity len (2 ^ Suc k)"
      by (subst seen_capacity.simps) (simp add: push_bit_eq_mult mult.commute)
    then show ?thesis using step by (metis Suc_leD)
  next
    case False
    have "(2 :: nat) ^ k < 2 ^ 22" using step.hyps by (intro power_strict_increasing) simp_all
    then have "(2 :: uint32) ^ k < SEEN_MAX"
      using step.hyps by (simp add: SEEN_MAX_def word_less_nat_alt unat_pow2)
    then have "len * 2 \<le> 2 ^ k" using False by (simp add: not_less)
    moreover have "seen_capacity len (2 ^ k) = ret (2 ^ k)" using False by (subst seen_capacity.simps) (simp only: if_False)
    ultimately show ?thesis using step.hyps by (intro exI[of _ k]) simp
  qed
qed

section \<open>The set\<close>

definition seen_key :: "uint64 \<Rightarrow> uint64 option" where
  "seen_key x = (if x = 0 then None else Some x)"

definition seen_home :: "nat \<Rightarrow> uint64 \<Rightarrow> nat" where
  "seen_home cap h = unat h mod cap"

definition pow2_cap :: "nat \<Rightarrow> bool" where
  "pow2_cap cap \<longleftrightarrow> (\<exists>n \<le> 31. cap = 2 ^ n)"

lemma unat_mask32:
  assumes "n \<le> 31"
  shows "unat ((w :: uint32) AND (word_of_nat (2 ^ n) - 1)) = unat w mod 2 ^ n"
proof -
  have "(word_of_nat (2 ^ n) :: uint32) - 1 = mask n" by (simp add: mask_eq_exp_minus_1)
  then have eq: "w AND (word_of_nat (2 ^ n) - 1) = take_bit n w" by (simp add: take_bit_eq_mask)
  show ?thesis unfolding eq by (simp only: unsigned_take_bit_eq) (simp only: take_bit_eq_mod)
qed

lemma home_word: "n \<le> 31 \<Longrightarrow> unat ((ucast (h :: uint64) :: uint32) AND (word_of_nat (2 ^ n) - 1)) = seen_home (2 ^ n) h"
proof -
  assume n: "n \<le> 31"
  have "unat (ucast h :: uint32) mod 2 ^ n = unat h mod 2 ^ 32 mod 2 ^ n" by (simp add: unsigned_ucast_eq take_bit_eq_mod)
  also have "\<dots> = unat h mod 2 ^ n" using n by (intro mod_mod_cancel le_imp_power_dvd) simp
  finally show ?thesis using unat_mask32[OF n, of "ucast h"] by (simp add: seen_home_def)
qed

definition seen_search :: "uint64 list \<Rightarrow> uint64 \<Rightarrow> nat outcome" where
  "seen_search tab h =
     andThen (seen_probe tab (word_of_nat (length tab)) h (ucast h AND (word_of_nat (length tab) - 1))) (\<lambda>s. ret (unat s))"

text \<open>A step of a search with a mask.\<close>

lemma mask_step:
  assumes "cap = 2 ^ n" and "n \<le> 31" and "i < cap"
  shows "unat (word_of_nat i :: uint32) = i"
    and "(word_of_nat i + 1 :: uint32) AND (word_of_nat cap - 1) = word_of_nat ((i + 1) mod cap)"
proof -
  have "(2::nat) ^ n \<le> 2 ^ 31" using assms(2) by (intro power_increasing) simp_all
  then have i32: "i < 2 ^ 32" "i + 1 < 2 ^ 32" using assms(1,3) by simp_all
  show "unat (word_of_nat i :: uint32) = i" by (rule unat_of_nat32[OF i32(1)])
  have "unat ((word_of_nat i + 1 :: uint32) AND (word_of_nat cap - 1)) = unat (word_of_nat (i + 1) :: uint32) mod cap"
    unfolding assms(1) unat_mask32[OF assms(2)] by (simp add: add.commute)
  then have "unat ((word_of_nat i + 1 :: uint32) AND (word_of_nat cap - 1)) = (i + 1) mod cap"
    unfolding unat_of_nat32[OF i32(2)] .
  then show "(word_of_nat i + 1 :: uint32) AND (word_of_nat cap - 1) = word_of_nat ((i + 1) mod cap)"
    by (metis word_of_unat32)
qed

lemma seen_probe_loop:
  assumes "length tab = 2 ^ n" and "n \<le> 31" and "i < length tab"
  shows "andThen (seen_probe tab (word_of_nat (length tab)) h (word_of_nat i)) (\<lambda>s. ret (unat s)) =
    (if probe_stop seen_key tab h i then ret i
     else andThen (seen_probe tab (word_of_nat (length tab)) h (word_of_nat ((i + 1) mod length tab))) (\<lambda>s. ret (unat s)))"
proof -
  have stop: "probe_stop seen_key tab h i \<longleftrightarrow> \<not> (tab ! i \<noteq> 0 \<and> tab ! i \<noteq> h)"
    by (auto simp: probe_stop_def seen_key_def)
  show ?thesis by (subst seen_probe.simps) (simp add: mask_step[OF assms] stop)
qed

interpretation seen_table: probe_search seen_key seen_home pow2_cap seen_search
proof unfold_locales
  fix tab :: "uint64 list" and h j
  assume cap: "pow2_cap (length tab)" and f: "first_stop seen_key tab h (seen_home (length tab) h) j"
  then obtain n where n: "length tab = 2 ^ n" "n \<le> 31" by (auto simp: pow2_cap_def)
  let ?s = "seen_home (length tab) h"
  let ?loop = "\<lambda>i. andThen (seen_probe tab (word_of_nat (length tab)) h (word_of_nat i)) (\<lambda>s. ret (unat s))"
  have s: "?s < length tab" using n(1) by (simp add: seen_home_def)
  have "?loop (probe_at (length tab) ?s 0) = ret (probe_at (length tab) ?s j)"
    by (rule probe_loop[where stop = "probe_stop seen_key tab h", OF seen_probe_loop[OF n]])
       (use f n in \<open>auto simp: first_stop_def\<close>)
  moreover have "(ucast h AND (word_of_nat (length tab) - 1) :: uint32) = word_of_nat ?s"
    using home_word[OF n(2), of h] unfolding n(1) by (metis word_of_unat32)
  ultimately show "seen_search tab h = ret (probe_at (length tab) ?s j)"
    using s by (simp add: seen_search_def)
qed

text \<open>
  What the set knows after the trigrams \<open>hs\<close> have been let through: everything it holds is
  among them, and until it is half full it holds all of them.
\<close>

definition seen_inv :: "uint32 \<Rightarrow> uint64 list \<Rightarrow> seen_set \<Rightarrow> bool" where
  "seen_inv cap hs ss \<longleftrightarrow> pow2_cap (unat cap) \<and> 2 \<le> unat cap \<and> length (seen ss) = unat cap
     \<and> probe_ok seen_key seen_home (seen ss) \<and> unat (n_seen ss) = used_slots seen_key (seen ss)
     \<and> unat (n_seen ss) \<le> unat cap div 2 \<and> unat (n_seen ss) \<le> length hs
     \<and> (\<forall>h. tab_get seen_key (seen ss) h \<noteq> None \<longrightarrow> h \<in> set hs) \<and> (seen_zero ss \<longleftrightarrow> 0 \<in> set hs)
     \<and> (unat (n_seen ss) < unat cap div 2 \<longrightarrow> (\<forall>h \<in> set hs. h \<noteq> 0 \<longrightarrow> tab_get seen_key (seen ss) h \<noteq> None)
          \<and> distinct hs)"

lemma seen_key_simps [simp]: "seen_key 0 = None" "seen_key x = None \<longleftrightarrow> x = 0" "seen_key x = Some k \<longleftrightarrow> x = k \<and> k \<noteq> 0"
  by (auto simp: seen_key_def)

lemma seen_write:
  assumes "seen_inv cap hs ss" and "unat (n_seen ss) < unat cap div 2" and "h \<noteq> 0"
  obtains slot where "seen_probe (seen ss) cap h (ucast h AND (cap - 1)) = ret slot" and "unat slot < length (seen ss)"
    and "seen ss ! unat slot = h \<longleftrightarrow> tab_get seen_key (seen ss) h \<noteq> None"
    and "seen ss ! unat slot \<noteq> h \<Longrightarrow> seen ss ! unat slot = 0"
    and "probe_ok seen_key seen_home ((seen ss)[unat slot := h])"
    and "\<And>k. tab_get seen_key ((seen ss)[unat slot := h]) k = (if k = h then Some h else tab_get seen_key (seen ss) k)"
proof -
  let ?t = "seen ss"
  have inv: "pow2_cap (length ?t)" "probe_ok seen_key seen_home ?t" "used_slots seen_key ?t < length ?t" "length ?t = unat cap"
    using assms(1,2) by (auto simp: seen_inv_def)
  obtain i where i: "i < length ?t" "seen_key (?t ! i) = None" using used_slots_less[OF inv(3)] .
  obtain s where s: "seen_search ?t h = ret s" "s < length ?t"
      "tab_get seen_key ?t h = (if seen_key (?t ! s) = None then None else Some (?t ! s))"
      "seen_key (?t ! s) = None \<or> seen_key (?t ! s) = Some h"
      "\<And>x. seen_key x = Some h \<Longrightarrow> probe_ok seen_key seen_home (?t[s := x])
        \<and> (\<forall>k'. tab_get seen_key (?t[s := x]) k' = (if k' = h then Some x else tab_get seen_key ?t k'))"
    using seen_table.search_write[OF inv(1,2) i, of h] by metis
  have "word_of_nat (length ?t) = cap" using inv(4) word_of_unat32 by metis
  with s(1) obtain slot where slot: "seen_probe ?t cap h (ucast h AND (cap - 1)) = ret slot" "unat slot = s"
    by (auto simp: seen_search_def andThen_ret_iff)
  show thesis
    by (rule that[OF slot(1)]) (use s(2-4) s(5)[of h] assms(3) in \<open>auto simp: slot(2)\<close>)
qed

lemma note_trigram_ret:
  assumes "seen_inv cap hs ss"
  shows "\<exists>skip ss'. note_trigram cap h ss = ret (skip, ss') \<and>
    (if skip then h \<in> set hs \<and> ss' = ss
     else seen_inv cap (hs @ [h]) ss' \<and> (unat (n_seen ss) < unat cap div 2 \<longrightarrow> distinct (hs @ [h])))"
proof (cases "h = 0 \<or> \<not> n_seen ss < cap div 2")
  case True
  have "unat (cap div 2) = unat cap div 2" by (simp add: unat_div)
  then have half: "n_seen ss < cap div 2 \<longleftrightarrow> unat (n_seen ss) < unat cap div 2" by (simp add: word_less_nat_alt)
  show ?thesis
  proof (cases "h = 0")
    case zero: True
    have "seen_inv cap (hs @ [0]) (ss\<lparr> seen_zero := True \<rparr>) \<and> (unat (n_seen ss) < unat cap div 2 \<longrightarrow> distinct (hs @ [0]))"
      if "0 \<notin> set hs"
      using assms that unfolding seen_inv_def by simp
    moreover have "seen_zero ss \<longleftrightarrow> 0 \<in> set hs" using assms unfolding seen_inv_def by blast
    ultimately show ?thesis using zero by (cases "0 \<in> set hs") (auto simp: note_trigram_def)
  next
    case nz: False
    then have "seen_inv cap (hs @ [h]) ss" using True assms half unfolding seen_inv_def by simp
    then show ?thesis using True nz half by (auto simp: note_trigram_def)
  qed
next
  case False
  then have n: "unat (n_seen ss) < unat cap div 2" "h \<noteq> 0" by (simp_all add: word_less_nat_alt unat_div)
  obtain slot where s: "seen_probe (seen ss) cap h (ucast h AND (cap - 1)) = ret slot" "unat slot < length (seen ss)"
    "seen ss ! unat slot = h \<longleftrightarrow> tab_get seen_key (seen ss) h \<noteq> None" "seen ss ! unat slot \<noteq> h \<Longrightarrow> seen ss ! unat slot = 0"
    "probe_ok seen_key seen_home ((seen ss)[unat slot := h])"
    "\<And>k. tab_get seen_key ((seen ss)[unat slot := h]) k = (if k = h then Some h else tab_get seen_key (seen ss) k)"
    using seen_write[OF assms n] by metis
  show ?thesis
  proof (cases "seen ss ! unat slot = h")
    case True
    then show ?thesis using False s(1,3) assms by (auto simp: note_trigram_def seen_inv_def)
  next
    case new: False
    let ?ss = "ss\<lparr> seen := (seen ss)[unat slot := h], n_seen := n_seen ss + 1 \<rparr>"
    have "unat (n_seen ss + 1) = unat (n_seen ss) + 1"
      using n(1) unsigned_less[of cap, where 'a = nat] by (subst unat_add_lem[THEN iffD1]) auto
    then have "seen_inv cap (hs @ [h]) ?ss"
      using assms n s(2) s(3-6) new used_slots_write[of "unat slot" "seen ss" seen_key h] unfolding seen_inv_def by auto
    moreover have "distinct (hs @ [h])" using assms n s(3) new unfolding seen_inv_def by auto
    ultimately show ?thesis using False s(1) new by (auto simp: note_trigram_def)
  qed
qed

section \<open>The characters\<close>

definition last3 :: "int list \<Rightarrow> int list" where
  "last3 cs = drop (length cs - 3) cs"

lemma length_last3: "length (last3 cs) = min 3 (length cs)"
  by (simp add: last3_def)

lemma ring_push_last3: "ring_push (last3 cs) c = last3 (cs @ [c])"
proof (cases "3 \<le> length cs")
  case True
  then obtain n where n: "length cs = Suc (Suc (Suc n))"
    by (metis add_Suc le_Suc_ex numeral_3_eq_3 plus_nat.add_0)
  have "[last3 cs ! 1, last3 cs ! 2, c] = last3 (cs @ [c])"
    by (intro nth_equalityI) (auto simp: n last3_def nth_append less_Suc_eq numeral_3_eq_3 numeral_2_eq_2)
  then show ?thesis using True by (simp add: ring_push_def length_last3)
qed (simp add: ring_push_def last3_def)

lemma windows3_snoc:
  "windows3 (cs @ [c]) = windows3 cs @ (if length cs \<ge> 2 then [(last3 (cs @ [c]) ! 0, last3 (cs @ [c]) ! 1, last3 (cs @ [c]) ! 2)] else [])"
proof (cases "length cs \<ge> 2")
  case True
  define n where "n = length cs - 2"
  have n: "length cs = n + 2" using True by (simp add: n_def)
  have "windows3 (cs @ [c]) = map (\<lambda>w. ((cs @ [c]) ! w, (cs @ [c]) ! (w + 1), (cs @ [c]) ! (w + 2))) ([0..<n] @ [n])"
    by (simp only: windows3_conv_nth) (simp add: n)
  moreover have "map (\<lambda>w. ((cs @ [c]) ! w, (cs @ [c]) ! (w + 1), (cs @ [c]) ! (w + 2))) [0..<n] = windows3 cs"
    unfolding windows3_conv_nth by (intro map_cong) (auto simp: n nth_append)
  moreover have "last3 (cs @ [c]) ! i = (cs @ [c]) ! (n + i)" if "i < 3" for i
    using that by (auto simp: last3_def n nth_append)
  ultimately show ?thesis using True by simp
next
  case False
  then show ?thesis by (simp add: windows3_conv_nth)
qed

lemma insert_chars_fold:
  "cpstream_chars enc s = ret cps \<Longrightarrow> insert_chars enc env s st = ofold (insert_char env) cps st"
proof (induction cps arbitrary: s st)
  case Nil
  then obtain cp s' where "pg_tre_cpstream_next enc s = ret (cp, s')" "cp < 0"
    by (subst (asm) cpstream_chars.simps) (auto simp: andThen_ret_iff split: if_splits)
  then show ?case by (subst insert_chars.simps) simp
next
  case (Cons c cps)
  then obtain s' where nx: "pg_tre_cpstream_next enc s = ret (c, s')" "\<not> c < 0" "cpstream_chars enc s' = ret cps"
    by (subst (asm) cpstream_chars.simps) (auto simp: andThen_ret_iff split: if_splits)
  have "insert_chars enc env s' = ofold (insert_char env) cps" using Cons.IH[OF nx(3)] by (rule ext)
  with nx show ?case by (subst insert_chars.simps) simp
qed

section \<open>The loop\<close>

definition tid_items :: "ItemPointer \<Rightarrow> uint64 list \<Rightarrow> pending_item list" where
  "tid_items tid hs = map (\<lambda>h. (h, tid, 0)) hs"

text \<open>What the server guarantees an insert: a page holds entries and the row's offset is one of a heap page.\<close>

definition env_ok :: "insert_env \<Rightarrow> bool" where
  "env_ok env \<longleftrightarrow> 0 < pending_capacity (ie_blcksz env) \<and> ie_max_tuples env < 65535
     \<and> unat (ip_posid (ie_tid env)) \<le> ie_max_tuples env"

text \<open>All trigrams let through but the current batch are in the pending list, which \<open>old\<close> was the listing of.\<close>

definition sent_inv :: "insert_env \<Rightarrow> pending_item list \<Rightarrow> uint64 list \<Rightarrow> insert_state \<Rightarrow> bool" where
  "sent_inv env old hs st \<longleftrightarrow>
     (\<exists>bs sent. hs = sent @ batch st \<and> pending_inv (ie_blcksz env) (ins_index st) bs
        \<and> pending_listing (ie_max_tuples env) (ie_packing env) (ins_index st) = ret (old @ tid_items (ie_tid env) sent)
        \<and> (\<forall>b \<in> set (ins_blocks st). b \<noteq> InvalidBlockNumber \<and> b \<notin> set bs)
        \<and> n_pending st = (if sent = [] then 0 else pending_n_entries (meta_page (ins_index st))))"

lemma sent_inv_ring [simp]: "sent_inv env old hs (st\<lparr> ring := r \<rparr>) = sent_inv env old hs st"
  unfolding sent_inv_def by (simp cong: if_cong split del: if_split)

text \<open>
  The state after the characters \<open>cs\<close>: \<open>hs\<close> are the trigrams let through; \<open>todo\<close> bounds the
  trigrams still to come.
\<close>

definition ins_inv :: "insert_env \<Rightarrow> pending_item list \<Rightarrow> int list \<Rightarrow> uint64 list \<Rightarrow> nat \<Rightarrow> insert_state \<Rightarrow> bool" where
  "ins_inv env old cs hs todo st \<longleftrightarrow> ring st = last3 cs \<and> seen_inv (ie_cap env) hs (seen_trigrams st)
     \<and> set hs = pg_tre_hash_trigram_cp (ie_hash env) ` set (windows3 cs) \<and> length hs \<le> length (windows3 cs)
     \<and> (unat (ie_cap env) div 2 \<ge> length (windows3 cs) \<longrightarrow> distinct hs)
     \<and> length (batch st) < PG_TRE_PENDING_BATCH_MAX \<and> todo + length (batch st) \<le> length (ins_blocks st) \<and> distinct (ins_blocks st)
     \<and> sent_inv env old hs st"

lemma flush_batch_ret:
  assumes "env_ok env" and "batch st \<noteq> []" and "length (batch st) \<le> PG_TRE_PENDING_BATCH_MAX"
    and "todo + length (batch st) \<le> length (ins_blocks st)" and "distinct (ins_blocks st)"
    and "pending_inv (ie_blcksz env) (ins_index st) bs"
    and "pending_listing (ie_max_tuples env) (ie_packing env) (ins_index st) = ret (old @ tid_items (ie_tid env) sent)"
    and "\<forall>b \<in> set (ins_blocks st). b \<noteq> InvalidBlockNumber \<and> b \<notin> set bs"
  shows "\<exists>st' bs'. flush_batch env st = ret st' \<and> ring st' = ring st \<and> seen_trigrams st' = seen_trigrams st \<and> batch st' = []
    \<and> todo \<le> length (ins_blocks st') \<and> distinct (ins_blocks st') \<and> pending_inv (ie_blcksz env) (ins_index st') bs'
    \<and> pending_listing (ie_max_tuples env) (ie_packing env) (ins_index st') = ret (old @ tid_items (ie_tid env) (sent @ batch st))
    \<and> (\<forall>b \<in> set (ins_blocks st'). b \<noteq> InvalidBlockNumber \<and> b \<notin> set bs')
    \<and> n_pending st' = pending_n_entries (meta_page (ins_index st'))"
proof -
  let ?items = "tid_items (ie_tid env) (batch st)"
  have ok: "?items \<noteq> []" "length ?items \<le> PG_TRE_PENDING_BATCH_MAX" "length ?items \<le> length (ins_blocks st)"
      "\<And>it. it \<in> set ?items \<Longrightarrow> unat (ip_posid (fst (snd it))) \<le> ie_max_tuples env"
    using assms(1-4) by (auto simp: tid_items_def env_ok_def)
  from append_batch_ret[OF assms(6) _ _ ok(1,2,4,3) assms(5), of "ie_packing env"] assms(1,8) obtain n idx' k bs' where
    r: "pg_tre_pending_append_batch (ie_blcksz env) (ie_max_tuples env) (ie_packing env) (ins_blocks st) (ins_index st) ?items
          = ret (n, idx', drop k (ins_blocks st))"
      "k \<le> length ?items" "pending_inv (ie_blcksz env) idx' bs'" "set bs' \<subseteq> set bs \<union> set (take k (ins_blocks st))"
      "n = pending_n_entries (meta_page idx')"
      "\<And>o'. pending_listing (ie_max_tuples env) (ie_packing env) (ins_index st) = ret o' \<Longrightarrow>
        pending_listing (ie_max_tuples env) (ie_packing env) idx' = ret (o' @ ?items)"
    unfolding env_ok_def by auto
  have fresh: "b \<noteq> InvalidBlockNumber \<and> b \<notin> set bs'" if "b \<in> set (drop k (ins_blocks st))" for b
    using that r(4) assms(5,8) set_take_disj_set_drop_if_distinct[OF assms(5), of k k] by (auto dest: in_set_dropD)
  have lst: "pending_listing (ie_max_tuples env) (ie_packing env) idx' = ret (old @ tid_items (ie_tid env) (sent @ batch st))"
    using r(6)[OF assms(7)] by (simp add: tid_items_def)
  have "length ?items = length (batch st)" by (simp add: tid_items_def)
  then have "todo \<le> length (drop k (ins_blocks st))" using r(2) assms(4) by simp
  then show ?thesis using r(1,3,5) fresh lst assms(5) unfolding flush_batch_def tid_items_def[symmetric] by auto
qed

text \<open>A trigram that was let through joins the batch, which is flushed when it is full.\<close>

lemma batch_step:
  assumes "env_ok env" and "ins_inv env old cs hs (Suc todo) st"
    and "windows3 (cs @ [c]) = windows3 cs @ [w]" and "h = pg_tre_hash_trigram_cp (ie_hash env) w"
    and "seen_inv (ie_cap env) (hs @ [h]) ss" and "unat (ie_cap env) div 2 \<ge> length (windows3 cs) + 1 \<Longrightarrow> distinct (hs @ [h])"
    and "st2 = st\<lparr> ring := last3 (cs @ [c]), seen_trigrams := ss, batch := batch st @ [h] \<rparr>"
  shows "\<exists>st'. (if length (batch st2) = PG_TRE_PENDING_BATCH_MAX then flush_batch env st2 else ret st2) = ret st'
    \<and> ins_inv env old (cs @ [c]) (hs @ [h]) todo st'"
proof -
  from assms(2) obtain bs sent where inv: "hs = sent @ batch st" "pending_inv (ie_blcksz env) (ins_index st) bs"
      "pending_listing (ie_max_tuples env) (ie_packing env) (ins_index st) = ret (old @ tid_items (ie_tid env) sent)"
      "\<forall>b \<in> set (ins_blocks st). b \<noteq> InvalidBlockNumber \<and> b \<notin> set bs"
      "length (batch st) < PG_TRE_PENDING_BATCH_MAX" "Suc todo + length (batch st) \<le> length (ins_blocks st)" "distinct (ins_blocks st)"
      "set hs = pg_tre_hash_trigram_cp (ie_hash env) ` set (windows3 cs)" "length hs \<le> length (windows3 cs)"
      "n_pending st = (if sent = [] then 0 else pending_n_entries (meta_page (ins_index st)))"
    unfolding ins_inv_def sent_inv_def by blast
  have sets: "set (hs @ [h]) = pg_tre_hash_trigram_cp (ie_hash env) ` set (windows3 (cs @ [c]))"
      "length (hs @ [h]) \<le> length (windows3 (cs @ [c]))"
      "unat (ie_cap env) div 2 \<ge> length (windows3 (cs @ [c])) \<longrightarrow> distinct (hs @ [h])"
    using inv(8,9) assms(3,4,6) by auto
  show ?thesis
  proof (cases "length (batch st2) = PG_TRE_PENDING_BATCH_MAX")
    case True
    have "todo + length (batch st2) \<le> length (ins_blocks st2)" "batch st2 \<noteq> []" using inv(6) assms(7) by simp_all
    with flush_batch_ret[of env st2 todo bs old sent] assms(1,7) True inv obtain st' bs' where
      f: "flush_batch env st2 = ret st'" "ring st' = ring st2" "seen_trigrams st' = seen_trigrams st2" "batch st' = []"
        "todo \<le> length (ins_blocks st')" "distinct (ins_blocks st')" "pending_inv (ie_blcksz env) (ins_index st') bs'"
        "pending_listing (ie_max_tuples env) (ie_packing env) (ins_index st') = ret (old @ tid_items (ie_tid env) (sent @ batch st2))"
        "\<forall>b \<in> set (ins_blocks st'). b \<noteq> InvalidBlockNumber \<and> b \<notin> set bs'"
        "n_pending st' = pending_n_entries (meta_page (ins_index st'))" by auto
    have "hs @ [h] = (sent @ batch st2) @ batch st'" using inv(1) f(4) assms(7) by simp
    moreover have "0 < PG_TRE_PENDING_BATCH_MAX" by (simp add: PG_TRE_PENDING_BATCH_MAX_def)
    ultimately have "ins_inv env old (cs @ [c]) (hs @ [h]) todo st'"
      unfolding ins_inv_def sent_inv_def using f(2-10) sets assms(5,7) by auto
    then show ?thesis using True f(1) by simp
  next
    case False
    then have "length (batch st2) < PG_TRE_PENDING_BATCH_MAX" using inv(5) assms(7) by simp
    then have "ins_inv env old (cs @ [c]) (hs @ [h]) todo st2"
      unfolding ins_inv_def sent_inv_def using sets assms(5,7) inv by auto
    then show ?thesis using False by simp
  qed
qed

lemma insert_char_inv:
  assumes "env_ok env" and "ins_inv env old cs hs (Suc todo) st"
  shows "\<exists>st' hs'. insert_char env c st = ret st' \<and> ins_inv env old (cs @ [c]) hs' todo st'"
proof -
  let ?rg = "last3 (cs @ [c])" and ?st1 = "st\<lparr> ring := last3 (cs @ [c]) \<rparr>"
  have rg: "ring_push (ring st) c = ?rg" using assms(2) ring_push_last3 by (simp add: ins_inv_def)
  show ?thesis
  proof (cases "length cs < 2")
    case True
    then have "insert_char env c st = ret ?st1" by (simp add: insert_char_def rg Let_def length_last3)
    moreover have "ins_inv env old (cs @ [c]) hs todo ?st1"
      using assms(2) True windows3_snoc[of cs c] by (simp add: ins_inv_def)
    ultimately show ?thesis by blast
  next
    case False
    let ?w = "(?rg ! 0, ?rg ! 1, ?rg ! 2)"
    define h where "h = pg_tre_hash_trigram_cp (ie_hash env) ?w"
    have w: "windows3 (cs @ [c]) = windows3 cs @ [?w]" using False windows3_snoc[of cs c] by simp
    have si: "seen_inv (ie_cap env) hs (seen_trigrams st)" using assms(2) by (simp add: ins_inv_def)
    from note_trigram_ret[OF si, of h] obtain skip ss where
      nt: "note_trigram (ie_cap env) h (seen_trigrams st) = ret (skip, ss)"
        "if skip then h \<in> set hs \<and> ss = seen_trigrams st else seen_inv (ie_cap env) (hs @ [h]) ss
          \<and> (unat (n_seen (seen_trigrams st)) < unat (ie_cap env) div 2 \<longrightarrow> distinct (hs @ [h]))" by blast
    have body: "insert_char env c st = (if skip then ret ?st1
        else let st2 = ?st1\<lparr> seen_trigrams := ss, batch := batch st @ [h] \<rparr>
             in if length (batch st2) = PG_TRE_PENDING_BATCH_MAX then flush_batch env st2 else ret st2)"
      using False nt(1) by (simp add: insert_char_def rg Let_def length_last3 h_def)
    show ?thesis
    proof (cases skip)
      case True
      then have "ins_inv env old (cs @ [c]) hs todo ?st1"
        using assms(2) nt(2) w unfolding ins_inv_def h_def by auto
      then show ?thesis using body True by auto
    next
      case new: False
      have "distinct (hs @ [h])" if "unat (ie_cap env) div 2 \<ge> length (windows3 cs) + 1"
        using nt(2) new that si assms(2) unfolding seen_inv_def ins_inv_def by auto
      from batch_step[OF assms w h_def _ this refl, of ss] nt(2) new show ?thesis
        unfolding body by (auto simp: Let_def)
    qed
  qed
qed

lemma insert_fold_inv:
  assumes "env_ok env" and "ins_inv env old cs hs (length ds) st"
  shows "\<exists>st' hs'. ofold (insert_char env) ds st = ret st' \<and> ins_inv env old (cs @ ds) hs' 0 st'"
  using assms(2)
proof (induction ds arbitrary: cs hs st)
  case (Cons d ds)
  from insert_char_inv[OF assms(1), of old cs hs "length ds" st d] Cons.prems obtain st1 hs1 where
    "insert_char env d st = ret st1" "ins_inv env old (cs @ [d]) hs1 (length ds) st1" by auto
  with Cons.IH[of "cs @ [d]" hs1 st1] show ?case by auto
qed auto

section \<open>The insert\<close>

lemma seen_init:
  assumes "cap = 2 ^ n" and "9 \<le> n" and "n \<le> 22"
  shows "seen_inv cap [] \<lparr> seen = replicate (unat cap) 0, n_seen = 0, seen_zero = False \<rparr>"
proof -
  have u: "unat cap = 2 ^ n" using assms by (simp add: unat_pow2)
  have "(2::nat) ^ 9 \<le> 2 ^ n" using assms(2) by (intro power_increasing) simp_all
  then have "2 \<le> unat cap" using u by simp
  moreover have "pow2_cap (unat cap)" unfolding pow2_cap_def u using assms(3) by (intro exI[of _ n]) simp
  moreover have "probe_ok seen_key seen_home (replicate (unat cap) 0)" by (rule probe_ok_empty) simp
  moreover have "tab_get seen_key (replicate (unat cap) 0) h = None" for h
    by (simp add: tab_get_def find_None_iff)
  moreover have "used_slots seen_key (replicate (unat cap) 0) = 0" by (simp add: used_slots_def)
  ultimately show ?thesis by (simp add: seen_inv_def)
qed

lemma seen_capacity_enough:
  assumes "n \<le> 22" and "len \<le> 2 ^ 21" and "n < 22 \<longrightarrow> word_of_nat len * 2 \<le> (2 :: uint32) ^ n"
  shows "2 * len \<le> 2 ^ n"
proof (cases "n < 22")
  case True
  have "unat (word_of_nat (2 * len) :: uint32) = 2 * len" using assms(2) by (intro unat_of_nat32) simp
  moreover have "(word_of_nat (2 * len) :: uint32) \<le> 2 ^ n" using assms(3) True by (simp add: mult.commute)
  ultimately show ?thesis using assms(1) unat_pow2[of n] by (simp add: word_le_nat_alt)
next
  case False
  then have "n = 22" using assms(1) by simp
  then show ?thesis using assms(2) by simp
qed

theorem aminsert_ret:
  assumes "cpstream_chars enc (pg_tre_cpstream_init str) = ret cps" and "encoding_ok enc"
    and "pending_inv blcksz idx bs" and "0 < pending_capacity blcksz" and "mt < 65535" and "unat (ip_posid tid) \<le> mt"
    and "length str \<le> length blocks" and "distinct blocks" and "\<And>b. b \<in> set blocks \<Longrightarrow> b \<noteq> InvalidBlockNumber \<and> b \<notin> set bs"
    and "pending_listing mt pk idx = ret old"
  shows "\<exists>idx' bs' hs. pg_tre_aminsert enc hf blcksz mt pk limit_kb try_merge blocks idx (Some str) tid
      = (if pending_over_limit limit_kb (if hs = [] then 0 else word_of_nat (length old + length hs)) then andThen (try_merge idx') (\<lambda>i. ret (True, i)) else ret (True, idx'))
    \<and> pending_inv blcksz idx' bs' \<and> pending_listing mt pk idx' = ret (old @ tid_items tid hs)
    \<and> set hs = text_hashes hf cps \<and> (length str \<le> 2 ^ 21 \<longrightarrow> distinct hs)"
proof -
  have n9: "(2 :: uint32) ^ 9 = SEEN_STACK" by (simp add: SEEN_STACK_def)
  from seen_capacity_pow[of 9 "word_of_nat (length str)"] obtain n where
    n: "9 \<le> n" "n \<le> 22" "seen_capacity (word_of_nat (length str)) SEEN_STACK = ret (2 ^ n)"
      "n < 22 \<longrightarrow> word_of_nat (length str) * 2 \<le> (2 :: uint32) ^ n" unfolding n9 by auto
  define env where "env = \<lparr> ie_hash = hf, ie_blcksz = blcksz, ie_max_tuples = mt, ie_packing = pk, ie_cap = 2 ^ n, ie_tid = tid \<rparr>"
  define st0 where "st0 = \<lparr> ring = [], seen_trigrams = \<lparr> seen = replicate (unat ((2 :: uint32) ^ n)) 0, n_seen = 0, seen_zero = False \<rparr>,
    batch = [], ins_index = idx, ins_blocks = blocks, n_pending = 0 \<rparr>"
  have len: "length cps \<le> length str"
    using cpstream_chars_total[OF assms(2), of "pg_tre_cpstream_init str"] assms(1) by (auto simp: pg_tre_cpstream_init_def)
  have cap: "length (windows3 cps) \<le> unat (ie_cap env) div 2" if "length str \<le> 2 ^ 21"
    using seen_capacity_enough[OF n(2) that n(4)] len n(2) by (simp add: env_def unat_pow2 length_windows3)
  have env: "env_ok env" using assms(4-6) by (simp add: env_ok_def env_def)
  have "ins_inv env old [] [] (length cps) st0"
    using assms(3,7-10) len seen_init[OF refl n(1,2)]
    by (auto simp: ins_inv_def sent_inv_def env_def st0_def last3_def tid_items_def PG_TRE_PENDING_BATCH_MAX_def)
  from insert_fold_inv[OF env this] obtain st1 hs where
    st1: "ofold (insert_char env) cps st0 = ret st1" "ins_inv env old cps hs 0 st1" by auto
  from st1(2) obtain bs1 sent where inv: "hs = sent @ batch st1" "pending_inv blcksz (ins_index st1) bs1"
      "pending_listing mt pk (ins_index st1) = ret (old @ tid_items tid sent)"
      "\<forall>b \<in> set (ins_blocks st1). b \<noteq> InvalidBlockNumber \<and> b \<notin> set bs1"
      "length (batch st1) < PG_TRE_PENDING_BATCH_MAX" "length (batch st1) \<le> length (ins_blocks st1)" "distinct (ins_blocks st1)"
      "set hs = text_hashes hf cps" "unat (ie_cap env) div 2 \<ge> length (windows3 cps) \<longrightarrow> distinct hs"
      "n_pending st1 = (if sent = [] then 0 else pending_n_entries (meta_page (ins_index st1)))"
    unfolding ins_inv_def sent_inv_def env_def text_hashes_def by auto
  obtain st2 bs2 where st2: "(if batch st1 \<noteq> [] then flush_batch env st1 else ret st1) = ret st2" "pending_inv blcksz (ins_index st2) bs2"
      "pending_listing mt pk (ins_index st2) = ret (old @ tid_items tid hs)"
      "n_pending st2 = (if hs = [] then 0 else pending_n_entries (meta_page (ins_index st2)))"
  proof (cases "batch st1 = []")
    case True
    then show thesis using that[of st1 bs1] inv by simp
  next
    case False
    then show thesis using flush_batch_ret[OF env, of st1 0 bs1 old sent] inv that unfolding env_def by auto
  qed
  have "pending_n_entries (meta_page (ins_index st2)) = word_of_nat (length old + length hs)"
  proof -
    have "length (pend_items (pending_pages (ins_index st2)) bs2) = length (old @ tid_items tid hs)"
      using st2(3) listing_inv[OF st2(2), of mt pk] by (metis length_map ret_inject)
    then show ?thesis using st2(2) by (simp add: pending_inv_def tid_items_def)
  qed
  then have cnt: "n_pending st2 = (if hs = [] then 0 else word_of_nat (length old + length hs))" using st2(4) by simp
  have "pg_tre_aminsert enc hf blcksz mt pk limit_kb try_merge blocks idx (Some str) tid
      = (if pending_over_limit limit_kb (n_pending st2) then andThen (try_merge (ins_index st2)) (\<lambda>i. ret (True, i))
         else ret (True, ins_index st2))"
    using n(3) insert_chars_fold[OF assms(1), of env st0] st1(1) st2(1)
    by (cases "batch st1 = []") (simp_all add: pg_tre_aminsert_def Let_def env_def[symmetric] st0_def[symmetric])
  then show ?thesis using st2(2,3) inv(8,9) cap unfolding cnt by blast
qed

end
