(* ===== verification/Run_Catalog_Chain.thy ===== *)
theory Run_Catalog_Chain
  imports Run_Catalog
begin

text \<open>
  The iterator of the run catalog on a well-formed chain of pages: it returns, without an
  error, and yields the base run and then the live runs of the chain in page order. The
  writers keep the chain well formed and change what the iterator yields as they promise.
\<close>

section \<open>Chains of catalog pages\<close>

text \<open>\<open>page_chain cat b ps\<close>: following \<open>right_link\<close> from \<open>b\<close> visits the pages \<open>ps\<close> and ends.\<close>

fun page_chain :: "tre_index \<Rightarrow> BlockNumber \<Rightarrow> PgTreRunCatalogPage list \<Rightarrow> bool" where
  "page_chain cat b [] \<longleftrightarrow> b = InvalidBlockNumber"
| "page_chain cat b (p # ps) \<longleftrightarrow> b \<noteq> InvalidBlockNumber \<and> catalog_pages cat b = Some p
     \<and> n_entries p \<le> length (runs p) \<and> page_chain cat (right_link p) ps"

definition page_runs :: "PgTreRunCatalogPage \<Rightarrow> PgTreRun list" where
  "page_runs p = take (n_entries p) (runs p)"

definition chain_runs :: "PgTreRunCatalogPage list \<Rightarrow> PgTreRun list" where
  "chain_runs ps = concat (map page_runs ps)"

lemma chain_runs_simps [simp]:
  "chain_runs [] = []" "chain_runs (p # ps) = page_runs p @ chain_runs ps"
  by (simp_all add: chain_runs_def)

lemma length_page_runs: "n_entries p \<le> length (runs p) \<Longrightarrow> length (page_runs p) = n_entries p"
  by (simp add: page_runs_def)

text \<open>
  The runs still to come, live or not, from an iterator state that has served the base run:
  before the first page, or inside a page of the chain.
\<close>

definition iter_at :: "tre_index \<Rightarrow> PgTreRunIter \<Rightarrow> PgTreRun list \<Rightarrow> bool" where
  "iter_at cat it L \<longleftrightarrow> implicit_served it \<and>
     ((\<exists>ps. cur_n it = 0 \<and> page_chain cat (cur_page it) ps \<and> L = chain_runs ps) \<or>
      (\<exists>p ps. page_chain cat (cur_page it) (p # ps) \<and> cur_n it = n_entries p \<and> 0 < n_entries p
         \<and> cur_idx it \<le> n_entries p \<and> L = drop (cur_idx it) (page_runs p) @ chain_runs ps))"

lemma load_page_chain:
  assumes "page_chain cat (cur_page it) ps" and "implicit_served it"
  shows "\<exists>it'. catalog_load_page cat it = ret (chain_runs ps \<noteq> [], it') \<and>
    (chain_runs ps \<noteq> [] \<longrightarrow> cur_idx it' < cur_n it' \<and> iter_at cat it' (chain_runs ps))"
  using assms
proof (induction ps arbitrary: it)
  case Nil
  then show ?case by (subst catalog_load_page.simps) simp
next
  case (Cons p ps)
  then have b: "cur_page it \<noteq> InvalidBlockNumber" "catalog_pages cat (cur_page it) = Some p"
    and n: "n_entries p \<le> length (runs p)" and ch: "page_chain cat (right_link p) ps" by simp_all
  show ?case
  proof (cases "n_entries p = 0")
    case True
    have "catalog_load_page cat it = catalog_load_page cat
        (it\<lparr> cur_n := n_entries p, cur_idx := 0, cur_page := right_link p \<rparr>)"
      using b True by (subst catalog_load_page.simps) (simp add: read_catalog_page_def)
    moreover have "page_runs p = []" using True by (simp add: page_runs_def)
    ultimately show ?thesis
      using Cons.IH[of "it\<lparr> cur_n := n_entries p, cur_idx := 0, cur_page := right_link p \<rparr>"] ch Cons.prems(2)
      by simp
  next
    case False
    have "catalog_load_page cat it = ret (True, it\<lparr> cur_n := n_entries p, cur_idx := 0 \<rparr>)"
      using b False by (subst catalog_load_page.simps) (simp add: read_catalog_page_def)
    moreover have "page_runs p \<noteq> []" using False n length_page_runs[of p] by auto
    ultimately show ?thesis using Cons.prems False unfolding iter_at_def by auto
  qed
qed

text \<open>The advance leaves the iterator inside a page that has the next entry, if there is one.\<close>

lemma advance_chain:
  assumes "iter_at cat it L"
  shows "\<exists>it'. catalog_advance cat it = ret (L \<noteq> [], it') \<and>
    (L \<noteq> [] \<longrightarrow> cur_idx it' < cur_n it' \<and> iter_at cat it' L)"
proof -
  from assms consider (start) ps where "cur_n it = 0" "page_chain cat (cur_page it) ps" "L = chain_runs ps"
    | (inside) p ps where "page_chain cat (cur_page it) (p # ps)" "cur_n it = n_entries p" "0 < n_entries p"
        "cur_idx it \<le> n_entries p" "L = drop (cur_idx it) (page_runs p) @ chain_runs ps"
    unfolding iter_at_def by blast
  then show ?thesis
  proof cases
    case start
    then show ?thesis using load_page_chain[of cat it ps] assms by (simp add: catalog_advance_def iter_at_def)
  next
    case inside
    have len: "length (page_runs p) = n_entries p" using inside(1) by (simp add: length_page_runs)
    show ?thesis
    proof (cases "cur_idx it < cur_n it")
      case True
      moreover have "L \<noteq> []" using True inside(2,5) len by simp
      ultimately show ?thesis using assms by (simp add: catalog_advance_def)
    next
      case False
      then have L: "L = chain_runs ps" using inside(2,5) len by simp
      have "catalog_advance cat it = catalog_load_page cat (it\<lparr> cur_page := right_link p \<rparr>)"
        using False inside(1,2,3) by (simp add: catalog_advance_def read_catalog_page_def)
      then show ?thesis
        using load_page_chain[of cat "it\<lparr> cur_page := right_link p \<rparr>" ps] inside(1) assms L
        by (simp add: iter_at_def)
    qed
  qed
qed

lemma iter_at_page:
  assumes "iter_at cat it L" and "cur_idx it < cur_n it"
  obtains hdr where "read_catalog_page cat (cur_page it) = ret hdr" and "L = runs hdr ! cur_idx it # tl L"
    and "iter_at cat (it\<lparr> cur_idx := cur_idx it + 1 \<rparr>) (tl L)"
proof -
  from assms obtain p ps where p: "page_chain cat (cur_page it) (p # ps)" "cur_n it = n_entries p"
      "cur_idx it < n_entries p" "L = drop (cur_idx it) (page_runs p) @ chain_runs ps"
    unfolding iter_at_def by auto
  have len: "length (page_runs p) = n_entries p" using p(1) by (simp add: length_page_runs)
  have nth: "page_runs p ! cur_idx it = runs p ! cur_idx it" using p(3) by (simp add: page_runs_def)
  have "drop (cur_idx it) (page_runs p) = runs p ! cur_idx it # drop (Suc (cur_idx it)) (page_runs p)"
    using p(3) len nth by (metis Cons_nth_drop_Suc)
  then have L: "L = runs p ! cur_idx it # drop (Suc (cur_idx it)) (page_runs p) @ chain_runs ps" using p(4) by simp
  have "iter_at cat (it\<lparr> cur_idx := cur_idx it + 1 \<rparr>) (tl L)"
    using assms(1) p L unfolding iter_at_def by auto
  with that[of p] p(1) L show ?thesis by (simp add: read_catalog_page_def)
qed

lemma next_loop_chain:
  "iter_at cat it L \<Longrightarrow>
     case filter run_is_live L of
       [] \<Rightarrow> \<exists>it'. catalog_next_loop cat it = ret (None, it')
     | r # rs \<Rightarrow> \<exists>it' L'. catalog_next_loop cat it = ret (Some r, it') \<and> iter_at cat it' L' \<and> filter run_is_live L' = rs"
proof (induction L arbitrary: it)
  case Nil
  from advance_chain[OF Nil] obtain it' where "catalog_advance cat it = ret (False, it')" by auto
  then show ?case by (subst catalog_next_loop.simps) simp
next
  case (Cons r L)
  from advance_chain[OF Cons.prems] obtain it1 where a: "catalog_advance cat it = ret (True, it1)"
      "cur_idx it1 < cur_n it1" "iter_at cat it1 (r # L)" by auto
  from iter_at_page[OF a(3,2)] obtain hdr where h: "read_catalog_page cat (cur_page it1) = ret hdr"
      "r = runs hdr ! cur_idx it1" "iter_at cat (it1\<lparr> cur_idx := cur_idx it1 + 1 \<rparr>) L" by auto
  have step: "catalog_next_loop cat it = (if run_is_live r then ret (Some r, it1\<lparr> cur_idx := cur_idx it1 + 1 \<rparr>)
      else catalog_next_loop cat (it1\<lparr> cur_idx := cur_idx it1 + 1 \<rparr>))"
    using a(1) h(1,2) by (subst catalog_next_loop.simps) simp
  show ?case using Cons.IH[OF h(3)] h(3) step by (auto split: list.splits)
qed

lemma next_chain:
  assumes "iter_at cat it L"
  shows "case filter run_is_live L of
       [] \<Rightarrow> \<exists>it'. pg_tre_run_catalog_next cat it = ret (None, it')
     | r # rs \<Rightarrow> \<exists>it' L'. pg_tre_run_catalog_next cat it = ret (Some r, it') \<and> iter_at cat it' L'
         \<and> filter run_is_live L' = rs"
proof (cases "cur_page it = InvalidBlockNumber \<and> cur_n it = 0")
  case True
  then have "L = []" using assms by (auto simp: iter_at_def elim: page_chain.elims)
  with True assms show ?thesis by (simp add: pg_tre_run_catalog_next_def iter_at_def)
next
  case False
  then have eq: "pg_tre_run_catalog_next cat it = catalog_next_loop cat it"
    using assms by (auto simp: pg_tre_run_catalog_next_def iter_at_def)
  show ?thesis unfolding eq by (rule next_loop_chain[OF assms])
qed

lemma drain_chain: "iter_at cat it L \<Longrightarrow> run_catalog_drain cat it = ret (filter run_is_live L)"
proof (induction "filter run_is_live L" arbitrary: it L)
  case Nil
  from next_chain[OF Nil(2)] Nil(1)[symmetric] show ?case by (subst run_catalog_drain.simps) auto
next
  case (Cons r rs)
  from next_chain[OF Cons.prems] Cons.hyps(2)[symmetric] obtain it' L' where
    n: "pg_tre_run_catalog_next cat it = ret (Some r, it')" "iter_at cat it' L'" "filter run_is_live L' = rs" by auto
  from Cons.hyps(1)[OF n(3)[symmetric] n(2)] n Cons.hyps(2) show ?case
    by (subst run_catalog_drain.simps) simp
qed

section \<open>What a scan visits\<close>

definition catalog_head :: "tre_index \<Rightarrow> BlockNumber" where
  "catalog_head cat = run_catalog_head (normalize_runs (meta_page cat))"

definition catalog_wf :: "tre_index \<Rightarrow> PgTreRunCatalogPage list \<Rightarrow> bool" where
  "catalog_wf cat ps \<longleftrightarrow> page_chain cat (catalog_head cat) ps"

theorem drain_open:
  assumes "catalog_wf cat ps" and "magic (meta_page cat) = PG_TRE_META_MAGIC"
  shows "run_catalog_runs cat = ret (implicit_base_run (meta_page cat) # filter run_is_live (chain_runs ps))"
proof -
  define it where "it = \<lparr> implicit_served = False, implicit_run = implicit_base_run (meta_page cat),
    cur_page = catalog_head cat, cur_idx = 0, cur_n = 0 \<rparr>"
  have opn: "pg_tre_run_catalog_open cat = ret it"
    by (simp add: pg_tre_run_catalog_open_def meta_read_ret[OF assms(2)] it_def catalog_head_def implicit_base_run_def)
  have "iter_at cat (it\<lparr> implicit_served := True \<rparr>) (chain_runs ps)"
    using assms(1) by (auto simp: iter_at_def it_def catalog_wf_def)
  from drain_chain[OF this] show ?thesis
    unfolding run_catalog_runs_def opn
    by (simp, subst run_catalog_drain.simps) (simp add: pg_tre_run_catalog_next_def it_def)
qed

section \<open>The writers\<close>

lemma page_chain_frame:
  "page_chain cat b ps \<Longrightarrow> fresh \<notin> dom (catalog_pages cat) \<Longrightarrow> catalog_pages cat' = (catalog_pages cat)(fresh \<mapsto> p) \<Longrightarrow>
     page_chain cat' b ps"
  by (induction ps arbitrary: b) (auto simp: domIff)

text \<open>No page of a chain is visited twice, so rewriting the head page leaves the tail alone.\<close>

lemma page_chain_det: "page_chain cat b ps \<Longrightarrow> page_chain cat b qs \<Longrightarrow> ps = qs"
proof (induction ps arbitrary: b qs)
  case Nil
  then show ?case by (cases qs) auto
next
  case (Cons p ps)
  then show ?case by (cases qs) auto
qed

lemma page_chain_update:
  "page_chain cat c ps \<Longrightarrow> \<forall>qs. page_chain cat b qs \<longrightarrow> length ps < length qs \<Longrightarrow>
     catalog_pages cat' = (catalog_pages cat)(b \<mapsto> p) \<Longrightarrow> page_chain cat' c ps"
proof (induction ps arbitrary: c)
  case (Cons q ps)
  have "c \<noteq> b" using Cons.prems(1,2) by (metis less_irrefl)
  moreover have "\<forall>qs. page_chain cat b qs \<longrightarrow> length ps < length qs" using Cons.prems(2) by fastforce
  ultimately show ?case using Cons by simp
qed simp

lemma page_chain_head:
  assumes "page_chain cat b (q # ps)" and "catalog_pages cat' = (catalog_pages cat)(b \<mapsto> p)"
  shows "page_chain cat' (right_link q) ps"
proof (rule page_chain_update[of cat _ ps b cat' p])
  show "\<forall>qs. page_chain cat b qs \<longrightarrow> length ps < length qs"
    using page_chain_det[OF assms(1)] by (metis length_Cons lessI)
qed (use assms in simp_all)

text \<open>
  The invariant the writers keep: the chain is well formed, block 0 is the meta page, every
  stored run is live and has an id of its own below the allocator, and the count of the meta
  page is one more than the number of stored runs (or zero when there are none).
\<close>

definition run_ids_ok :: "uint64 \<Rightarrow> PgTreRun list \<Rightarrow> bool" where
  "run_ids_ok nxt rs \<longleftrightarrow> distinct (map run_id rs) \<and> (\<forall>r \<in> set rs. 0 < run_id r \<and> run_id r < nxt \<and> run_is_live r)"

definition catalog_inv :: "tre_index \<Rightarrow> PgTreRunCatalogPage list \<Rightarrow> bool" where
  "catalog_inv cat ps \<longleftrightarrow> magic (meta_page cat) = PG_TRE_META_MAGIC \<and> catalog_wf cat ps \<and> catalog_pages cat 0 = None
     \<and> run_ids_ok (next_run_id (normalize_runs (meta_page cat))) (chain_runs ps)
     \<and> (if chain_runs ps = [] then ps = [] \<and> n_runs (meta_page cat) = 0
        else unat (n_runs (meta_page cat)) = Suc (length (chain_runs ps)))"

lemma normalize_runs_base [simp]: "implicit_base_run (normalize_runs m) = implicit_base_run m"
  by (simp add: implicit_base_run_def)

lemma normalize_runs_id_pos: "0 < next_run_id (normalize_runs m)"
  by (auto simp: normalize_runs_def Let_def word_neq_0_conv)

lemma normalize_runs_fixed:
  "run_catalog_head m \<noteq> 0 \<Longrightarrow> next_run_id m \<noteq> 0 \<Longrightarrow> run_catalog_head (normalize_runs m) = run_catalog_head m
     \<and> next_run_id (normalize_runs m) = next_run_id m"
  by (simp add: normalize_runs_def Let_def)

lemma catalog_head_eq:
  "catalog_head cat = (if n_runs (meta_page cat) = 0 \<and> run_catalog_head (meta_page cat) = 0
     then InvalidBlockNumber else run_catalog_head (meta_page cat))"
  by (auto simp: catalog_head_def normalize_runs_def Let_def)

lemma run_ids_insert:
  assumes "run_ids_ok nxt (xs @ ys)" and "nxt < nxt'"
  shows "0 < nxt \<Longrightarrow> run_is_live r \<Longrightarrow> run_id r = nxt \<Longrightarrow> run_ids_ok nxt' (xs @ r # ys)"
proof -
  assume r: "0 < nxt" "run_is_live r" "run_id r = nxt"
  have old: "\<forall>q \<in> set (xs @ ys). 0 < run_id q \<and> run_id q < nxt \<and> run_is_live q" "distinct (map run_id (xs @ ys))"
    using assms(1) by (simp_all add: run_ids_ok_def)
  then have "run_id r \<notin> run_id ` set (xs @ ys)" unfolding r(3) by blast
  with old(2) have "distinct (map run_id (xs @ r # ys))" by (simp add: image_Un)
  moreover have "0 < run_id q \<and> run_id q < nxt' \<and> run_is_live q" if "q \<in> set (xs @ r # ys)" for q
  proof (cases "q = r")
    case False
    then have "q \<in> set (xs @ ys)" using that by simp
    then show ?thesis using bspec[OF old(1)] order.strict_trans[OF _ assms(2)] by blast
  qed (simp add: r assms(2))
  ultimately show ?thesis unfolding run_ids_ok_def by blast
qed

definition append_run :: "PgTreRun \<Rightarrow> PgTreRunCatalogPage \<Rightarrow> PgTreRunCatalogPage" where
  "append_run r p = p\<lparr> runs := page_runs p @ [r], n_entries := n_entries p + 1 \<rparr>"

lemma page_runs_append:
  "n_entries p \<le> length (runs p) \<Longrightarrow> page_runs (append_run r p) = page_runs p @ [r]
     \<and> n_entries (append_run r p) \<le> length (runs (append_run r p)) \<and> right_link (append_run r p) = right_link p"
  by (simp add: append_run_def page_runs_def)

text \<open>Where an append puts its run: the block, the page as it was and the pages behind it.\<close>

lemma append_cases:
  assumes "catalog_wf cat ps" and "fresh \<noteq> InvalidBlockNumber" and "fresh \<notin> dom (catalog_pages cat)"
  obtains blk p qs where
    "pg_tre_run_catalog_append cap fresh cat run =
       (let m = normalize_runs (meta_page cat)
        in ret (next_run_id m, cat\<lparr> meta_page := m\<lparr> next_run_id := next_run_id m + 1, run_catalog_head := blk,
                 n_runs := (if n_runs m = 0 then 2 else n_runs m + 1) \<rparr>,
               catalog_pages := (catalog_pages cat)(blk \<mapsto> append_run (run\<lparr> run_id := next_run_id m \<rparr>) p) \<rparr>))"
    and "blk = fresh \<or> blk \<in> dom (catalog_pages cat)" and "blk \<noteq> InvalidBlockNumber"
    and "n_entries p \<le> length (runs p)" and "page_runs p @ chain_runs qs = chain_runs ps"
    and "\<And>cat'. catalog_pages cat' = (catalog_pages cat)(blk \<mapsto> append_run (run\<lparr> run_id := next_run_id (normalize_runs (meta_page cat)) \<rparr>) p)
           \<Longrightarrow> page_chain cat' (right_link p) qs"
proof -
  let ?head = "catalog_head cat" and ?new = "\<lparr> right_link = catalog_head cat, n_entries = 0, runs = [] \<rparr>"
  have ch: "page_chain cat ?head ps" using assms(1) by (simp add: catalog_wf_def)
  note unfold = pg_tre_run_catalog_append_def Let_def catalog_head_eq[symmetric] append_run_def page_runs_def
  show ?thesis
  proof (cases ps)
    case Nil
    then have h: "?head = InvalidBlockNumber" using ch by simp
    show ?thesis
    proof (rule that[of fresh ?new "[]"])
      show "page_chain cat' (right_link ?new) []" for cat' :: tre_index by (simp add: h)
    qed (use assms(2) Nil h in \<open>simp_all add: unfold\<close>)
  next
    case (Cons q qs)
    then have h: "?head \<noteq> InvalidBlockNumber" "catalog_pages cat ?head = Some q" "n_entries q \<le> length (runs q)"
      using ch by simp_all
    show ?thesis
    proof (cases "cap \<le> n_entries q")
      case True
      show ?thesis
      proof (rule that[of fresh ?new ps])
        show "catalog_pages cat' = (catalog_pages cat)(fresh \<mapsto> append_run (run\<lparr> run_id := next_run_id (normalize_runs (meta_page cat)) \<rparr>) ?new)
          \<Longrightarrow> page_chain cat' (right_link ?new) ps" for cat' :: tre_index
          using page_chain_frame[OF ch assms(3)] by simp
      qed (use assms(2) h True in \<open>simp_all add: unfold read_catalog_page_def\<close>)
    next
      case False
      show ?thesis
      proof (rule that[of ?head q qs])
        show "catalog_pages cat' = (catalog_pages cat)(?head \<mapsto> append_run (run\<lparr> run_id := next_run_id (normalize_runs (meta_page cat)) \<rparr>) q)
          \<Longrightarrow> page_chain cat' (right_link q) qs" for cat' :: tre_index
          using page_chain_head[of cat ?head q qs] ch Cons by blast
      qed (use h False Cons in \<open>auto simp: unfold read_catalog_page_def\<close>)
    qed
  qed
qed

lemma append_inv:
  assumes "catalog_inv cat ps" and "run_is_live run"
    and "fresh \<noteq> InvalidBlockNumber" and "fresh \<noteq> 0" and "fresh \<notin> dom (catalog_pages cat)"
    and "next_run_id (normalize_runs (meta_page cat)) \<noteq> - 1" and "Suc (length (chain_runs ps)) < 2 ^ 32 - 1"
  shows "\<exists>cat' qs1 qs2 ps'. pg_tre_run_catalog_append cap fresh cat run
      = ret (next_run_id (normalize_runs (meta_page cat)), cat')
    \<and> catalog_inv cat' ps' \<and> implicit_base_run (meta_page cat') = implicit_base_run (meta_page cat)
    \<and> chain_runs ps = qs1 @ qs2
    \<and> chain_runs ps' = qs1 @ run\<lparr> run_id := next_run_id (normalize_runs (meta_page cat)) \<rparr> # qs2"
proof -
  let ?m = "normalize_runs (meta_page cat)"
  let ?r = "run\<lparr> run_id := next_run_id ?m \<rparr>"
  have wf: "catalog_wf cat ps" using assms(1) by (simp add: catalog_inv_def)
  from append_cases[OF wf assms(3,5), of cap run] obtain blk p qs where
    eq: "pg_tre_run_catalog_append cap fresh cat run = (let m = ?m
        in ret (next_run_id m, cat\<lparr> meta_page := m\<lparr> next_run_id := next_run_id m + 1, run_catalog_head := blk,
                 n_runs := (if n_runs m = 0 then 2 else n_runs m + 1) \<rparr>,
               catalog_pages := (catalog_pages cat)(blk \<mapsto> append_run (run\<lparr> run_id := next_run_id m \<rparr>) p) \<rparr>))"
    and blk: "blk = fresh \<or> blk \<in> dom (catalog_pages cat)" "blk \<noteq> InvalidBlockNumber"
    and p: "n_entries p \<le> length (runs p)" "page_runs p @ chain_runs qs = chain_runs ps"
    and tail: "\<And>cat'. catalog_pages cat' = (catalog_pages cat)(blk \<mapsto> append_run ?r p) \<Longrightarrow> page_chain cat' (right_link p) qs"
    by metis
  define cat' where "cat' = cat\<lparr> meta_page := ?m\<lparr> next_run_id := next_run_id ?m + 1, run_catalog_head := blk,
      n_runs := (if n_runs ?m = 0 then 2 else n_runs ?m + 1) \<rparr>,
    catalog_pages := (catalog_pages cat)(blk \<mapsto> append_run ?r p) \<rparr>"
  have blk0: "blk \<noteq> 0" using blk(1) assms(1,4) by (auto simp: catalog_inv_def)
  have nxt: "next_run_id ?m + 1 \<noteq> 0" using assms(6) by (metis add.right_inverse add_diff_cancel diff_0 minus_equation_iff)
  have fx: "catalog_head cat' = blk" "next_run_id (normalize_runs (meta_page cat')) = next_run_id ?m + 1"
    using normalize_runs_fixed[of "meta_page cat'"] blk0 nxt by (simp_all add: cat'_def catalog_head_def)
  have runs': "chain_runs (append_run ?r p # qs) = page_runs p @ ?r # chain_runs qs"
    using page_runs_append[OF p(1)] by simp
  have "page_chain cat' (right_link p) qs" by (rule tail) (simp add: cat'_def)
  then have wf': "catalog_wf cat' (append_run ?r p # qs)"
    using page_runs_append[OF p(1), of ?r] blk(2) by (simp add: catalog_wf_def fx(1)) (simp add: cat'_def)
  have less: "next_run_id ?m < next_run_id ?m + 1"
    using unatSuc[of "next_run_id ?m"] nxt by (simp add: word_less_nat_alt add.commute)
  have ids: "run_ids_ok (next_run_id ?m) (page_runs p @ chain_runs qs)" using assms(1) p(2) by (simp add: catalog_inv_def)
  have ids': "run_ids_ok (next_run_id ?m + 1) (page_runs p @ ?r # chain_runs qs)"
  proof -
    have "run_is_live ?r" using assms(2) by (simp add: run_is_live_def)
    then show ?thesis using run_ids_insert[OF ids less] normalize_runs_id_pos[of "meta_page cat"] by simp
  qed
  have cnt: "unat (n_runs (meta_page cat')) = Suc (length (page_runs p @ ?r # chain_runs qs))"
  proof (cases "chain_runs ps = []")
    case True
    then show ?thesis using assms(1) p(2) by (simp add: catalog_inv_def cat'_def)
  next
    case False
    then have n: "unat (n_runs (meta_page cat)) = Suc (length (chain_runs ps))" using assms(1) by (simp add: catalog_inv_def)
    then have "n_runs (meta_page cat) \<noteq> 0" by auto
    moreover have "unat (n_runs (meta_page cat) + 1) = Suc (unat (n_runs (meta_page cat)))"
      using n assms(7) by (subst unat_add_lem[THEN iffD1]) auto
    ultimately show ?thesis using n p(2)[symmetric] by (simp add: cat'_def)
  qed
  have "catalog_inv cat' (append_run ?r p # qs)"
    unfolding catalog_inv_def runs' fx(2) using wf' ids' cnt blk0 assms(1) by (simp add: catalog_inv_def) (simp add: cat'_def)
  moreover have "implicit_base_run (meta_page cat') = implicit_base_run (meta_page cat)"
    by (simp add: cat'_def implicit_base_run_def normalize_runs_def Let_def)
  moreover have "pg_tre_run_catalog_append cap fresh cat run = ret (next_run_id ?m, cat')"
    by (simp add: eq Let_def cat'_def)
  ultimately show ?thesis using p(2) runs' by metis
qed

lemma rewrite_inv:
  assumes "catalog_inv cat ps" and "length rs \<le> cap" and "Suc (length rs) < 2 ^ 32"
    and "run_ids_ok (next_run_id (normalize_runs (meta_page cat))) rs"
    and "fresh \<noteq> InvalidBlockNumber" and "fresh \<noteq> 0" and "fresh \<notin> dom (catalog_pages cat)"
  shows "\<exists>cat' ps'. pg_tre_run_catalog_rewrite cap fresh cat rs = ret cat' \<and> catalog_inv cat' ps'
    \<and> implicit_base_run (meta_page cat') = implicit_base_run (meta_page cat) \<and> chain_runs ps' = rs"
proof (cases "rs = []")
  case True
  let ?c = "cat\<lparr> meta_page := (meta_page cat)\<lparr> run_catalog_head := InvalidBlockNumber, n_runs := 0 \<rparr> \<rparr>"
  have "catalog_inv ?c []"
    using assms(1) invalid_nonzero by (simp add: catalog_inv_def catalog_wf_def catalog_head_eq run_ids_ok_def)
  moreover have "pg_tre_run_catalog_rewrite cap fresh cat rs = ret ?c"
    using True by (simp add: pg_tre_run_catalog_rewrite_def)
  moreover have "implicit_base_run (meta_page ?c) = implicit_base_run (meta_page cat)"
    by (simp add: implicit_base_run_def)
  ultimately show ?thesis using True by (metis chain_runs_simps(1))
next
  case False
  let ?p = "\<lparr> right_link = InvalidBlockNumber, n_entries = length rs, runs = rs \<rparr>"
  let ?c = "cat\<lparr> meta_page := (meta_page cat)\<lparr> run_catalog_head := fresh, n_runs := word_of_nat (length rs + 1) \<rparr>,
      catalog_pages := (catalog_pages cat)(fresh \<mapsto> ?p) \<rparr>"
  have cr: "chain_runs [?p] = rs" by (simp add: page_runs_def)
  have n: "unat (word_of_nat (length rs + 1) :: uint32) = Suc (length rs)"
    unfolding unat_of_nat using assms(3) by simp
  have "next_run_id (normalize_runs (meta_page ?c)) = next_run_id (normalize_runs (meta_page cat))"
    by (simp add: normalize_runs_def Let_def)
  then have "catalog_inv ?c [?p]"
    using assms False n cr unfolding catalog_inv_def catalog_wf_def catalog_head_eq by simp
  moreover have "pg_tre_run_catalog_rewrite cap fresh cat rs = ret ?c"
    using False assms(2) by (simp add: pg_tre_run_catalog_rewrite_def)
  moreover have "implicit_base_run (meta_page ?c) = implicit_base_run (meta_page cat)"
    by (simp add: implicit_base_run_def)
  ultimately show ?thesis using cr by metis
qed

lemma collapse_inv:
  assumes "catalog_inv cat ps"
  shows "catalog_inv (pg_tre_run_catalog_collapse_reset cat upper rng ntri ntup) []"
  using assms invalid_nonzero
  by (simp add: catalog_inv_def catalog_wf_def catalog_head_eq run_ids_ok_def pg_tre_run_catalog_collapse_reset_def)

section \<open>Reachable catalogs\<close>

text \<open>
  The life of a catalog: it starts without pages, and each writer call, on a block that is
  not in use, is a step. The allocator and the counter are assumed not to run over their 64
  and 32 bits.
\<close>

inductive catalog_step :: "nat \<Rightarrow> tre_index \<Rightarrow> tre_index \<Rightarrow> bool" for cap :: nat where
  step_append: "run_is_live run \<Longrightarrow> fresh \<noteq> InvalidBlockNumber \<Longrightarrow> fresh \<noteq> 0 \<Longrightarrow> fresh \<notin> dom (catalog_pages cat) \<Longrightarrow>
     next_run_id (normalize_runs (meta_page cat)) \<noteq> - 1 \<Longrightarrow> unat (n_runs (meta_page cat)) < 2 ^ 32 - 2 \<Longrightarrow>
     pg_tre_run_catalog_append cap fresh cat run = ret (i, cat') \<Longrightarrow> catalog_step cap cat cat'"
| step_rewrite: "fresh \<noteq> InvalidBlockNumber \<Longrightarrow> fresh \<noteq> 0 \<Longrightarrow> fresh \<notin> dom (catalog_pages cat) \<Longrightarrow>
     Suc (length rs) < 2 ^ 32 \<Longrightarrow> run_ids_ok (next_run_id (normalize_runs (meta_page cat))) rs \<Longrightarrow>
     pg_tre_run_catalog_rewrite cap fresh cat rs = ret cat' \<Longrightarrow> catalog_step cap cat cat'"
| step_collapse: "catalog_step cap cat (pg_tre_run_catalog_collapse_reset cat upper rng ntri ntup)"

inductive catalog_reachable :: "nat \<Rightarrow> tre_index \<Rightarrow> bool" for cap :: nat where
  reach_init: "magic (meta_page cat) = PG_TRE_META_MAGIC \<Longrightarrow> n_runs (meta_page cat) = 0 \<Longrightarrow> run_catalog_head (meta_page cat) \<in> {0, InvalidBlockNumber} \<Longrightarrow>
     catalog_pages cat = (\<lambda>b. None) \<Longrightarrow> catalog_reachable cap cat"
| reach_step: "catalog_reachable cap cat \<Longrightarrow> catalog_step cap cat cat' \<Longrightarrow> catalog_reachable cap cat'"

inductive_cases catalog_stepE: "catalog_step cap cat cat'"

lemma step_inv: "catalog_step cap cat cat' \<Longrightarrow> catalog_inv cat ps \<Longrightarrow> \<exists>ps'. catalog_inv cat' ps'"
proof (induction rule: catalog_step.induct)
  case (step_append run fresh cat i cat')
  have "Suc (length (chain_runs ps)) < 2 ^ 32 - 1"
    using step_append.prems step_append.hyps(6) by (auto simp: catalog_inv_def split: if_splits)
  from append_inv[OF step_append.prems step_append.hyps(1-5) this, of cap] step_append.hyps(7) show ?case by auto
next
  case (step_rewrite fresh cat rs cat')
  have "length rs \<le> cap" using step_rewrite.hyps(6)
    by (auto simp: pg_tre_run_catalog_rewrite_def split: if_splits)
  from rewrite_inv[OF step_rewrite.prems this step_rewrite.hyps(4,5,1-3)] step_rewrite.hyps(6) show ?case by auto
next
  case (step_collapse cat upper rng ntri ntup)
  then show ?case using collapse_inv by blast
qed

theorem reachable_inv: "catalog_reachable cap cat \<Longrightarrow> \<exists>ps. catalog_inv cat ps"
proof (induction rule: catalog_reachable.induct)
  case (reach_init cat)
  then have "catalog_inv cat []"
    by (auto simp: catalog_inv_def catalog_wf_def catalog_head_eq run_ids_ok_def)
  then show ?case ..
qed (use step_inv in blast)

lemma inv_drain:
  assumes "catalog_inv cat ps"
  shows "run_catalog_runs cat = ret (implicit_base_run (meta_page cat) # chain_runs ps)"
proof -
  have "filter run_is_live (chain_runs ps) = chain_runs ps"
    using assms by (intro filter_True) (auto simp: catalog_inv_def run_ids_ok_def)
  with drain_open[of cat ps] assms show ?thesis by (simp add: catalog_inv_def)
qed

end
