(* ===== verification/Scan_Correct.thy ===== *)
theory Scan_Correct
  imports Scan Insert_Correct Run_Catalog_Chain
begin

text \<open>
  The scan computes the candidates that the query describes: the overlay holds the pending
  identifiers, the cache changes nothing, and each mode combines the bitmaps as it should.
\<close>

section \<open>Bitmaps that are NULL or hold a set\<close>

text \<open>\<open>ne\<close> asks in addition that an empty set is \<open>NULL\<close>.\<close>

definition sm_is :: "bool \<Rightarrow> sm option \<Rightarrow> sm \<Rightarrow> bool" where
  "sm_is ne m S \<longleftrightarrow> members m = S \<and> (ne \<longrightarrow> m \<noteq> Some {})"

lemma sm_is_None [simp]: "sm_is ne None S \<longleftrightarrow> S = {}"
  by (auto simp: sm_is_def)

lemma sm_is_Some: "sm_is ne (Some a) S \<longleftrightarrow> S = a \<and> (ne \<longrightarrow> a \<noteq> {})"
  by (auto simp: sm_is_def)

lemma sm_is_weak: "sm_is True m S \<Longrightarrow> sm_is ne m S"
  by (simp add: sm_is_def)

lemma sm_is_union:
  assumes "alloc_ok lib" and "sm_is ne (Some a) A" and "sm_is ne (Some b) B"
  shows "sm_is ne (sm_union lib a b) (A \<union> B)"
  using assms by (auto simp: sm_is_def alloc_ok_def sm_union_def)

lemma sm_is_copy: "alloc_ok lib \<Longrightarrow> sm_copy lib a = Some a"
  by (simp add: alloc_ok_def sm_copy_def)

lemma sm_is_intersection: "alloc_ok lib \<Longrightarrow> sm_is True (sm_intersection lib a b) (a \<inter> b)"
  by (auto simp: sm_is_def alloc_ok_def sm_intersection_def)

lemma sm_is_or_into:
  assumes "alloc_ok lib" and "sm_is ne a A" and "sm_is ne b B"
  shows "sm_is ne (or_into lib a b) (A \<union> B)"
  using sm_is_union[OF assms(1)] assms(2,3) by (cases a; cases b) (auto simp: or_into_def)

section \<open>The runs\<close>

text \<open>
  The runs of the catalog, with what each of them holds of each hash in its range.
\<close>

definition run_covers :: "PgTreRun \<Rightarrow> uint64 \<Rightarrow> bool" where
  "run_covers run h \<longleftrightarrow> min_trigram_hash run \<le> h \<and> h \<le> max_trigram_hash run"

definition runs_hold :: "scan_env \<Rightarrow> tre_index \<Rightarrow> PgTreRun list \<Rightarrow> (PgTreRun \<Rightarrow> uint64 \<Rightarrow> sm option) \<Rightarrow> bool" where
  "runs_hold env idx rs P \<longleftrightarrow> run_catalog_runs idx = ret rs
     \<and> (\<forall>run \<in> set rs. \<forall>h. run_covers run h \<longrightarrow> run_posting (sc_lib env) (sc_blcksz env) idx (run_root_upper run) h = ret (P run h))"

definition tree_tids :: "PgTreRun list \<Rightarrow> (PgTreRun \<Rightarrow> uint64 \<Rightarrow> sm option) \<Rightarrow> uint64 \<Rightarrow> sm" where
  "tree_tids rs P h = (\<Union>run \<in> {run \<in> set rs. run_covers run h}. members (P run h))"

definition postings_nonempty :: "PgTreRun list \<Rightarrow> (PgTreRun \<Rightarrow> uint64 \<Rightarrow> sm option) \<Rightarrow> bool" where
  "postings_nonempty rs P \<longleftrightarrow> (\<forall>run \<in> set rs. \<forall>h. P run h \<noteq> Some {})"

definition run_step :: "scan_env \<Rightarrow> tre_index \<Rightarrow> uint64 \<Rightarrow> PgTreRun \<Rightarrow> sm option \<Rightarrow> sm option outcome" where
  "run_step env idx h run acc =
     (if run_covers run h
      then andThen (run_posting (sc_lib env) (sc_blcksz env) idx (run_root_upper run) h) (\<lambda>p. ret (or_into (sc_lib env) acc p))
      else ret acc)"

lemma union_runs_drain: "run_catalog_drain idx it = ret rs \<Longrightarrow> union_runs env idx h it acc = ofold (run_step env idx h) rs acc"
proof (induction rs arbitrary: it acc)
  case Nil
  obtain r it1 where n: "pg_tre_run_catalog_next idx it = ret (r, it1)"
    using Nil by (subst (asm) run_catalog_drain.simps) (auto simp: andThen_ret_iff)
  then have "r = None" using Nil by (subst (asm) run_catalog_drain.simps) (auto simp: andThen_ret_iff split: option.splits)
  then show ?case using n by (subst union_runs.simps) simp
next
  case (Cons run rs)
  obtain r it1 where n: "pg_tre_run_catalog_next idx it = ret (r, it1)"
    using Cons.prems by (subst (asm) run_catalog_drain.simps) (auto simp: andThen_ret_iff)
  then have r: "r = Some run" "run_catalog_drain idx it1 = ret rs"
    using Cons.prems by (subst (asm) run_catalog_drain.simps, auto simp: andThen_ret_iff split: option.splits)+
  have step: "andThen (run_posting (sc_lib env) (sc_blcksz env) idx (run_root_upper run) h) (\<lambda>p.
        case p of None \<Rightarrow> union_runs env idx h it1 acc
        | Some run_sm \<Rightarrow> union_runs env idx h it1 (case acc of None \<Rightarrow> Some run_sm | Some a \<Rightarrow> sm_union (sc_lib env) a run_sm))
      = andThen (run_posting (sc_lib env) (sc_blcksz env) idx (run_root_upper run) h)
          (\<lambda>p. ofold (run_step env idx h) rs (or_into (sc_lib env) acc p))"
    by (rule arg_cong[where f = "andThen _"]) (auto simp: fun_eq_iff or_into_def Cons.IH[OF r(2)] split: option.splits)
  have head: "ofold (run_step env idx h) (run # rs) acc =
      (if run_covers run h
       then andThen (run_posting (sc_lib env) (sc_blcksz env) idx (run_root_upper run) h)
              (\<lambda>p. ofold (run_step env idx h) rs (or_into (sc_lib env) acc p))
       else ofold (run_step env idx h) rs acc)"
    by (simp add: run_step_def andThen_assoc)
  have skip: "h < min_trigram_hash run \<or> max_trigram_hash run < h \<longleftrightarrow> \<not> run_covers run h" by (auto simp: run_covers_def)
  have "union_runs env idx h it acc =
      (if run_covers run h
       then andThen (run_posting (sc_lib env) (sc_blcksz env) idx (run_root_upper run) h) (\<lambda>p.
          case p of None \<Rightarrow> union_runs env idx h it1 acc
          | Some run_sm \<Rightarrow> union_runs env idx h it1 (case acc of None \<Rightarrow> Some run_sm | Some a \<Rightarrow> sm_union (sc_lib env) a run_sm))
       else union_runs env idx h it1 acc)"
    using n r(1) skip by (subst union_runs.simps) simp
  then show ?case unfolding step unfolding head Cons.IH[OF r(2)] .
qed

lemma run_fold_ret:
  assumes "alloc_ok (sc_lib env)" and "\<forall>run \<in> set rs. \<forall>h. run_covers run h \<longrightarrow> run_posting (sc_lib env) (sc_blcksz env) idx (run_root_upper run) h = ret (P run h)"
    and "ne \<longrightarrow> postings_nonempty rs P" and "sm_is ne acc S"
  shows "\<exists>m. ofold (run_step env idx h) rs acc = ret m \<and> sm_is ne m (S \<union> tree_tids rs P h)"
  using assms(2-4)
proof (induction rs arbitrary: acc S)
  case (Cons run rs)
  let ?acc = "if run_covers run h then or_into (sc_lib env) acc (P run h) else acc"
  let ?S = "if run_covers run h then S \<union> members (P run h) else S"
  have "sm_is ne (P run h) (members (P run h))" using Cons.prems(2) by (auto simp: sm_is_def postings_nonempty_def)
  then have "sm_is ne ?acc ?S" using sm_is_or_into[OF assms(1) Cons.prems(3)] Cons.prems(3) by simp
  moreover have "ne \<longrightarrow> postings_nonempty rs P" using Cons.prems(2) by (simp add: postings_nonempty_def)
  ultimately obtain m where m: "ofold (run_step env idx h) rs ?acc = ret m" "sm_is ne m (?S \<union> tree_tids rs P h)"
    using Cons.IH[of ?acc ?S] Cons.prems(1) by auto
  have "run_step env idx h run acc = ret ?acc" using Cons.prems(1) by (simp add: run_step_def)
  moreover have "?S \<union> tree_tids rs P h = S \<union> tree_tids (run # rs) P h" by (auto simp: tree_tids_def)
  ultimately show ?case using m by auto
qed (simp add: tree_tids_def)

lemma resolve_runs_ret:
  assumes "alloc_ok (sc_lib env)" and "runs_hold env idx rs P" and "ne \<longrightarrow> postings_nonempty rs P"
  shows "\<exists>m. resolve_runs env idx h = ret m \<and> sm_is ne m (tree_tids rs P h)"
proof -
  from assms(2) obtain it where it: "pg_tre_run_catalog_open idx = ret it" "run_catalog_drain idx it = ret rs"
    by (auto simp: runs_hold_def run_catalog_runs_def andThen_ret_iff)
  from run_fold_ret[of env rs idx P ne None "{}" h] assms show ?thesis
    by (simp add: resolve_runs_def it(1) union_runs_drain[OF it(2)] runs_hold_def)
qed

section \<open>The overlay\<close>

definition overlay_ok :: "PendingOverlay \<Rightarrow> bool" where
  "overlay_ok ov \<longleftrightarrow> distinct (map ov_hash ov)
     \<and> (\<forall>e \<in> set ov. tids_arr e \<noteq> [] \<and> (ov_tids e = None \<or> ov_tids e = Some (set (tids_arr e))))"

definition overlay_tids :: "PendingOverlay \<Rightarrow> uint64 \<Rightarrow> sm" where
  "overlay_tids ov h = (\<Union>e \<in> {e \<in> set ov. ov_hash e = h}. set (tids_arr e))"

lemma overlay_tids_simps [simp]:
  "overlay_tids [] h = {}"
  "overlay_tids (e # es) h = (if ov_hash e = h then set (tids_arr e) else {}) \<union> overlay_tids es h"
  by (auto simp: overlay_tids_def)

lemma overlay_tids_absent: "h \<notin> ov_hash ` set ov \<Longrightarrow> overlay_tids ov h = {}"
  by (auto simp: overlay_tids_def)

lemma overlay_lookup_ok:
  assumes "alloc_ok lib" and "overlay_ok ov" and "overlay_lookup lib ov h = (m, ov')"
  shows "sm_is True m (overlay_tids ov h) \<and> overlay_ok ov' \<and> overlay_tids ov' = overlay_tids ov \<and> map ov_hash ov' = map ov_hash ov"
  using assms(2,3)
proof (induction ov arbitrary: m ov')
  case (Cons e es)
  have nf: "\<not> build_fails lib ms" for ms using assms(1) by (simp add: alloc_ok_def)
  have es: "overlay_ok es" "ov_hash e \<notin> ov_hash ` set es" "tids_arr e \<noteq> []" "ov_tids e = None \<or> ov_tids e = Some (set (tids_arr e))"
    using Cons.prems(1) by (auto simp: overlay_ok_def)
  show ?case
  proof (cases "ov_hash e = h")
    case True
    then have ab: "overlay_tids es h = {}" using es(2) by (intro overlay_tids_absent) simp
    show ?thesis
    proof (cases "ov_tids e")
      case None
      then have r: "m = Some (set (tids_arr e))"
          "ov' = e\<lparr> tids_arr := sort (tids_arr e), ov_tids := Some (set (tids_arr e)) \<rparr> # es"
        using Cons.prems(2) True es(3) nf by (auto simp: Let_def)
      have "sort (tids_arr e) \<noteq> []" using es(3) by (metis length_sort length_0_conv)
      then show ?thesis using r ab True es Cons.prems(1) by (auto simp: sm_is_Some overlay_ok_def fun_eq_iff)
    next
      case (Some a)
      then show ?thesis using Cons.prems True ab es(3,4) by (auto simp: sm_is_Some)
    qed
  next
    case False
    then obtain es' where r: "overlay_lookup lib es h = (m, es')" "ov' = e # es'"
      using Cons.prems(2) by (auto split: prod.splits)
    from Cons.IH[OF es(1) r(1)] have ih: "sm_is True m (overlay_tids es h)" "overlay_ok es'" "overlay_tids es' = overlay_tids es" "map ov_hash es' = map ov_hash es" by auto
    then have "ov_hash ` set es' = ov_hash ` set es" by (metis set_map)
    then show ?thesis using False ih r(2) Cons.prems(1) es(2) by (auto simp: overlay_ok_def fun_eq_iff)
  qed
qed simp


text \<open>Collecting: the identifiers of the visited items, packed.\<close>

definition item_tids :: "nat \<Rightarrow> PgTreTidPacking \<Rightarrow> pending_item list \<Rightarrow> uint64 \<Rightarrow> sm" where
  "item_tids mt pk items h = {p. \<exists>tid pos. (h, tid, pos) \<in> set items \<and> pg_tre_pack_tid mt pk tid = Inr p}"

lemma item_tids_simps [simp]:
  "item_tids mt pk [] h = {}"
  "item_tids mt pk ((h', tid, pos) # items) h =
     (if h' = h then (case pg_tre_pack_tid mt pk tid of Inl e \<Rightarrow> {} | Inr p \<Rightarrow> {p}) else {}) \<union> item_tids mt pk items h"
  by (auto simp: item_tids_def split: sum.splits)

lemma item_tids_append [simp]: "item_tids mt pk (xs @ ys) h = item_tids mt pk xs h \<union> item_tids mt pk ys h"
  by (auto simp: item_tids_def)

text \<open>An overlay during collection: no map has been built, and no entry but a fresh one is empty.\<close>

definition overlay_raw :: "PendingOverlay \<Rightarrow> bool" where
  "overlay_raw ov \<longleftrightarrow> distinct (map ov_hash ov) \<and> (\<forall>e \<in> set ov. tids_arr e \<noteq> [] \<and> ov_tids e = None)"

lemma overlay_add_tid:
  assumes "overlay_raw ov" and "overlay_find_or_create ov h = (i, ov1)"
  shows "overlay_raw (ov1[i := (ov1 ! i)\<lparr> tids_arr := tids_arr (ov1 ! i) @ [p] \<rparr>])
    \<and> overlay_tids (ov1[i := (ov1 ! i)\<lparr> tids_arr := tids_arr (ov1 ! i) @ [p] \<rparr>]) h' = (if h' = h then {p} else {}) \<union> overlay_tids ov h'"
proof -
  define pre where "pre = takeWhile (\<lambda>e. ov_hash e \<noteq> h) ov"
  define post where "post = dropWhile (\<lambda>e. ov_hash e \<noteq> h) ov"
  have ov: "ov = pre @ post" "\<forall>e \<in> set pre. ov_hash e \<noteq> h" by (auto simp: pre_def post_def dest: set_takeWhileD)
  have i: "i = length pre" "ov1 = (if i < length ov then ov else ov @ [\<lparr> ov_hash = h, tids_arr = [], ov_tids = None \<rparr>])"
    using assms(2) by (auto simp: overlay_find_or_create_def Let_def pre_def)
  have tids_app: "overlay_tids (xs @ ys) k = overlay_tids xs k \<union> overlay_tids ys k" for xs ys k by (auto simp: overlay_tids_def)
  show ?thesis
  proof (cases post)
    case Nil
    then have "ov1[i := (ov1 ! i)\<lparr> tids_arr := tids_arr (ov1 ! i) @ [p] \<rparr>] = ov @ [\<lparr> ov_hash = h, tids_arr = [p], ov_tids = None \<rparr>]"
      using i ov(1) by simp
    moreover have "h \<notin> ov_hash ` set ov" using ov Nil by auto
    ultimately show ?thesis using assms(1) by (auto simp: overlay_raw_def tids_app)
  next
    case (Cons e es)
    then have e: "ov_hash e = h" using post_def by (metis (mono_tags, lifting) hd_dropWhile list.sel(1) list.distinct(1))
    have "ov1[i := (ov1 ! i)\<lparr> tids_arr := tids_arr (ov1 ! i) @ [p] \<rparr>] = pre @ e\<lparr> tids_arr := tids_arr e @ [p] \<rparr> # es"
      using i ov(1) Cons by simp
    then show ?thesis using assms(1) e unfolding ov(1) Cons by (auto simp: overlay_raw_def tids_app)
  qed
qed

lemma overlay_collect_ret:
  assumes "overlay_raw ov" and "\<forall>it \<in> set items. \<exists>p. pg_tre_pack_tid mt pk (fst (snd it)) = Inr p"
  shows "\<exists>ov'. ofold (\<lambda>(h, tid, pos). overlay_collect_cb mt pk q h tid pos) items ov = ret ov' \<and> overlay_raw ov'
    \<and> (\<forall>h. query_wants_trigram q h \<longrightarrow> overlay_tids ov' h = overlay_tids ov h \<union> item_tids mt pk items h)"
  using assms
proof (induction items arbitrary: ov)
  case (Cons it items)
  obtain h tid pos where it: "it = (h, tid, pos)" by (cases it)
  obtain p where p: "pg_tre_pack_tid mt pk tid = Inr p" using Cons.prems(2) it by auto
  show ?case
  proof (cases "query_wants_trigram q h")
    case True
    obtain i ov1 where f: "overlay_find_or_create ov h = (i, ov1)" by (cases "overlay_find_or_create ov h")
    let ?ov = "ov1[i := (ov1 ! i)\<lparr> tids_arr := tids_arr (ov1 ! i) @ [p] \<rparr>]"
    have step: "overlay_collect_cb mt pk q h tid pos ov = ret ?ov" using True f p by (simp add: overlay_collect_cb_def)
    note add = overlay_add_tid[OF Cons.prems(1) f, of p]
    from Cons.IH[of ?ov] add Cons.prems(2) obtain ov' where
      "ofold (\<lambda>(h, tid, pos). overlay_collect_cb mt pk q h tid pos) items ?ov = ret ov'" "overlay_raw ov'"
      "\<forall>h. query_wants_trigram q h \<longrightarrow> overlay_tids ov' h = overlay_tids ?ov h \<union> item_tids mt pk items h" by auto
    then show ?thesis using step it p add by auto
  next
    case False
    then have step: "overlay_collect_cb mt pk q h tid pos ov = ret ov" by (simp add: overlay_collect_cb_def)
    from Cons.IH[OF Cons.prems(1)] Cons.prems(2) obtain ov' where
      "ofold (\<lambda>(h, tid, pos). overlay_collect_cb mt pk q h tid pos) items ov = ret ov'" "overlay_raw ov'"
      "\<forall>h. query_wants_trigram q h \<longrightarrow> overlay_tids ov' h = overlay_tids ov h \<union> item_tids mt pk items h" by auto
    then show ?thesis using step it False by auto
  qed
qed simp


lemma unpack_packs: "mt < 65535 \<Longrightarrow> \<exists>p. pg_tre_pack_tid mt pk (pg_tre_unpack_tid mt pk w) = Inr p"
proof (cases pk)
  case PG_TRE_TID_DENSE
  assume mt: "mt < 65535"
  let ?s = "PG_TRE_DENSE_STRIDE mt"
  have s: "unat ?s = mt + 1" by (rule unat_stride[OF mt])
  have m: "unat (w mod ?s) < mt + 1" unfolding unat_mod_distrib s by simp
  have "unat (ucast (w mod ?s) :: uint16) = unat (w mod ?s)"
    using m mt by (simp add: unsigned_ucast_eq take_bit_nat_eq_self)
  then have "unat (ucast (ucast (w mod ?s) :: uint16) :: uint64) = unat (w mod ?s)" by (simp add: unat_ucast64)
  then have "\<not> ucast (ucast (w mod ?s) :: uint16) \<ge> ?s" using m s by (simp add: word_le_nat_alt)
  then show ?thesis using PG_TRE_TID_DENSE by (simp add: pg_tre_pack_tid_def pg_tre_unpack_tid_def Let_def)
qed (simp add: pg_tre_pack_tid_def)

lemma visit_items: "visit_entries mt pk cb es ctx = ofold (\<lambda>(h, tid, pos). cb h tid pos) (map (entry_item mt pk) es) ctx"
proof -
  have "visit_entries mt pk cb es = ofold (\<lambda>(h, tid, pos). cb h tid pos) (map (entry_item mt pk) es)"
    by (induction es; rule ext) (simp_all add: visit_entries_def entry_item_def)
  then show ?thesis by simp
qed

theorem overlay_build_ret:
  assumes "append_history blcksz view" and "\<And>j. n \<le> j \<Longrightarrow> view j = view n" and "pending_inv blcksz (view 0) bs" and "sc_max_tuples env < 65535"
  shows "\<exists>ov old since after. overlay_build env view q = ret ov \<and> overlay_ok ov
    \<and> pending_listing (sc_max_tuples env) (sc_packing env) (view 0) = ret old
    \<and> pending_listing (sc_max_tuples env) (sc_packing env) (view n) = ret (old @ since @ after)
    \<and> (\<forall>h. query_wants_trigram q h \<longrightarrow> overlay_tids ov h = item_tids (sc_max_tuples env) (sc_packing env) (old @ since) h)"
proof -
  let ?mt = "sc_max_tuples env" and ?pk = "sc_packing env"
  let ?cb = "overlay_collect_cb ?mt ?pk q" and ?f = "map (entry_item ?mt ?pk)"
  obtain es us vs bs' where r: "pending_inv blcksz (view n) bs'" "pg_tre_pending_scan ?mt ?pk view ?cb [] = visit_entries ?mt ?pk ?cb es []"
      "es = pend_items (pending_pages (view 0)) bs @ us" "pend_items (pending_pages (view n)) bs' = es @ vs"
    using scan_history[OF assms(1-3), of ?mt ?pk ?cb "[]"] by blast
  have "\<forall>it \<in> set (?f es). \<exists>p. pg_tre_pack_tid ?mt ?pk (fst (snd it)) = Inr p"
    using unpack_packs[OF assms(4)] by (auto simp: entry_item_def)
  from overlay_collect_ret[OF _ this, of "[]" q] obtain ov where ov: "overlay_build env view q = ret ov" "overlay_raw ov"
      "\<forall>h. query_wants_trigram q h \<longrightarrow> overlay_tids ov h = item_tids ?mt ?pk (?f es) h"
    unfolding overlay_build_def r(2) visit_items by (auto simp: overlay_raw_def)
  then have "overlay_ok ov" by (auto simp: overlay_raw_def overlay_ok_def)
  then show ?thesis
    using ov(1,3) r(3,4) listing_inv[OF assms(3), of ?mt ?pk] listing_inv[OF r(1), of ?mt ?pk]
    by (intro exI[of _ ov] exI[of _ "?f (pend_items (pending_pages (view 0)) bs)"] exI[of _ "?f us"] exI[of _ "?f vs"]) simp
qed

section \<open>The cache\<close>

definition crack_key :: "CrackCacheEntry \<Rightarrow> uint64 option" where
  "crack_key e = (if cc_used e then Some (cc_hash e) else None)"

lemma crack_probe_loop:
  assumes "length tab = 2 ^ n" and "n \<le> 31" and "i < length tab"
  shows "andThen (crack_probe tab h (word_of_nat i)) (\<lambda>s. ret (unat s)) =
    (if probe_stop crack_key tab h i then ret i
     else andThen (crack_probe tab h (word_of_nat ((i + 1) mod length tab))) (\<lambda>s. ret (unat s)))"
proof -
  note w = mask_step[OF assms]
  have stop: "probe_stop crack_key tab h i \<longleftrightarrow> \<not> cc_used (tab ! i) \<or> cc_hash (tab ! i) = h"
    by (auto simp: probe_stop_def crack_key_def)
  show ?thesis by (subst crack_probe.simps) (simp add: w stop Let_def)
qed

interpretation crack_table: probe_search crack_key seen_home pow2_cap crack_cache_slot
proof unfold_locales
  fix tab :: "CrackCacheEntry list" and h j
  assume cap: "pow2_cap (length tab)" and f: "first_stop crack_key tab h (seen_home (length tab) h) j"
  then obtain n where n: "length tab = 2 ^ n" "n \<le> 31" by (auto simp: pow2_cap_def)
  have "crack_cache_slot tab h = andThen (crack_probe tab h (word_of_nat (seen_home (length tab) h))) (\<lambda>s. ret (unat s))"
    unfolding crack_cache_slot_def using home_word[OF n(2), of h] n(1) by (metis word_of_unat32)
  also have "\<dots> = ret (probe_at (length tab) (seen_home (length tab) h) j)"
    using probe_loop[where loop = "\<lambda>i. andThen (crack_probe tab h (word_of_nat i)) (\<lambda>s. ret (unat s))"
        and stop = "probe_stop crack_key tab h" and cap = "length tab" and s = "seen_home (length tab) h" and j = j and m = 0,
        OF crack_probe_loop[OF n]] f n(1)
    by (simp add: first_stop_def seen_home_def probe_at_def)
  finally show "crack_cache_slot tab h = ret (probe_at (length tab) (seen_home (length tab) h) j)" .
qed


text \<open>
  The cache for the trigrams \<open>Q\<close>: what it holds is the union over the runs, and it always has
  an empty slot.
\<close>

definition cache_ok :: "bool \<Rightarrow> (uint64 \<Rightarrow> sm) \<Rightarrow> uint64 set \<Rightarrow> CrackCache \<Rightarrow> bool" where
  "cache_ok ne T Q cc \<longleftrightarrow> cc_slots cc = [] \<or>
     (pow2_cap (length (cc_slots cc)) \<and> probe_ok crack_key seen_home (cc_slots cc) \<and> finite Q \<and> card Q < length (cc_slots cc)
      \<and> (\<forall>k e. tab_get crack_key (cc_slots cc) k = Some e \<longrightarrow>
           k \<in> Q \<and> sm_is ne (cc_runs_sm e) (T k) \<and> (cc_present e \<longleftrightarrow> cc_runs_sm e \<noteq> None)))"

lemma crack_key_iff [simp]: "crack_key e = None \<longleftrightarrow> \<not> cc_used e" "crack_key e = Some k \<longleftrightarrow> cc_used e \<and> cc_hash e = k"
  by (auto simp: crack_key_def)

lemma resolve_trigram_ret:
  assumes "alloc_ok (sc_lib env)" and "runs_hold env idx rs P" and "ne \<longrightarrow> postings_nonempty rs P"
    and "cache_ok ne (tree_tids rs P) Q cc" and "h \<in> Q"
  shows "\<exists>m cc'. resolve_trigram_runs env idx h cc = ret (m, cc') \<and> sm_is ne m (tree_tids rs P h) \<and> cache_ok ne (tree_tids rs P) Q cc'"
proof -
  obtain u where u: "resolve_runs env idx h = ret u" "sm_is ne u (tree_tids rs P h)"
    using resolve_runs_ret[OF assms(1-3)] by blast
  show ?thesis
  proof (cases "cc_slots cc = []")
    case True
    then show ?thesis using u assms(4) by (simp add: resolve_trigram_runs_def)
  next
    case False
    let ?t = "cc_slots cc"
    have c: "pow2_cap (length ?t)" "probe_ok crack_key seen_home ?t" "finite Q" "card Q < length ?t"
        "\<And>k e. tab_get crack_key ?t k = Some e \<Longrightarrow> k \<in> Q \<and> sm_is ne (cc_runs_sm e) (tree_tids rs P k) \<and> (cc_present e \<longleftrightarrow> cc_runs_sm e \<noteq> None)"
      using assms(4) False by (auto simp: cache_ok_def)
    have "used_slots crack_key ?t \<le> card Q" using used_slots_card[OF c(2,3)] c(5) by blast
    then obtain i0 where i0: "i0 < length ?t" "crack_key (?t ! i0) = None" using used_slots_less[of crack_key ?t] c(4) by auto
    obtain i where i: "crack_cache_slot ?t h = ret i" "i < length ?t"
        "tab_get crack_key ?t h = (if crack_key (?t ! i) = None then None else Some (?t ! i))"
        "\<And>x. crack_key x = Some h \<Longrightarrow> probe_ok crack_key seen_home (?t[i := x])
          \<and> (\<forall>k'. tab_get crack_key (?t[i := x]) k' = (if k' = h then Some x else tab_get crack_key ?t k'))"
      by (rule crack_table.search_write[OF c(1,2) i0, of h]) blast
    show ?thesis
    proof (cases "cc_used (?t ! i)")
      case True
      then have e: "sm_is ne (cc_runs_sm (?t ! i)) (tree_tids rs P h)" "cc_present (?t ! i) \<longleftrightarrow> cc_runs_sm (?t ! i) \<noteq> None"
        using c(5)[of h "?t ! i"] i(3) by auto
      then show ?thesis using False True i(1) assms(4) sm_is_copy[OF assms(1)]
        by (cases "cc_runs_sm (?t ! i)") (auto simp: resolve_trigram_runs_def Let_def)
    next
      case new: False
      let ?e = "\<lparr> cc_hash = h, cc_used = True, cc_present = u \<noteq> None, cc_runs_sm = u \<rparr>"
      let ?cc = "\<lparr> cc_slots = ?t[i := ?e], cc_n = cc_n cc + 1 \<rparr>"
      have "crack_fill (sc_lib env) i h u cc = ?cc"
        using sm_is_copy[OF assms(1)] by (cases u) (simp_all add: crack_fill_def Let_def)
      then have r: "resolve_trigram_runs env idx h cc = ret (u, ?cc)"
        using False new i(1) u(1) by (simp add: resolve_trigram_runs_def Let_def)
      have "crack_key ?e = Some h" by simp
      from i(4)[OF this] have "cache_ok ne (tree_tids rs P) Q ?cc"
        using c u(2) assms(5) False unfolding cache_ok_def by auto
      then show ?thesis using r u(2) by blast
    qed
  qed
qed

lemma crack_capacity_ge: "0 < cap \<Longrightarrow> want \<le> crack_capacity want cap"
  by (induction want cap rule: crack_capacity.induct) (subst crack_capacity.simps, auto)

lemma crack_capacity_pow:
  "cap = 2 ^ k \<Longrightarrow> k \<le> n \<Longrightarrow> want \<le> 2 ^ n \<Longrightarrow> \<exists>j \<le> n. crack_capacity want cap = 2 ^ j"
proof (induction want cap arbitrary: k rule: crack_capacity.induct)
  case (1 want cap)
  show ?case
  proof (cases "want \<le> cap")
    case False
    then have "k < n" using 1(2-4) by (metis le_neq_implies_less)
    moreover have "2 * cap = 2 ^ Suc k" using 1(2) by simp
    ultimately obtain j where "j \<le> n" "crack_capacity want (2 * cap) = 2 ^ j" using 1(1)[of "Suc k"] 1(4) False by auto
    then show ?thesis using False 1(2) by (subst crack_capacity.simps) auto
  qed (use 1 in \<open>subst crack_capacity.simps, auto\<close>)
qed

text \<open>The hashes of a query.\<close>

definition query_hashes :: "TrigramQuery \<Rightarrow> uint64 set" where
  "query_hashes q = trigram_hash ` set (concat (conjuncts q))"

lemma query_wants_iff: "query_wants_trigram q h \<longleftrightarrow> h \<in> query_hashes q"
  by (auto simp: query_wants_trigram_def query_hashes_def list_ex_iff)

lemma cache_init_ok:
  assumes "length (concat (conjuncts q)) \<le> 2 ^ 30"
  shows "cache_ok ne T (query_hashes q) (crack_cache_init crack q)"
proof (cases "crack_cache_init crack q = \<lparr> cc_slots = [], cc_n = 0 \<rparr>")
  case False
  let ?n = "length (concat (conjuncts q))" and ?e = "\<lparr> cc_hash = 0, cc_used = False, cc_present = False, cc_runs_sm = None \<rparr>"
  let ?cap = "crack_capacity (?n * 2) 8"
  have i: "crack_cache_init crack q = \<lparr> cc_slots = replicate ?cap ?e, cc_n = 0 \<rparr>" "0 < ?n"
  proof -
    have n: "sum_list (map length (conjuncts q)) = ?n" by (simp only: length_concat)
    have on: "\<not> (\<not> crack \<or> conjuncts q = [] \<or> ?n = 0)" using False unfolding crack_cache_init_def Let_def n by argo
    then show "0 < ?n" by (simp only: neq0_conv de_Morgan_disj)
    show "crack_cache_init crack q = \<lparr> cc_slots = replicate ?cap ?e, cc_n = 0 \<rparr>" using on unfolding crack_cache_init_def Let_def n by argo
  qed
  obtain j where j: "j \<le> 31" "?cap = 2 ^ j" using crack_capacity_pow[of 8 3 31 "?n * 2"] assms by auto
  have "card (query_hashes q) \<le> ?n" unfolding query_hashes_def
    by (meson card_image_le card_length finite_set le_trans)
  then have "card (query_hashes q) < ?cap" using crack_capacity_ge[of 8 "?n * 2"] i(2) by linarith
  moreover have "tab_get crack_key (replicate ?cap ?e) k = None" for k by (simp add: tab_get_def find_None_iff)
  moreover have "probe_ok crack_key seen_home (replicate ?cap ?e)" by (rule probe_ok_empty) simp
  ultimately show ?thesis using j unfolding i(1) cache_ok_def pow2_cap_def by (auto simp: query_hashes_def)
qed (simp add: cache_ok_def)


section \<open>Conjuncts\<close>

text \<open>
  What the memory of a scan must satisfy: the overlay has the pending identifiers \<open>V h\<close> for the
  hashes of the query, the cache the identifiers \<open>T h\<close> of the trees.
\<close>

definition mem_ok :: "bool \<Rightarrow> (uint64 \<Rightarrow> sm) \<Rightarrow> (uint64 \<Rightarrow> sm) \<Rightarrow> uint64 set \<Rightarrow> scan_mem \<Rightarrow> bool" where
  "mem_ok ne T V Q mem \<longleftrightarrow> overlay_ok (fst mem) \<and> (\<forall>h \<in> Q. overlay_tids (fst mem) h = V h) \<and> cache_ok ne T Q (snd mem)"

lemma with_overlay_ok:
  assumes "alloc_ok lib" and "overlay_ok ov" and "sm_is ne m A" and "with_overlay lib ov h m = (m', ov')"
  shows "sm_is ne m' (A \<union> overlay_tids ov h) \<and> overlay_ok ov' \<and> overlay_tids ov' = overlay_tids ov"
proof -
  obtain pend ov1 where l: "overlay_lookup lib ov h = (pend, ov1)" by (cases "overlay_lookup lib ov h")
  note lk = overlay_lookup_ok[OF assms(1,2) l]
  then have pm: "sm_is ne pend (overlay_tids ov h)" by (simp add: sm_is_weak)
  have "m' = or_into lib m pend" "ov' = ov1"
    using assms(4) l sm_is_copy[OF assms(1)] by (auto simp: with_overlay_def or_into_def split: option.splits)
  then show ?thesis using sm_is_or_into[OF assms(1,3) pm] lk by auto
qed

lemma resolve_conjunct_ret:
  assumes "alloc_ok (sc_lib env)" and "runs_hold env idx rs P" and "ne \<longrightarrow> postings_nonempty rs P"
    and "mem_ok ne (tree_tids rs P) V Q mem" and "trigram_hash ` set c \<subseteq> Q" and "sm_is ne acc A"
  shows "\<exists>m mem'. resolve_conjunct_with_overlay env idx c acc mem = ret (m, mem') \<and> mem_ok ne (tree_tids rs P) V Q mem'
    \<and> sm_is ne m (A \<union> (\<Union>a \<in> set c. tree_tids rs P (trigram_hash a) \<union> V (trigram_hash a)))"
  using assms(4-6)
proof (induction c arbitrary: acc A mem)
  case (Cons a alts)
  let ?T = "tree_tids rs P" and ?h = "trigram_hash a"
  obtain ov cc where mem: "mem = (ov, cc)" by (cases mem)
  have ok: "overlay_ok ov" "\<forall>h \<in> Q. overlay_tids ov h = V h" "cache_ok ne ?T Q cc" "?h \<in> Q"
    using Cons.prems(1,2) mem by (auto simp: mem_ok_def)
  obtain m cc' where r: "resolve_trigram_runs env idx ?h cc = ret (m, cc')" "sm_is ne m (?T ?h)" "cache_ok ne ?T Q cc'"
    using resolve_trigram_ret[OF assms(1-3) ok(3,4)] by blast
  obtain m' ov' where w: "with_overlay (sc_lib env) ov ?h m = (m', ov')" by (cases "with_overlay (sc_lib env) ov ?h m")
  note wo = with_overlay_ok[OF assms(1) ok(1) r(2) w]
  then have "mem_ok ne ?T V Q (ov', cc')" using ok(2) r(3) by (simp add: mem_ok_def)
  moreover have "sm_is ne (or_into (sc_lib env) acc m') (A \<union> (?T ?h \<union> V ?h))"
    using sm_is_or_into[OF assms(1) Cons.prems(3)] wo ok(2,4) by simp
  ultimately obtain m2 mem2 where
    "resolve_conjunct_with_overlay env idx alts (or_into (sc_lib env) acc m') (ov', cc') = ret (m2, mem2)"
    "mem_ok ne ?T V Q mem2" "sm_is ne m2 (A \<union> (?T ?h \<union> V ?h) \<union> (\<Union>a \<in> set alts. ?T (trigram_hash a) \<union> V (trigram_hash a)))"
    using Cons.IH Cons.prems(2) by (metis (no_types, lifting) image_subset_iff list.set_intros(2))
  then show ?case using mem r(1) w by (simp add: Un_assoc)
qed simp

section \<open>Modes\<close>

text \<open>The identifiers a conjunct stands for, and those a piece stands for.\<close>

definition alt_tids :: "(uint64 \<Rightarrow> sm) \<Rightarrow> TrigramConjunct \<Rightarrow> sm" where
  "alt_tids S c = (\<Union>a \<in> set c. S (trigram_hash a))"

definition piece_tids :: "(uint64 \<Rightarrow> sm) \<Rightarrow> TrigramConjunct \<Rightarrow> sm" where
  "piece_tids S c = {t. \<forall>a \<in> set c. t \<in> S (trigram_hash a)}"

text \<open>One step of an intersection, for a result that is \<open>NULL\<close> before the first step.\<close>

lemma cnf_ret:
  assumes "alloc_ok (sc_lib env)" and "runs_hold env idx rs P"
    and "mem_ok False (tree_tids rs P) V Q mem" and "\<forall>c \<in> set cs. trigram_hash ` set c \<subseteq> Q"
  shows "\<exists>m. candidates_cnf env idx cs (Some a) mem = ret m
    \<and> members m = a \<inter> {t. \<forall>c \<in> set cs. t \<in> alt_tids (\<lambda>h. tree_tids rs P h \<union> V h) c}"
  using assms(3,4)
proof (induction cs arbitrary: a mem)
  case (Cons c cs)
  let ?S = "\<lambda>h. tree_tids rs P h \<union> V h"
  have cQ: "trigram_hash ` set c \<subseteq> Q" using Cons.prems(2) by simp
  obtain m mem' where r: "resolve_conjunct_with_overlay env idx c None mem = ret (m, mem')"
      "mem_ok False (tree_tids rs P) V Q mem'" "members m = alt_tids ?S c"
    using resolve_conjunct_ret[OF assms(1,2) _ Cons.prems(1) cQ, of None "{}"] by (auto simp: sm_is_def alt_tids_def)
  show ?case
  proof (cases m)
    case None
    then show ?thesis using r by (auto simp: alt_tids_def)
  next
    case (Some b)
    have i: "members (sm_intersection (sc_lib env) a b) = a \<inter> b" "sm_intersection (sc_lib env) a b \<noteq> Some {}"
      using sm_is_intersection[OF assms(1), of a b] by (auto simp: sm_is_def)
    show ?thesis
    proof (cases "sm_intersection (sc_lib env) a b")
      case None
      then show ?thesis using r i Some by auto
    next
      case (Some d)
      then have d: "d = a \<inter> b" "d \<noteq> {}" using i by auto
      obtain m2 where "candidates_cnf env idx cs (Some d) mem' = ret m2"
          "members m2 = d \<inter> {t. \<forall>c \<in> set cs. t \<in> alt_tids ?S c}" using Cons.IH[OF r(2), of d] Cons.prems(2) by auto
      then show ?thesis using r d Some \<open>m = Some b\<close> by auto
    qed
  qed
qed simp

lemma cnf_all_ret:
  assumes "alloc_ok (sc_lib env)" and "runs_hold env idx rs P"
    and "mem_ok False (tree_tids rs P) V Q mem" and "\<forall>c \<in> set cs. trigram_hash ` set c \<subseteq> Q" and "cs \<noteq> []"
  shows "\<exists>m. candidates_cnf env idx cs None mem = ret m
    \<and> members m = {t. \<forall>c \<in> set cs. t \<in> alt_tids (\<lambda>h. tree_tids rs P h \<union> V h) c}"
proof -
  let ?S = "\<lambda>h. tree_tids rs P h \<union> V h"
  obtain c cs' where cs: "cs = c # cs'" using assms(5) by (cases cs) auto
  have cQ: "trigram_hash ` set c \<subseteq> Q" using assms(4) cs by simp
  obtain m mem' where r: "resolve_conjunct_with_overlay env idx c None mem = ret (m, mem')"
      "mem_ok False (tree_tids rs P) V Q mem'" "members m = alt_tids ?S c"
    using resolve_conjunct_ret[OF assms(1,2) _ assms(3) cQ, of None "{}"] by (auto simp: sm_is_def alt_tids_def)
  show ?thesis
  proof (cases m)
    case None
    then show ?thesis using r cs by auto
  next
    case (Some b)
    then show ?thesis using r cs cnf_ret[OF assms(1,2) r(2), of cs' b] assms(4) by auto
  qed
qed


lemma piece_and_ret:
  assumes "alloc_ok (sc_lib env)" and "runs_hold env idx rs P" and "postings_nonempty rs P"
    and "mem_ok True (tree_tids rs P) V Q mem" and "trigram_hash ` set c \<subseteq> Q" and "a \<noteq> {}"
  shows "\<exists>m mem'. piece_and env idx c (Some a) mem = ret (m, mem') \<and> mem_ok True (tree_tids rs P) V Q mem'
    \<and> sm_is True m (a \<inter> piece_tids (\<lambda>h. tree_tids rs P h \<union> V h) c)"
  using assms(4-6)
proof (induction c arbitrary: a mem)
  case Nil
  then show ?case by (simp add: piece_tids_def sm_is_Some)
next
  case (Cons x alts)
  let ?S = "\<lambda>h. tree_tids rs P h \<union> V h"
  have xQ: "trigram_hash ` set [x] \<subseteq> Q" using Cons.prems(2) by simp
  obtain m mem' where r: "resolve_conjunct_with_overlay env idx [x] None mem = ret (m, mem')"
      "mem_ok True (tree_tids rs P) V Q mem'" "sm_is True m (?S (trigram_hash x))"
    using resolve_conjunct_ret[OF assms(1,2) _ Cons.prems(1) xQ, of None "{}"] assms(3) by auto
  show ?case
  proof (cases m)
    case None
    then show ?thesis using r by (auto simp: piece_tids_def)
  next
    case (Some b)
    then have b: "b = ?S (trigram_hash x)" using r(3) by (simp add: sm_is_Some)
    note i = sm_is_intersection[OF assms(1), of a b]
    show ?thesis
    proof (cases "sm_intersection (sc_lib env) a b")
      case None
      then show ?thesis using r i Some b by (auto simp: piece_tids_def)
    next
      case (Some d)
      then have d: "d = a \<inter> b" "d \<noteq> {}" using i by (auto simp: sm_is_Some)
      have "a \<inter> piece_tids ?S (x # alts) = d \<inter> piece_tids ?S alts" using d(1) b by (auto simp: piece_tids_def)
      then show ?thesis using r d Some \<open>m = Some b\<close> Cons.IH[OF r(2), of d] Cons.prems(2) by auto
    qed
  qed
qed

lemma piece_ret:
  assumes "alloc_ok (sc_lib env)" and "runs_hold env idx rs P" and "postings_nonempty rs P"
    and "mem_ok True (tree_tids rs P) V Q mem" and "trigram_hash ` set c \<subseteq> Q" and "c \<noteq> []"
  shows "\<exists>m mem'. piece_and env idx c None mem = ret (m, mem') \<and> mem_ok True (tree_tids rs P) V Q mem'
    \<and> sm_is True m (piece_tids (\<lambda>h. tree_tids rs P h \<union> V h) c)"
proof -
  let ?S = "\<lambda>h. tree_tids rs P h \<union> V h"
  obtain x alts where c: "c = x # alts" using assms(6) by (cases c) auto
  have xQ: "trigram_hash ` set [x] \<subseteq> Q" using assms(5) c by simp
  obtain m mem' where r: "resolve_conjunct_with_overlay env idx [x] None mem = ret (m, mem')"
      "mem_ok True (tree_tids rs P) V Q mem'" "sm_is True m (?S (trigram_hash x))"
    using resolve_conjunct_ret[OF assms(1,2) _ assms(4) xQ, of None "{}"] assms(3) by auto
  show ?thesis
  proof (cases m)
    case None
    then show ?thesis using r c by (auto simp: piece_tids_def)
  next
    case (Some b)
    then have b: "b = ?S (trigram_hash x)" "b \<noteq> {}" using r(3) by (auto simp: sm_is_Some)
    have "piece_tids ?S c = b \<inter> piece_tids ?S alts" using b(1) c by (auto simp: piece_tids_def)
    then show ?thesis using r Some c piece_and_ret[OF assms(1-3) r(2) _ b(2), of alts] assms(5) by auto
  qed
qed

lemma pieces_ret:
  assumes "alloc_ok (sc_lib env)" and "runs_hold env idx rs P" and "postings_nonempty rs P"
    and "mem_ok True (tree_tids rs P) V Q mem" and "\<forall>c \<in> set cs. c \<noteq> [] \<and> trigram_hash ` set c \<subseteq> Q" and "sm_is True acc A"
  shows "\<exists>m. candidates_pieces env idx cs acc mem = ret m
    \<and> members m = A \<union> (\<Union>c \<in> set cs. piece_tids (\<lambda>h. tree_tids rs P h \<union> V h) c)"
  using assms(4-6)
proof (induction cs arbitrary: acc A mem)
  case Nil
  then show ?case by (simp add: sm_is_def)
next
  case (Cons c cs)
  let ?S = "\<lambda>h. tree_tids rs P h \<union> V h"
  obtain m mem' where r: "piece_and env idx c None mem = ret (m, mem')" "mem_ok True (tree_tids rs P) V Q mem'"
      "sm_is True m (piece_tids ?S c)"
    using piece_ret[OF assms(1-3) Cons.prems(1), of c] Cons.prems(2) by auto
  note acc' = sm_is_or_into[OF assms(1) Cons.prems(3) r(3)]
  have "or_into (sc_lib env) acc m \<noteq> None" if "m = Some b" for b
    using r(3) Cons.prems(3) that assms(1)
    by (auto simp: or_into_def sm_is_def sm_union_def alloc_ok_def split: option.splits)
  then have step: "candidates_pieces env idx (c # cs) acc mem = candidates_pieces env idx cs (or_into (sc_lib env) acc m) mem'"
    using r(1) by (auto simp: or_into_def split: option.splits)
  show ?case unfolding step using Cons.IH[OF r(2) _ acc'] Cons.prems(2) by (auto simp: Un_assoc)
qed

lemma dnf_ret:
  assumes "alloc_ok (sc_lib env)" and "magic (meta_page idx) = PG_TRE_META_MAGIC"
    and "\<forall>h. run_posting (sc_lib env) (sc_blcksz env) idx (root_upper (meta_page idx)) h = ret (B h)"
    and "overlay_ok ov" and "sm_is False acc A"
  shows "\<exists>m. candidates_dnf env idx alts acc ov = ret m
    \<and> members m = A \<union> alt_tids (\<lambda>h. members (B h) \<union> overlay_tids ov h) alts"
  using assms(4,5)
proof (induction alts arbitrary: acc A ov)
  case Nil
  then show ?case by (simp add: alt_tids_def sm_is_def)
next
  case (Cons a alts)
  let ?h = "trigram_hash a"
  have rd: "pg_tre_meta_read idx = ret (normalize_meta (meta_page idx))" by (rule meta_read_ret[OF assms(2)])
  have rt: "root_upper (normalize_meta (meta_page idx)) = root_upper (meta_page idx)"
    by (simp add: normalize_meta_def normalize_runs_def Let_def)
  have "andThen (pg_tre_upper_lookup (sc_blcksz env) idx ?h) (\<lambda>r. case r of None \<Rightarrow> ret None
      | Some ref \<Rightarrow> pg_tre_posting_materialize (sc_lib env) (sc_blcksz env) idx (ref_root ref) (ref_inline ref) (ref_bytes ref)) = ret (B ?h)"
    using assms(3) rd rt by (simp add: pg_tre_upper_lookup_def run_posting_def)
  moreover obtain m' ov' where w: "with_overlay (sc_lib env) ov ?h (B ?h) = (m', ov')" by (cases "with_overlay (sc_lib env) ov ?h (B ?h)")
  moreover have "sm_is False (B ?h) (members (B ?h))" by (simp add: sm_is_def)
  note wo = with_overlay_ok[OF assms(1) Cons.prems(1) this w]
  note acc' = sm_is_or_into[OF assms(1) Cons.prems(2) conjunct1[OF wo]]
  ultimately show ?case using Cons.IH[OF _ acc', of ov'] wo by (auto simp: alt_tids_def Un_assoc)
qed

section \<open>The candidates\<close>

text \<open>
  A scan whose pending entries end at some point: the candidates of a query in CNF or in pieces
  are the identifiers that the query accepts on what the trees and the pending list hold of them.
\<close>

definition query_wf :: "TrigramQuery \<Rightarrow> bool" where
  "query_wf q \<longleftrightarrow> length (concat (conjuncts q)) \<le> 2 ^ 29 \<and> (mode q = TRIGRAM_QUERY_CNF \<longrightarrow> conjuncts q \<noteq> [])
     \<and> (mode q = TRIGRAM_QUERY_PIECES \<longrightarrow> [] \<notin> set (conjuncts q))"

theorem candidates_ret:
  assumes "alloc_ok (sc_lib env)" and "runs_hold env idx rs P" and "mode q = TRIGRAM_QUERY_PIECES \<longrightarrow> postings_nonempty rs P"
    and "mode q \<noteq> TRIGRAM_QUERY_DNF" and "query_wf q" and "\<not> always_true q"
    and "append_history blcksz view" and "\<And>j. n \<le> j \<Longrightarrow> view j = view n" and "pending_inv blcksz (view 0) bs" and "sc_max_tuples env < 65535"
  shows "\<exists>m old since after. tre_compute_candidate_sm env view idx q = ret (False, m)
    \<and> pending_listing (sc_max_tuples env) (sc_packing env) (view 0) = ret old
    \<and> pending_listing (sc_max_tuples env) (sc_packing env) (view n) = ret (old @ since @ after)
    \<and> members m = {t. tq_accepts q {h. t \<in> tree_tids rs P h \<union> item_tids (sc_max_tuples env) (sc_packing env) (old @ since) h}}"
proof -
  obtain ov old since after where o: "overlay_build env view q = ret ov" "overlay_ok ov"
      "pending_listing (sc_max_tuples env) (sc_packing env) (view 0) = ret old"
      "pending_listing (sc_max_tuples env) (sc_packing env) (view n) = ret (old @ since @ after)"
      "\<forall>h. query_wants_trigram q h \<longrightarrow> overlay_tids ov h = item_tids (sc_max_tuples env) (sc_packing env) (old @ since) h"
    using overlay_build_ret[OF assms(7-10), of q] by blast
  define V where "V = item_tids (sc_max_tuples env) (sc_packing env) (old @ since)"
  let ?cc = "crack_cache_init (sc_crack_on_read env) q"
  have mem: "mem_ok ne (tree_tids rs P) V (query_hashes q) (ov, ?cc)" for ne
    using o(2,5) cache_init_ok[of q ne "tree_tids rs P"] assms(5) by (simp add: mem_ok_def query_wants_iff V_def query_wf_def)
  have Q: "\<forall>c \<in> set (conjuncts q). trigram_hash ` set c \<subseteq> query_hashes q" by (auto simp: query_hashes_def)
  have "\<exists>m. tre_compute_candidate_sm env view idx q = ret (False, m)
      \<and> members m = {t. tq_accepts q {h. t \<in> tree_tids rs P h \<union> V h}}"
  proof (cases "mode q")
    case TRIGRAM_QUERY_CNF
    then show ?thesis using cnf_all_ret[OF assms(1,2) mem Q] assms(5,6) o(1)
      by (auto simp: tre_compute_candidate_sm_def query_wf_def tq_accepts_def alt_tids_def)
  next
    case TRIGRAM_QUERY_PIECES
    then have "\<forall>c \<in> set (conjuncts q). c \<noteq> [] \<and> trigram_hash ` set c \<subseteq> query_hashes q" using Q assms(5) by (auto simp: query_wf_def)
    from pieces_ret[OF assms(1,2) _ mem this, of None "{}"] TRIGRAM_QUERY_PIECES assms(3)
    obtain m where m: "candidates_pieces env idx (conjuncts q) None (ov, ?cc) = ret m"
        "members m = (\<Union>c \<in> set (conjuncts q). piece_tids (\<lambda>h. tree_tids rs P h \<union> V h) c)" by auto
    have "members m = {t. tq_accepts q {h. t \<in> tree_tids rs P h \<union> V h}}"
      using TRIGRAM_QUERY_PIECES assms(6) unfolding m(2) tq_accepts_def piece_tids_def by (simp, blast)
    then show ?thesis using m(1) TRIGRAM_QUERY_PIECES assms(6) o(1) by (simp add: tre_compute_candidate_sm_def)
  qed (use assms(4) in simp)
  then show ?thesis using o(3,4) unfolding V_def by blast
qed

end
