(* ===== verification/Tokenizer.thy ===== *)
theory Tokenizer
  imports Char_Stream
begin

text \<open>
  \<open>src/query/tokens.c\<close>: the tokenizer of patterns, whose reading of a character depends on where
  it stands: in a bracket expression, in braces, or outside both.

  \<open>ch\<close> and \<open>bt\<close> are the code of an ASCII character as a decoded character and as a byte. The
  pattern is a list of bytes in the database encoding; the tokenizer decodes characters but
  looks ahead at bytes, as the code does. \<open>isdigit\<close> and its kin are those of ASCII.
\<close>

abbreviation ch :: "char \<Rightarrow> int" where
  "ch c \<equiv> of_char c"

abbreviation bt :: "char \<Rightarrow> uint8" where
  "bt c \<equiv> of_char c"

datatype token =
    TOK_PIPE | TOK_STAR | TOK_PLUS | TOK_QUESTION | TOK_LBRACE | TOK_APPROX (tok_approx: int) | TOK_INT (tok_int: int) | TOK_RBRACE | TOK_COMMA
  | TOK_LPAREN | TOK_RPAREN | TOK_LITERAL (tok_cp: int) | TOK_DOT | TOK_ANCHOR_START | TOK_ANCHOR_END
  | TOK_LBRACKET | TOK_RBRACKET (tok_opaque: bool) | TOK_CARET | TOK_DASH

datatype TokenizerMode = MODE_NORMAL | MODE_BRACKET | MODE_BRACE | MODE_BRACE_APPROX

text \<open>The state of the tokenizer, and the flag of the parse context that it sets.\<close>

record TokenizerState =
  ts_input :: "uint8 list"
  ts_pos :: nat
  ts_mode :: TokenizerMode
  bracket_depth :: int
  brace_depth :: int
  bracket_first :: int
  bracket_opaque :: bool
  ts_pending :: "token option"
  force_always_true :: bool

datatype token_error =
    Undecodable_character nat
  | Unterminated_class
  | End_after_backslash
  | Expected_digit
  | Unexpected_in_braces int
  | Unterminated_lookaround
  | Count_wrapped

text \<open>What a call returns: a token, the end of the pattern, or an error.\<close>

datatype token_result = Tok token | Tok_eof | Tok_error token_error

definition init_tokenizer :: "uint8 list \<Rightarrow> TokenizerState" where
  "init_tokenizer pattern = \<lparr> ts_input = pattern, ts_pos = 0, ts_mode = MODE_NORMAL, bracket_depth = 0, brace_depth = 0,
     bracket_first = - 1, bracket_opaque = False, ts_pending = None, force_always_true = False \<rparr>"

text \<open>Whether a byte stands at a position.\<close>

definition byte_at :: "TokenizerState \<Rightarrow> nat \<Rightarrow> uint8 \<Rightarrow> bool" where
  "byte_at ts p b \<longleftrightarrow> p < length (ts_input ts) \<and> ts_input ts ! p = b"

section \<open>Helpers\<close>

definition skip_lazy :: "TokenizerState \<Rightarrow> TokenizerState" where
  "skip_lazy ts = (if byte_at ts (ts_pos ts) (bt CHR ''?'') then ts\<lparr> ts_pos := ts_pos ts + 1 \<rparr> else ts)"

text \<open>The position of \<open>delim]\<close> from \<open>p\<close> on, or the first position without two bytes left.\<close>

function find_close :: "uint8 list \<Rightarrow> uint8 \<Rightarrow> nat \<Rightarrow> nat" where
  "find_close s delim p =
     (if p + 1 < length s \<and> \<not> (s ! p = delim \<and> s ! (p + 1) = bt CHR '']'') then find_close s delim (p + 1) else p)"
  by pat_completeness auto
termination
  by (relation "measure (\<lambda>(s, delim, p). length s - p)") auto

declare find_close.simps [simp del]

lemma find_close_ge: "p \<le> find_close s delim p"
  by (induction s delim p rule: find_close.induct) (subst find_close.simps, auto)

text \<open>From just inside a group to just behind the parenthesis that closes it; \<open>None\<close> if none does.\<close>

function skip_group :: "uint8 list \<Rightarrow> nat \<Rightarrow> nat \<Rightarrow> bool \<Rightarrow> nat option" where
  "skip_group s p depth in_bracket =
     (if p < length s
      then
        let c = s ! p; q = p + 1
        in if c = bt CHR 0x5C then skip_group s (if q < length s then q + 1 else q) depth in_bracket
           else if in_bracket
           then (if c = bt CHR ''['' \<and> q < length s \<and> (s ! q = bt CHR '':'' \<or> s ! q = bt CHR ''='' \<or> s ! q = bt CHR ''.'')
                 then skip_group s (find_close s (s ! q) (q + 1) + 2) depth True
                 else skip_group s q depth (c \<noteq> bt CHR '']''))
           else if c = bt CHR ''[''
           then (let q1 = (if q < length s \<and> s ! q = bt CHR ''^'' then q + 1 else q);
                     q2 = (if q1 < length s \<and> s ! q1 = bt CHR '']'' then q1 + 1 else q1)
                 in skip_group s q2 depth True)
           else if c = bt CHR ''('' then skip_group s q (depth + 1) False
           else if c = bt CHR '')'' then (if depth - 1 = 0 then Some q else skip_group s q (depth - 1) False)
           else skip_group s q depth False
      else None)"
  by pat_completeness auto
termination
proof (relation "measure (\<lambda>(s, p, depth, in_bracket). length s - p)", goal_cases)
  case (3 s p depth in_bracket x xa)
  then show ?case using find_close_ge[of "xa + 1" s "s ! xa"] by auto
qed (auto simp: Let_def)

declare skip_group.simps [simp del]

definition next_char :: "encoding \<Rightarrow> TokenizerState \<Rightarrow> (int \<times> TokenizerState) outcome" where
  "next_char enc ts =
     (if ts_pos ts \<ge> length (ts_input ts) then ret (- 1, ts)
      else andThen (pg_tre_cpstream_next enc (pg_tre_cpstream_init (drop (ts_pos ts) (ts_input ts)))) (\<lambda>(cp, s).
        ret (cp, if cp \<ge> 0 then ts\<lparr> ts_pos := ts_pos ts + src_pos s \<rparr> else ts)))"

definition peek_char :: "encoding \<Rightarrow> TokenizerState \<Rightarrow> int outcome" where
  "peek_char enc ts =
     (if ts_pos ts \<ge> length (ts_input ts) then ret (- 1)
      else andThen (pg_tre_cpstream_next enc (pg_tre_cpstream_init (drop (ts_pos ts) (ts_input ts)))) (\<lambda>(cp, s). ret cp))"

definition isdigit :: "int \<Rightarrow> bool" where
  "isdigit c \<longleftrightarrow> ch CHR ''0'' \<le> c \<and> c \<le> ch CHR ''9''"

definition isalnum :: "int \<Rightarrow> bool" where
  "isalnum c \<longleftrightarrow> isdigit c \<or> ch CHR ''A'' \<le> c \<and> c \<le> ch CHR ''Z'' \<or> ch CHR ''a'' \<le> c \<and> c \<le> ch CHR ''z''"

definition isxdigit :: "uint8 \<Rightarrow> bool" where
  "isxdigit b \<longleftrightarrow> bt CHR ''0'' \<le> b \<and> b \<le> bt CHR ''9'' \<or> bt CHR ''A'' \<le> b \<and> b \<le> bt CHR ''F'' \<or> bt CHR ''a'' \<le> b \<and> b \<le> bt CHR ''f''"

section \<open>Escapes and numbers\<close>

text \<open>The values of \<open>parse_escape\<close>: a character, a class shorthand, an escape not interpreted.\<close>

datatype escape = Esc_char int | Esc_class | Esc_opaque

text \<open>Characters that stand for themselves after a backslash.\<close>

definition escaped_literals :: "int list" where
  "escaped_literals = map ch (CHR 0x5C # ''.[](){}|*+?^$-'')"

definition escaped_punctuation :: "int list" where
  "escaped_punctuation = map ch (CHR 0x27 # CHR 0x22 # CHR 0x60 # '' #&,:;=@_~!%/'')"

definition parse_escape :: "encoding \<Rightarrow> TokenizerState \<Rightarrow> (token_error + escape \<times> TokenizerState) outcome" where
  "parse_escape enc ts =
     andThen (next_char enc ts) (\<lambda>(c, ts1).
       if c = ch CHR ''n'' then ret (Inr (Esc_char 10, ts1))
       else if c = ch CHR ''t'' then ret (Inr (Esc_char 9, ts1))
       else if c = ch CHR ''r'' then ret (Inr (Esc_char 13, ts1))
       else if c \<in> set escaped_literals then ret (Inr (Esc_char c, ts1))
       else if c \<in> set (map ch ''dDwWsS'') then ret (Inr (Esc_class, ts1))
       else if c = - 1 then ret (Inl End_after_backslash)
       else if c \<in> set escaped_punctuation then ret (Inr (Esc_char c, ts1))
       else if c \<in> set (map ch ''<>'') then ret (Inr (Esc_opaque, ts1))
       else if c \<ge> 0 \<and> c < 128 \<and> isalnum c
       then ret (Inr (Esc_opaque,
              if c \<in> set (map ch ''xuU0'')
              then ts1\<lparr> ts_pos := ts_pos ts1
                     + length (takeWhile (\<lambda>b. isxdigit b \<or> b = bt CHR ''{'' \<or> b = bt CHR ''}'') (drop (ts_pos ts1) (ts_input ts1))) \<rparr>
              else ts1))
       else ret (Inr (Esc_char c, ts1)))"

text \<open>The value is an \<open>int\<close> of 32 bits that wraps around.\<close>

partial_function (option) parse_digits :: "encoding \<Rightarrow> TokenizerState \<Rightarrow> uint32 \<Rightarrow> bool \<Rightarrow> (uint32 \<times> bool \<times> TokenizerState) outcome" where
  "parse_digits enc ts val got_digit =
     andThen (peek_char enc ts) (\<lambda>c.
       if c \<noteq> - 1 \<and> isdigit c
       then andThen (next_char enc ts) (\<lambda>(c', ts1). parse_digits enc ts1 (val * 10 + (word_of_int c - word_of_int (ch CHR ''0''))) True)
       else ret (val, got_digit, ts))"

definition parse_integer :: "encoding \<Rightarrow> TokenizerState \<Rightarrow> (token_error + int \<times> TokenizerState) outcome" where
  "parse_integer enc ts =
     andThen (parse_digits enc ts 0 False) (\<lambda>(val, got_digit, ts1).
       if \<not> got_digit then ret (Inl Expected_digit) else ret (Inr (sint val, ts1)))"

section \<open>The next token\<close>

text \<open>A character in a bracket expression; \<open>c\<close> has been read and the position is behind it.\<close>

definition at_bracket_first :: "TokenizerState \<Rightarrow> bool" where
  "at_bracket_first ts \<longleftrightarrow> bracket_first ts \<ge> 0 \<and> int (ts_pos ts) - 1 = bracket_first ts"

definition token_in_bracket :: "encoding \<Rightarrow> int \<Rightarrow> TokenizerState \<Rightarrow> (token_result \<times> TokenizerState) outcome" where
  "token_in_bracket enc c ts =
     (if c = ch CHR '']'' \<and> at_bracket_first ts
      then ret (Tok (TOK_LITERAL (ch CHR '']'')), ts\<lparr> bracket_first := - 1 \<rparr>)
      else if c = ch CHR '']''
      then let d = bracket_depth ts - 1
           in ret (Tok (TOK_RBRACKET (bracket_opaque ts)),
                ts\<lparr> bracket_depth := d, ts_mode := (if d = 0 then MODE_NORMAL else ts_mode ts), bracket_opaque := False \<rparr>)
      else if c = ch CHR ''-''
      then (if at_bracket_first ts \<or> byte_at ts (ts_pos ts) (bt CHR '']'') then ret (Tok (TOK_LITERAL (ch CHR ''-'')), ts)
            else ret (Tok TOK_DASH, ts))
      else if c = ch CHR ''^''
      then ret (Tok TOK_CARET, if at_bracket_first ts then ts\<lparr> bracket_first := int (ts_pos ts) \<rparr> else ts)
      else if c = ch CHR ''['' \<and> (\<exists>b \<in> set (map bt '':=.''). byte_at ts (ts_pos ts) b)
      then let e = find_close (ts_input ts) (ts_input ts ! ts_pos ts) (ts_pos ts + 1)
           in if e + 1 \<ge> length (ts_input ts) then ret (Tok_error Unterminated_class, ts)
              else ret (Tok (TOK_LITERAL 0), ts\<lparr> ts_pos := e + 2, bracket_opaque := True \<rparr>)
      else if c = ch CHR 0x5C
      then andThen (parse_escape enc ts) (\<lambda>r.
             case r of
               Inl e \<Rightarrow> ret (Tok_error e, ts)
             | Inr (esc, ts1) \<Rightarrow> ret (Tok (TOK_LITERAL 0), ts1\<lparr> bracket_opaque := True \<rparr>))
      else ret (Tok (TOK_LITERAL c), ts))"

definition token_of_integer :: "(int \<Rightarrow> token) \<Rightarrow> TokenizerState \<Rightarrow> (token_error + int \<times> TokenizerState) outcome \<Rightarrow> (token_result \<times> TokenizerState) outcome" where
  "token_of_integer mk ts m =
     andThen m (\<lambda>r.
       case r of
         Inl e \<Rightarrow> ret (Tok_error e, ts)
       | Inr (v, ts1) \<Rightarrow> ret (if v < 0 then Tok_error Count_wrapped else Tok (mk v), ts1))"

definition token_in_brace :: "encoding \<Rightarrow> int \<Rightarrow> TokenizerState \<Rightarrow> (token_result \<times> TokenizerState) outcome" where
  "token_in_brace enc c ts =
     (if c = ch CHR ''}''
      then let d = brace_depth ts - 1; ts1 = ts\<lparr> brace_depth := d \<rparr>
           in ret (Tok TOK_RBRACE, if d = 0 then skip_lazy (ts1\<lparr> ts_mode := MODE_NORMAL \<rparr>) else ts1)
      else if c = ch CHR '','' then ret (Tok TOK_COMMA, ts)
      else if c = ch CHR ''~'' \<and> ts_mode ts = MODE_BRACE
      then let ts1 = ts\<lparr> ts_mode := MODE_BRACE_APPROX \<rparr> in token_of_integer TOK_APPROX ts1 (parse_integer enc ts1)
      else if isdigit c
      then token_of_integer TOK_INT ts (parse_integer enc (ts\<lparr> ts_pos := ts_pos ts - 1 \<rparr>))
      else ret (Tok_error (Unexpected_in_braces c), ts))"

text \<open>A pattern whose matches the tokenizer cannot describe is left unindexed: one wildcard, and the end.\<close>

definition give_up_pattern :: "TokenizerState \<Rightarrow> token_result \<times> TokenizerState" where
  "give_up_pattern ts = (Tok TOK_DOT, ts\<lparr> force_always_true := True, ts_pos := length (ts_input ts) \<rparr>)"

definition token_paren :: "TokenizerState \<Rightarrow> token_result \<times> TokenizerState" where
  "token_paren ts =
     (let p = ts_pos ts; g = (\<lambda>i c. byte_at ts (p + 1 + i) (bt c))
      in if byte_at ts p (bt CHR ''?'')
         then (if g 0 CHR '':'' then (Tok TOK_LPAREN, ts\<lparr> ts_pos := p + 2 \<rparr>)
               else if g 0 CHR ''='' \<or> g 0 CHR ''!'' \<or> g 0 CHR ''<'' \<and> (g 1 CHR ''='' \<or> g 1 CHR ''!'')
               then (case skip_group (ts_input ts) (p + (if g 0 CHR ''<'' then 3 else 2)) 1 False of
                       None \<Rightarrow> (Tok_error Unterminated_lookaround, ts)
                     | Some q \<Rightarrow> (Tok TOK_DOT, ts\<lparr> ts_pos := q, ts_pending := Some TOK_QUESTION \<rparr>))
               else give_up_pattern ts)
         else (Tok TOK_LPAREN, ts))"

definition token_normal :: "encoding \<Rightarrow> int \<Rightarrow> TokenizerState \<Rightarrow> (token_result \<times> TokenizerState) outcome" where
  "token_normal enc c ts =
     (if c = ch CHR ''|'' then ret (Tok TOK_PIPE, ts)
      else if c = ch CHR ''*'' then ret (Tok TOK_STAR, skip_lazy ts)
      else if c = ch CHR ''+'' then ret (Tok TOK_PLUS, skip_lazy ts)
      else if c = ch CHR ''?'' then ret (Tok TOK_QUESTION, skip_lazy ts)
      else if c = ch CHR ''('' then ret (token_paren ts)
      else if c = ch CHR '')'' then ret (Tok TOK_RPAREN, ts)
      else if c = ch CHR ''.'' then ret (Tok TOK_DOT, ts)
      else if c = ch CHR ''^'' then ret (Tok TOK_ANCHOR_START, ts)
      else if c = ch CHR ''$'' then ret (Tok TOK_ANCHOR_END, ts)
      else if c = ch CHR ''[''
      then ret (Tok TOK_LBRACKET, ts\<lparr> bracket_depth := bracket_depth ts + 1, ts_mode := MODE_BRACKET, bracket_first := int (ts_pos ts) \<rparr>)
      else if c = ch CHR ''{'' then ret (Tok TOK_LBRACE, ts\<lparr> brace_depth := brace_depth ts + 1, ts_mode := MODE_BRACE \<rparr>)
      else if c = ch CHR 0x5C
      then andThen (parse_escape enc ts) (\<lambda>r.
             case r of
               Inl e \<Rightarrow> ret (Tok_error e, ts)
             | Inr (Esc_class, ts1) \<Rightarrow> ret (Tok TOK_DOT, ts1)
             | Inr (Esc_opaque, ts1) \<Rightarrow> ret (give_up_pattern ts1)
             | Inr (Esc_char cp, ts1) \<Rightarrow> ret (Tok (TOK_LITERAL cp), ts1))
      else ret (Tok (TOK_LITERAL c), ts))"

definition tre_tokenize_next :: "encoding \<Rightarrow> TokenizerState \<Rightarrow> (token_result \<times> TokenizerState) outcome" where
  "tre_tokenize_next enc ts =
     (case ts_pending ts of
        Some t \<Rightarrow> ret (Tok t, ts\<lparr> ts_pending := None \<rparr>)
      | None \<Rightarrow>
          if ts_pos ts \<ge> length (ts_input ts) then ret (Tok_eof, ts)
          else andThen (next_char enc ts) (\<lambda>(c, ts1).
            if c < 0 \<or> ts_pos ts1 = ts_pos ts then ret (Tok_error (Undecodable_character (ts_pos ts)), ts1)
            else case ts_mode ts1 of
                   MODE_BRACKET \<Rightarrow> token_in_bracket enc c ts1
                 | MODE_BRACE \<Rightarrow> token_in_brace enc c ts1
                 | MODE_BRACE_APPROX \<Rightarrow> token_in_brace enc c ts1
                 | MODE_NORMAL \<Rightarrow> token_normal enc c ts1))"

text \<open>
  All tokens of a pattern, as the parser's driver reads them, with the flag that the pattern is
  to be left unindexed; no list where the tokenizer reports an error.
\<close>

partial_function (option) tokenize_from :: "encoding \<Rightarrow> TokenizerState \<Rightarrow> (token list option \<times> bool) outcome" where
  "tokenize_from enc ts =
     andThen (tre_tokenize_next enc ts) (\<lambda>(r, ts1).
       case r of
         Tok_eof \<Rightarrow> ret (Some [], force_always_true ts1)
       | Tok_error e \<Rightarrow> ret (None, force_always_true ts1)
       | Tok t \<Rightarrow> andThen (tokenize_from enc ts1) (\<lambda>(toks, force). ret (map_option (Cons t) toks, force)))"

definition tokenize :: "encoding \<Rightarrow> uint8 list \<Rightarrow> (token list option \<times> bool) outcome" where
  "tokenize enc pattern = tokenize_from enc (init_tokenizer pattern)"


section \<open>Every pattern is read to its end\<close>

text \<open>Reading returns, or raises the error for bytes that are no character.\<close>

definition ends :: "'a outcome \<Rightarrow> bool" where
  "ends m \<longleftrightarrow> (\<exists>a. m = ret a) \<or> (\<exists>i. m = raise (Invalid_byte_sequence i))"

lemma ends_ret [simp]: "ends (ret a)"
  by (simp add: ends_def)

lemma ends_andThen: "ends m \<Longrightarrow> (\<And>a. m = ret a \<Longrightarrow> ends (f a)) \<Longrightarrow> ends (andThen m f)"
  by (auto simp: ends_def)

lemma cpstream_next_ends: "ends (pg_tre_cpstream_next enc s)"
  by (auto simp: ends_def pg_tre_cpstream_next_def split: decoded.splits)

lemma next_char_ends: "ends (next_char enc ts)"
  unfolding next_char_def by (auto intro!: ends_andThen cpstream_next_ends)

lemma next_char_step:
  assumes "encoding_ok enc" and "next_char enc ts = ret (c, ts1)"
  shows "if ts_pos ts < length (ts_input ts) then c \<ge> 0 \<and> ts_pos ts < ts_pos ts1 \<and> (\<exists>p. ts1 = ts\<lparr> ts_pos := p \<rparr>)
    else c = - 1 \<and> ts1 = ts"
proof (cases "ts_pos ts < length (ts_input ts)")
  case True
  let ?s = "pg_tre_cpstream_init (drop (ts_pos ts) (ts_input ts))"
  obtain s where s: "pg_tre_cpstream_next enc ?s = ret (c, s)" "ts1 = (if c \<ge> 0 then ts\<lparr> ts_pos := ts_pos ts + src_pos s \<rparr> else ts)"
    using assms(2) True by (auto simp: next_char_def andThen_ret_iff)
  from decode_char_error_free[OF s(1) assms(1)] True have "0 \<le> c" "0 < src_pos s" by (auto simp: pg_tre_cpstream_init_def)
  then show ?thesis using s(2) True by auto
qed (use assms(2) in \<open>simp add: next_char_def\<close>)

lemma peek_char_eq: "peek_char enc ts = andThen (next_char enc ts) (\<lambda>(c, ts1). ret c)"
  by (simp add: peek_char_def next_char_def andThen_assoc case_prod_unfold)

lemma parse_digits_ends:
  assumes "encoding_ok enc"
  shows "ends (parse_digits enc ts val got)
    \<and> (\<forall>val' got' ts'. parse_digits enc ts val got = ret (val', got', ts') \<longrightarrow>
         ts_pos ts \<le> ts_pos ts' \<and> ts_input ts' = ts_input ts \<and> (got' \<and> \<not> got \<longrightarrow> ts_pos ts < ts_pos ts'))"
proof (induction "length (ts_input ts) - ts_pos ts" arbitrary: ts val got rule: less_induct)
  case less
  from next_char_ends[of enc ts] consider (invalid) i where "next_char enc ts = raise (Invalid_byte_sequence i)"
    | (char) c ts1 where "next_char enc ts = ret (c, ts1)" by (auto simp: ends_def)
  then show ?case
  proof cases
    case invalid
    then have "parse_digits enc ts val got = raise (Invalid_byte_sequence i)" by (subst parse_digits.simps) (simp add: peek_char_eq)
    then show ?thesis by (auto simp: ends_def)
  next
    case char
    note st = next_char_step[OF assms char]
    show ?thesis
    proof (cases "c \<noteq> - 1 \<and> isdigit c")
      case True
      then have pr: "ts_pos ts < length (ts_input ts)" "ts_pos ts < ts_pos ts1" "\<exists>p. ts1 = ts\<lparr> ts_pos := p \<rparr>"
        using st by (auto split: if_splits)
      let ?v = "val * 10 + (word_of_int c - word_of_int (ch CHR ''0''))"
      have eq: "parse_digits enc ts val got = parse_digits enc ts1 ?v True"
        using True char by (subst parse_digits.simps) (simp add: peek_char_eq)
      have "length (ts_input ts1) - ts_pos ts1 < length (ts_input ts) - ts_pos ts" using pr by auto
      from less[OF this, of ?v True] have ih: "ends (parse_digits enc ts1 ?v True)"
          "\<And>val' got' ts'. parse_digits enc ts1 ?v True = ret (val', got', ts') \<Longrightarrow> ts_pos ts1 \<le> ts_pos ts' \<and> ts_input ts' = ts_input ts1"
        by blast+
      show ?thesis unfolding eq
      proof (intro conjI allI impI)
        show "ends (parse_digits enc ts1 ?v True)" by (rule ih(1))
        fix val' got' ts' assume "parse_digits enc ts1 ?v True = ret (val', got', ts')"
        from ih(2)[OF this] pr(2,3) show "ts_pos ts \<le> ts_pos ts'" "ts_input ts' = ts_input ts" "ts_pos ts < ts_pos ts'" by auto
      qed
    next
      case False
      then have "parse_digits enc ts val got = ret (val, got, ts)" using char by (subst parse_digits.simps) (auto simp: peek_char_eq)
      then show ?thesis by auto
    qed
  qed
qed

text \<open>What a step may do to the state: it never goes back, and never touches the pattern.\<close>

definition onward :: "TokenizerState \<Rightarrow> TokenizerState \<Rightarrow> bool" where
  "onward ts ts' \<longleftrightarrow> ts_input ts' = ts_input ts \<and> length (ts_input ts) - ts_pos ts' \<le> length (ts_input ts) - ts_pos ts"

definition forward :: "TokenizerState \<Rightarrow> (token_result \<times> TokenizerState) outcome \<Rightarrow> bool" where
  "forward ts m \<longleftrightarrow> ends m \<and> (\<forall>t ts'. m = ret (Tok t, ts') \<longrightarrow> onward ts ts')"

lemma forward_ret [simp]: "forward ts (ret (r, ts')) \<longleftrightarrow> (\<forall>t. r = Tok t \<longrightarrow> onward ts ts')"
  by (auto simp: forward_def)

lemma forward_andThen: "ends m \<Longrightarrow> (\<And>a. m = ret a \<Longrightarrow> forward ts (f a)) \<Longrightarrow> forward ts (andThen m f)"
  by (auto simp: forward_def ends_def)

lemma onward_simps [simp]:
  "onward ts ts" "onward ts (ts'\<lparr> ts_mode := md \<rparr>) \<longleftrightarrow> onward ts ts'" "onward ts (ts'\<lparr> bracket_depth := d \<rparr>) \<longleftrightarrow> onward ts ts'"
  "onward ts (ts'\<lparr> brace_depth := d \<rparr>) \<longleftrightarrow> onward ts ts'" "onward ts (ts'\<lparr> bracket_first := f \<rparr>) \<longleftrightarrow> onward ts ts'"
  "onward ts (ts'\<lparr> bracket_opaque := b \<rparr>) \<longleftrightarrow> onward ts ts'" "onward ts (ts'\<lparr> ts_pending := pd \<rparr>) \<longleftrightarrow> onward ts ts'"
  "onward ts (ts'\<lparr> force_always_true := b \<rparr>) \<longleftrightarrow> onward ts ts'" "onward (ts\<lparr> ts_mode := md \<rparr>) ts' \<longleftrightarrow> onward ts ts'"
  by (simp_all add: onward_def)

lemma onward_skip_lazy: "onward ts ts' \<Longrightarrow> onward ts (skip_lazy ts')"
  by (auto simp: onward_def skip_lazy_def)

lemma onward_next_char: "encoding_ok enc \<Longrightarrow> next_char enc ts = ret (c, ts1) \<Longrightarrow> onward ts ts1"
  using next_char_step[of enc ts c ts1] by (auto simp: onward_def split: if_splits)

lemma parse_escape_forward:
  assumes "encoding_ok enc"
  shows "ends (parse_escape enc ts)" and "parse_escape enc ts = ret (Inr (esc, ts')) \<Longrightarrow> onward ts ts'"
proof -
  show "ends (parse_escape enc ts)" unfolding parse_escape_def by (auto intro!: ends_andThen next_char_ends)
  assume "parse_escape enc ts = ret (Inr (esc, ts'))"
  then obtain c ts1 where n: "next_char enc ts = ret (c, ts1)" and t: "ts_input ts' = ts_input ts1 \<and> ts_pos ts1 \<le> ts_pos ts'"
    unfolding parse_escape_def by (auto simp: andThen_ret_iff split: if_splits)
  then show "onward ts ts'" using onward_next_char[OF assms n] by (auto simp: onward_def)
qed

lemmas parse_escape_onward = parse_escape_forward(2)[rotated]

lemma onward_trans: "onward ts ts1 \<Longrightarrow> onward ts1 ts2 \<Longrightarrow> onward ts ts2"
  by (simp add: onward_def)

lemma parse_integer_forward:
  assumes "encoding_ok enc"
  shows "ends (parse_integer enc ts)" and "parse_integer enc ts = ret (Inr (v, ts')) \<Longrightarrow> onward ts ts' \<and> ts_pos ts < ts_pos ts'"
proof -
  note d = parse_digits_ends[OF assms, of ts 0 False]
  show "ends (parse_integer enc ts)" unfolding parse_integer_def using d by (auto intro!: ends_andThen)
  assume "parse_integer enc ts = ret (Inr (v, ts'))"
  then obtain val where "parse_digits enc ts 0 False = ret (val, True, ts')"
    unfolding parse_integer_def by (auto simp: andThen_ret_iff split: if_splits)
  then show "onward ts ts' \<and> ts_pos ts < ts_pos ts'" using d by (auto simp: onward_def)
qed

lemma token_in_bracket_forward:
  assumes "encoding_ok enc"
  shows "forward ts (token_in_bracket enc c ts)"
proof -
  have fc: "length (ts_input ts) - Suc (Suc (find_close (ts_input ts) (ts_input ts ! ts_pos ts) (Suc (ts_pos ts))))
      \<le> length (ts_input ts) - ts_pos ts"
    using find_close_ge[of "Suc (ts_pos ts)" "ts_input ts" "ts_input ts ! ts_pos ts"] by simp
  have esc: "forward ts (andThen (parse_escape enc ts) (\<lambda>r. case r of Inl e \<Rightarrow> ret (Tok_error e, ts)
      | Inr (esc, ts1) \<Rightarrow> ret (Tok (TOK_LITERAL 0), ts1\<lparr> bracket_opaque := True \<rparr>)))"
    by (rule forward_andThen[OF parse_escape_forward(1)[OF assms]])
       (auto dest: parse_escape_onward[OF _ assms] split: sum.splits prod.splits)
  show ?thesis unfolding token_in_bracket_def Let_def using fc esc by (simp add: onward_def)
qed

lemma token_of_integer_forward:
  assumes "encoding_ok enc" and "ts_input ts0 = ts_input ts" and "ts_pos ts \<le> ts_pos ts0 + 1"
  shows "forward ts (token_of_integer mk ts1 (parse_integer enc ts0))"
  unfolding token_of_integer_def
proof (rule forward_andThen)
  show "ends (parse_integer enc ts0)" by (rule parse_integer_forward(1)[OF assms(1)])
  fix r assume r: "parse_integer enc ts0 = ret r"
  show "forward ts (case r of Inl e \<Rightarrow> ret (Tok_error e, ts1) | Inr (v, ts1) \<Rightarrow> ret (if v < 0 then Tok_error Count_wrapped else Tok (mk v), ts1))"
  proof (cases r)
    case (Inr a)
    obtain v ts2 where a: "a = (v, ts2)" by (cases a)
    have "onward ts0 ts2 \<and> ts_pos ts0 < ts_pos ts2" using parse_integer_forward(2)[OF assms(1)] r Inr a by simp
    then have "onward ts ts2" using assms(2,3) by (auto simp: onward_def)
    then show ?thesis using Inr a by simp
  qed simp
qed

lemma token_in_brace_forward: "encoding_ok enc \<Longrightarrow> forward ts (token_in_brace enc c ts)"
  unfolding token_in_brace_def Let_def
  by (auto intro!: onward_skip_lazy token_of_integer_forward)

lemma skip_group_step:
  assumes "skip_group s p depth inb = Some q"
  shows "q = p + 1 \<or> (\<exists>p' depth' inb'. p < p' \<and> p < length s \<and> skip_group s p' depth' inb' = Some q)"
proof -
  have fc: "p < find_close s (s ! (p + 1)) (p + 1 + 1) + 2" using find_close_ge[of "p + 1 + 1" s "s ! (p + 1)"] by simp
  define R where "R \<longleftrightarrow> q = p + 1 \<or> (\<exists>p' depth' inb'. p < p' \<and> p < length s \<and> skip_group s p' depth' inb' = Some q)"
  have here: "p + 1 = q \<Longrightarrow> R" by (simp add: R_def)
  have go: "skip_group s p' d b = Some q \<Longrightarrow> p < p' \<Longrightarrow> p < length s \<Longrightarrow> R" for p' d b unfolding R_def by blast
  have R using assms[unfolded skip_group.simps[of s p depth inb] Let_def]
    by (simp only: split: if_splits) ((erule go, use fc in simp, assumption) | (simp add: here))+
  then show ?thesis unfolding R_def .
qed

lemma skip_group_ge: "skip_group s p depth inb = Some q \<Longrightarrow> p < q"
proof (induction "length s - p" arbitrary: p depth inb rule: less_induct)
  case less
  from skip_group_step[OF less.prems] show ?case
  proof
    assume "\<exists>p' depth' inb'. p < p' \<and> p < length s \<and> skip_group s p' depth' inb' = Some q"
    then obtain p' depth' inb' where "p < p'" "p < length s" "skip_group s p' depth' inb' = Some q" by blast
    moreover from this have "length s - p' < length s - p" by (simp add: diff_less_mono2)
    ultimately show ?thesis using less.hyps[of p' depth' inb'] by simp
  qed simp
qed

lemma token_paren_forward: "forward ts (ret (token_paren ts))"
  by (auto simp: token_paren_def give_up_pattern_def Let_def onward_def byte_at_def dest!: skip_group_ge split: option.splits if_splits)

lemma token_normal_forward:
  assumes "encoding_ok enc"
  shows "forward ts (token_normal enc c ts)"
proof -
  have esc: "forward ts (andThen (parse_escape enc ts) (\<lambda>r. case r of
        Inl e \<Rightarrow> ret (Tok_error e, ts)
      | Inr (Esc_class, ts1) \<Rightarrow> ret (Tok TOK_DOT, ts1)
      | Inr (Esc_opaque, ts1) \<Rightarrow> ret (give_up_pattern ts1)
      | Inr (Esc_char cp, ts1) \<Rightarrow> ret (Tok (TOK_LITERAL cp), ts1)))"
    by (rule forward_andThen[OF parse_escape_forward(1)[OF assms]])
       (auto dest: parse_escape_onward[OF _ assms] simp: give_up_pattern_def onward_def split: sum.splits prod.splits escape.splits)
  show ?thesis unfolding token_normal_def using esc token_paren_forward[of ts] by (simp add: onward_skip_lazy)
qed

text \<open>A token uses up part of the pattern, or the queued token.\<close>

definition left_to_read :: "TokenizerState \<Rightarrow> nat" where
  "left_to_read ts = 2 * (length (ts_input ts) - ts_pos ts) + (if ts_pending ts = None then 0 else 1)"

lemma tokenize_next_forward:
  assumes "encoding_ok enc"
  shows "ends (tre_tokenize_next enc ts)" and "tre_tokenize_next enc ts = ret (Tok t, ts') \<Longrightarrow> left_to_read ts' < left_to_read ts"
proof -
  let ?tok = "\<lambda>c ts1. case ts_mode ts1 of MODE_BRACKET \<Rightarrow> token_in_bracket enc c ts1 | MODE_BRACE \<Rightarrow> token_in_brace enc c ts1
    | MODE_BRACE_APPROX \<Rightarrow> token_in_brace enc c ts1 | MODE_NORMAL \<Rightarrow> token_normal enc c ts1"
  have tok: "forward ts1 (?tok c ts1)" for c ts1
    using token_in_bracket_forward[OF assms] token_in_brace_forward[OF assms] token_normal_forward[OF assms]
    by (simp split: TokenizerMode.split)
  show "ends (tre_tokenize_next enc ts)" unfolding tre_tokenize_next_def
    using tok by (auto intro!: ends_andThen next_char_ends simp: forward_def split: option.splits)
  assume t: "tre_tokenize_next enc ts = ret (Tok t, ts')"
  show "left_to_read ts' < left_to_read ts"
  proof (cases "ts_pending ts")
    case None
    then have p: "ts_pos ts < length (ts_input ts)" using t by (auto simp: tre_tokenize_next_def split: if_splits)
    then obtain c ts1 where n: "next_char enc ts = ret (c, ts1)" "?tok c ts1 = ret (Tok t, ts')"
      using t None by (auto simp: tre_tokenize_next_def andThen_ret_iff split: if_splits)
    have "onward ts1 ts'" using tok[of ts1 c] n(2) by (simp add: forward_def)
    then show ?thesis using next_char_step[OF assms n(1)] p None by (auto simp: onward_def left_to_read_def)
  qed (use t in \<open>auto simp: tre_tokenize_next_def left_to_read_def\<close>)
qed

lemma tokenize_from_ends:
  assumes "encoding_ok enc"
  shows "ends (tokenize_from enc ts)"
proof (induction "left_to_read ts" arbitrary: ts rule: less_induct)
  case less
  show ?case
  proof (subst tokenize_from.simps, rule ends_andThen[OF tokenize_next_forward(1)[OF assms]])
    fix a assume a: "tre_tokenize_next enc ts = ret a"
    obtain r ts1 where r: "a = (r, ts1)" by (cases a)
    show "ends (case a of (r, ts1) \<Rightarrow> case r of Tok_eof \<Rightarrow> ret (Some [], force_always_true ts1) | Tok_error e \<Rightarrow> ret (None, force_always_true ts1)
        | Tok t \<Rightarrow> andThen (tokenize_from enc ts1) (\<lambda>(toks, force). ret (map_option (Cons t) toks, force)))"
      using tokenize_next_forward(2)[OF assms, of ts _ ts1] a r less
      by (cases r) (auto intro!: ends_andThen)
  qed
qed

end
