(* ===== verification/Regex_Parser.thy ===== *)
theory Regex_Parser
  imports Tokenizer Regex_Ast
begin

text \<open>
  \<open>src/query/tre_grammar.y\<close> and \<open>src/query/parser.c\<close>: the grammar, and a parser for it.

  The C parser is generated from the grammar. The grammar is here the inductive definition that
  its productions spell out, and the parser is a pass over the tokens that keeps what an LR
  parser has on its stack: for every open parenthesis the alternatives so far and the current
  concatenation. They are shown to agree, so the grammar is unambiguous and the pass is what any
  generated parser must compute.
\<close>

section \<open>The grammar\<close>

inductive classitem :: "token list \<Rightarrow> RegexClass \<Rightarrow> bool" where
  item_char: "classitem [TOK_LITERAL c] (regex_ast_class_char c)"
| item_range: "regex_ast_class_range c1 c2 = Inr cls \<Longrightarrow> classitem [TOK_LITERAL c1, TOK_DASH, TOK_LITERAL c2] cls"

inductive classbody :: "token list \<Rightarrow> RegexClass \<Rightarrow> bool" where
  body_item: "classitem ts i \<Longrightarrow> classbody ts i"
| body_union: "classbody ts b \<Longrightarrow> classitem us i \<Longrightarrow> classbody (ts @ us) (regex_ast_class_union b i)"

inductive alternation :: "token list \<Rightarrow> RegexAst \<Rightarrow> bool"
  and concatenation :: "token list \<Rightarrow> RegexAst \<Rightarrow> bool"
  and quantified :: "token list \<Rightarrow> RegexAst \<Rightarrow> bool"
  and atom :: "token list \<Rightarrow> RegexAst \<Rightarrow> bool" where
  alt_one: "concatenation ts a \<Longrightarrow> alternation ts a"
| alt_pipe: "alternation ts a \<Longrightarrow> concatenation us b \<Longrightarrow> alternation (ts @ TOK_PIPE # us) (ALT a b)"
| cat_one: "quantified ts a \<Longrightarrow> concatenation ts a"
| cat_more: "concatenation ts a \<Longrightarrow> quantified us b \<Longrightarrow> concatenation (ts @ us) (CONCAT a b)"
| q_none: "atom ts a \<Longrightarrow> quantified ts a"
| q_star: "atom ts a \<Longrightarrow> quantified (ts @ [TOK_STAR]) (REP a 0 (- 1))"
| q_plus: "atom ts a \<Longrightarrow> quantified (ts @ [TOK_PLUS]) (REP a 1 (- 1))"
| q_opt: "atom ts a \<Longrightarrow> quantified (ts @ [TOK_QUESTION]) (REP a 0 1)"
| q_exact: "atom ts a \<Longrightarrow> quantified (ts @ [TOK_LBRACE, TOK_INT m, TOK_RBRACE]) (REP a m m)"
| q_least: "atom ts a \<Longrightarrow> quantified (ts @ [TOK_LBRACE, TOK_INT m, TOK_COMMA, TOK_RBRACE]) (REP a m (- 1))"
| q_between: "atom ts a \<Longrightarrow> quantified (ts @ [TOK_LBRACE, TOK_INT m, TOK_COMMA, TOK_INT n, TOK_RBRACE]) (REP a m n)"
| q_approx: "atom ts a \<Longrightarrow> quantified (ts @ [TOK_LBRACE, TOK_APPROX k, TOK_RBRACE]) (APPROX a k)"
| a_group: "alternation ts a \<Longrightarrow> atom (TOK_LPAREN # ts @ [TOK_RPAREN]) a"
| a_literal: "atom [TOK_LITERAL c] (LITERAL c)"
| a_class: "classbody ts b \<Longrightarrow> atom (TOK_LBRACKET # ts @ [TOK_RBRACKET opaque]) (if opaque then ANY else regex_ast_class b False)"
| a_negated: "classbody ts b \<Longrightarrow> atom (TOK_LBRACKET # TOK_CARET # ts @ [TOK_RBRACKET opaque]) (if opaque then ANY else regex_ast_class b True)"
| a_any: "atom [TOK_DOT] ANY"
| a_start: "atom [TOK_ANCHOR_START] (ANCHOR REGEX_ANCHOR_START)"
| a_end: "atom [TOK_ANCHOR_END] (ANCHOR REGEX_ANCHOR_END)"

section \<open>The parser\<close>

text \<open>The members of a class up to the closing bracket: the class, the bracket's flag, the rest.\<close>

definition add_item :: "RegexClass option \<Rightarrow> RegexClass \<Rightarrow> RegexClass" where
  "add_item body i = (case body of None \<Rightarrow> i | Some b \<Rightarrow> regex_ast_class_union b i)"

function parse_class :: "RegexClass option \<Rightarrow> token list \<Rightarrow> (RegexClass \<times> bool \<times> token list) option" where
  "parse_class body ts =
     (case ts of
        [] \<Rightarrow> None
      | t # us \<Rightarrow>
          if is_TOK_LITERAL t
          then (if 2 \<le> length us \<and> us ! 0 = TOK_DASH \<and> is_TOK_LITERAL (us ! 1)
                then (case regex_ast_class_range (tok_cp t) (tok_cp (us ! 1)) of
                        Inl e \<Rightarrow> None
                      | Inr i \<Rightarrow> parse_class (Some (add_item body i)) (drop 2 us))
                else parse_class (Some (add_item body (regex_ast_class_char (tok_cp t)))) us)
          else if is_TOK_RBRACKET t then map_option (\<lambda>b. (b, tok_opaque t, us)) body
          else None)"
  by pat_completeness auto
termination
  by (relation "measure (\<lambda>(body, ts). length ts)") auto

declare parse_class.simps [simp del]

text \<open>The rest behind a token that must come next.\<close>

definition expect :: "token \<Rightarrow> token list \<Rightarrow> token list option" where
  "expect t ts = (case ts of [] \<Rightarrow> None | u # us \<Rightarrow> if u = t then Some us else None)"

definition parse_brace :: "RegexAst \<Rightarrow> token list \<Rightarrow> (RegexAst \<times> token list) option" where
  "parse_brace a ts =
     (case ts of
        [] \<Rightarrow> None
      | t # us \<Rightarrow>
          if is_TOK_APPROX t then map_option (Pair (APPROX a (tok_approx t))) (expect TOK_RBRACE us)
          else if is_TOK_INT t
          then (case expect TOK_COMMA us of
                  None \<Rightarrow> map_option (Pair (REP a (tok_int t) (tok_int t))) (expect TOK_RBRACE us)
                | Some vs \<Rightarrow>
                    (case vs of
                       [] \<Rightarrow> None
                     | n # ws \<Rightarrow>
                         if is_TOK_INT n then map_option (Pair (REP a (tok_int t) (tok_int n))) (expect TOK_RBRACE ws)
                         else map_option (Pair (REP a (tok_int t) (- 1))) (expect TOK_RBRACE vs)))
          else None)"

text \<open>The quantifier behind an atom, if there is one.\<close>

definition parse_quantifier :: "RegexAst \<Rightarrow> token list \<Rightarrow> (RegexAst \<times> token list) option" where
  "parse_quantifier a ts =
     (case ts of
        [] \<Rightarrow> Some (a, [])
      | t # us \<Rightarrow>
          if t = TOK_STAR then Some (REP a 0 (- 1), us)
          else if t = TOK_PLUS then Some (REP a 1 (- 1), us)
          else if t = TOK_QUESTION then Some (REP a 0 1, us)
          else if t = TOK_LBRACE then parse_brace a us
          else Some (a, ts))"

text \<open>An atom that is not a group.\<close>

definition class_atom :: "bool \<Rightarrow> token list \<Rightarrow> (RegexAst \<times> token list) option" where
  "class_atom negated ts =
     map_option (\<lambda>(b, opaque, us). (if opaque then ANY else regex_ast_class b negated, us)) (parse_class None ts)"

definition parse_simple_atom :: "token list \<Rightarrow> (RegexAst \<times> token list) option" where
  "parse_simple_atom ts =
     (case ts of
        [] \<Rightarrow> None
      | t # us \<Rightarrow>
          if is_TOK_LITERAL t then Some (LITERAL (tok_cp t), us)
          else if t = TOK_DOT then Some (ANY, us)
          else if t = TOK_ANCHOR_START then Some (ANCHOR REGEX_ANCHOR_START, us)
          else if t = TOK_ANCHOR_END then Some (ANCHOR REGEX_ANCHOR_END, us)
          else if t = TOK_LBRACKET
          then (case expect TOK_CARET us of None \<Rightarrow> class_atom False us | Some vs \<Rightarrow> class_atom True vs)
          else None)"

text \<open>An open level: the alternatives read, and the concatenation being read.\<close>

type_synonym level_state = "RegexAst option \<times> RegexAst option"

definition add_cat :: "level_state \<Rightarrow> RegexAst \<Rightarrow> level_state" where
  "add_cat lv a = (fst lv, Some (case snd lv of None \<Rightarrow> a | Some c \<Rightarrow> CONCAT c a))"

definition close_alt :: "RegexAst option \<Rightarrow> RegexAst \<Rightarrow> RegexAst" where
  "close_alt alts c = (case alts of None \<Rightarrow> c | Some a \<Rightarrow> ALT a c)"

lemma parse_class_shorter: "parse_class body ts = Some (b, opaque, us) \<Longrightarrow> length us < length ts"
proof (induction body ts rule: parse_class.induct)
  case (1 body ts)
  show ?case
  proof (cases ts)
    case (Cons t vs)
    then show ?thesis using 1(3)[unfolded parse_class.simps[of body ts]] 1(1)[OF Cons] 1(2)[OF Cons]
      by (fastforce split: if_splits sum.splits)
  qed (use 1(3) in \<open>simp add: parse_class.simps\<close>)
qed

lemma expect_shorter: "expect t ts = Some us \<Longrightarrow> ts = t # us"
  by (auto simp: expect_def split: list.splits if_splits)

lemma parse_brace_shorter: "parse_brace a ts = Some (b, us) \<Longrightarrow> length us < length ts"
  unfolding parse_brace_def by (auto dest!: expect_shorter split: list.splits if_splits option.splits)

lemma parse_quantifier_shorter: "parse_quantifier a ts = Some (b, us) \<Longrightarrow> length us \<le> length ts"
  unfolding parse_quantifier_def by (auto dest!: parse_brace_shorter split: list.splits if_splits)

lemma parse_simple_atom_shorter: "parse_simple_atom ts = Some (a, us) \<Longrightarrow> length us < length ts"
  unfolding parse_simple_atom_def class_atom_def
  by (auto dest!: expect_shorter parse_class_shorter split: list.splits if_splits option.splits)

text \<open>One pass; \<open>outer\<close> are the levels around the current one, the innermost first.\<close>

function parse_tokens :: "level_state list \<Rightarrow> level_state \<Rightarrow> token list \<Rightarrow> RegexAst option" where
  "parse_tokens outer lv ts =
     (case ts of
        [] \<Rightarrow> (if outer = [] then map_option (close_alt (fst lv)) (snd lv) else None)
      | t # us \<Rightarrow>
          if t = TOK_PIPE
          then (case snd lv of None \<Rightarrow> None | Some c \<Rightarrow> parse_tokens outer (Some (close_alt (fst lv) c), None) us)
          else if t = TOK_LPAREN then parse_tokens (lv # outer) (None, None) us
          else if t = TOK_RPAREN
          then (case outer of
                  [] \<Rightarrow> None
                | up # outer' \<Rightarrow>
                    (case snd lv of
                       None \<Rightarrow> None
                     | Some c \<Rightarrow>
                         (case parse_quantifier (close_alt (fst lv) c) us of
                            None \<Rightarrow> None
                          | Some (a, vs) \<Rightarrow> parse_tokens outer' (add_cat up a) vs)))
          else
            (case parse_simple_atom ts of
               None \<Rightarrow> None
             | Some (a, vs) \<Rightarrow>
                 (case parse_quantifier a vs of
                    None \<Rightarrow> None
                  | Some (b, ws) \<Rightarrow> parse_tokens outer (add_cat lv b) ws)))"
  by pat_completeness auto
termination
  by (relation "measure (\<lambda>(outer, lv, ts). length ts)")
     (auto dest!: parse_quantifier_shorter parse_simple_atom_shorter)

declare parse_tokens.simps [simp del]

definition parse_pattern :: "token list \<Rightarrow> RegexAst option" where
  "parse_pattern ts = parse_tokens [] (None, None) ts"

text \<open>
  The driver: the syntax tree, if the pattern has one, and the flag \<open>force_always_true\<close> that the
  tokenizer may have set. The text of a pattern is valid in its encoding, so that reading all of
  it before parsing raises nothing that the driver, which stops at a syntax error, would not raise.
\<close>

definition tre_parse_regex :: "encoding \<Rightarrow> uint8 list \<Rightarrow> (RegexAst option \<times> bool) outcome" where
  "tre_parse_regex enc pattern = andThen (tokenize enc pattern) (\<lambda>(toks, force). ret (Option.bind toks parse_pattern, force))"

end
