(* ===== verification/Regex_Parser_Correct.thy ===== *)
theory Regex_Parser_Correct
  imports Regex_Parser
begin

text \<open>The parser accepts exactly the grammar and returns the tree of the only derivation.\<close>

section \<open>What is derivable is parsed\<close>

definition no_quantifier :: "token list \<Rightarrow> bool" where
  "no_quantifier ts \<longleftrightarrow> ts = [] \<or> hd ts \<notin> {TOK_STAR, TOK_PLUS, TOK_QUESTION, TOK_LBRACE}"

lemma parse_no_quantifier: "no_quantifier ts \<Longrightarrow> parse_quantifier a ts = Some (a, ts)"
  by (cases ts) (auto simp: no_quantifier_def parse_quantifier_def)

lemma no_quantifier_Cons [simp]: "no_quantifier (t # ts) \<longleftrightarrow> t \<notin> {TOK_STAR, TOK_PLUS, TOK_QUESTION, TOK_LBRACE}"
  by (simp add: no_quantifier_def)

lemma no_quantifier_Nil [simp]: "no_quantifier []"
  by (simp add: no_quantifier_def)

text \<open>What happens behind an atom.\<close>

definition after_atom :: "level_state list \<Rightarrow> level_state \<Rightarrow> RegexAst \<Rightarrow> token list \<Rightarrow> RegexAst option" where
  "after_atom outer lv a ts = (case parse_quantifier a ts of None \<Rightarrow> None | Some (b, vs) \<Rightarrow> parse_tokens outer (add_cat lv b) vs)"

lemma parse_tokens_simple:
  assumes "parse_simple_atom (t # us) = Some (a, vs)"
  shows "parse_tokens outer lv (t # us) = after_atom outer lv a vs"
proof -
  have "t \<notin> {TOK_PIPE, TOK_LPAREN, TOK_RPAREN}" using assms by (auto simp: parse_simple_atom_def)
  then show ?thesis using assms by (subst parse_tokens.simps) (simp add: after_atom_def)
qed

lemma parse_item:
  assumes "classitem us i" and "ts = [] \<or> hd ts \<noteq> TOK_DASH"
  shows "parse_class body (us @ ts) = parse_class (Some (add_item body i)) ts"
  using assms(1)
proof cases
  case (item_char c)
  then show ?thesis using assms(2) by (cases ts) (subst parse_class.simps, simp)+
qed (subst parse_class.simps, simp)

lemma item_head: "classitem us i \<Longrightarrow> hd (us @ ts) \<noteq> TOK_DASH \<and> us \<noteq> []"
  by (auto elim: classitem.cases)

lemma parse_body: "classbody us b \<Longrightarrow> ts = [] \<or> hd ts \<noteq> TOK_DASH \<Longrightarrow> parse_class None (us @ ts) = parse_class (Some b) ts"
proof (induction arbitrary: ts rule: classbody.induct)
  case (body_union ts' b us i)
  have "parse_class None ((ts' @ us) @ ts) = parse_class (Some b) (us @ ts)" using body_union item_head by auto
  then show ?case using parse_item[OF body_union.hyps(2) body_union.prems] by (simp add: add_item_def)
qed (simp add: parse_item add_item_def)

lemma parse_class_close [simp]: "parse_class (Some b) (TOK_RBRACKET opaque # ts) = Some (b, opaque, ts)"
  by (subst parse_class.simps) simp

lemma parse_class_atom: "classbody us b \<Longrightarrow> class_atom negated (us @ TOK_RBRACKET opaque # ts)
    = Some (if opaque then ANY else regex_ast_class b negated, ts)"
  by (simp add: class_atom_def parse_body)

lemma body_no_caret: "classbody us b \<Longrightarrow> expect TOK_CARET (us @ ts) = None"
proof (induction arbitrary: ts rule: classbody.induct)
  case (body_item us i)
  then show ?case by cases (auto simp: expect_def)
qed simp

lemma starts_no_quantifier:
  "alternation ts a \<Longrightarrow> ts \<noteq> [] \<and> (\<forall>us. no_quantifier (ts @ us))"
  "concatenation ts a \<Longrightarrow> ts \<noteq> [] \<and> (\<forall>us. no_quantifier (ts @ us))"
  "quantified ts a \<Longrightarrow> ts \<noteq> [] \<and> (\<forall>us. no_quantifier (ts @ us))"
  "atom ts a \<Longrightarrow> ts \<noteq> [] \<and> (\<forall>us. no_quantifier (ts @ us))"
  by (induction rule: alternation_concatenation_quantified_atom.inducts) simp_all

lemmas parse_quantifier_eval = after_atom_def parse_quantifier_def parse_brace_def expect_def

lemma parse_complete:
  "alternation us a \<Longrightarrow> \<forall>outer ts. no_quantifier ts \<longrightarrow>
     (\<exists>alts c. parse_tokens outer (None, None) (us @ ts) = parse_tokens outer (alts, Some c) ts \<and> close_alt alts c = a)"
  "concatenation us a \<Longrightarrow> \<forall>outer alts ts. no_quantifier ts \<longrightarrow>
     parse_tokens outer (alts, None) (us @ ts) = parse_tokens outer (alts, Some a) ts"
  "quantified us a \<Longrightarrow> \<forall>outer lv ts. no_quantifier ts \<longrightarrow> parse_tokens outer lv (us @ ts) = parse_tokens outer (add_cat lv a) ts"
  "atom us a \<Longrightarrow> \<forall>outer lv ts. parse_tokens outer lv (us @ ts) = after_atom outer lv a ts"
proof (induction rule: alternation_concatenation_quantified_atom.inducts)
  case (alt_one ts a)
  then show ?case by (metis close_alt_def option.simps(4))
next
  case (alt_pipe ts a us b)
  show ?case
  proof (intro allI impI)
    fix outer vs assume nq: "no_quantifier vs"
    have "no_quantifier (TOK_PIPE # us @ vs)" by simp
    from alt_pipe.IH(1)[THEN spec, of outer, THEN spec, THEN mp, OF this] obtain alts c where
      "parse_tokens outer (None, None) (ts @ TOK_PIPE # us @ vs) = parse_tokens outer (alts, Some c) (TOK_PIPE # us @ vs)"
      "close_alt alts c = a" by blast
    moreover have "parse_tokens outer (alts, Some c) (TOK_PIPE # us @ vs) = parse_tokens outer (Some (close_alt alts c), None) (us @ vs)"
      by (subst parse_tokens.simps) simp
    ultimately show "\<exists>alts c. parse_tokens outer (None, None) ((ts @ TOK_PIPE # us) @ vs) = parse_tokens outer (alts, Some c) vs
        \<and> close_alt alts c = ALT a b"
      using alt_pipe.IH(2) nq by (intro exI[of _ "Some a"] exI[of _ b]) (simp add: close_alt_def)
  qed
next
  case (cat_one ts a)
  then show ?case by (simp add: add_cat_def)
next
  case (cat_more ts a us b)
  have "no_quantifier (us @ vs)" for vs using starts_no_quantifier(3)[OF cat_more.hyps(2)] by simp
  then show ?case using cat_more.IH by (simp add: add_cat_def)
next
  case (q_none ts a)
  then show ?case by (simp add: after_atom_def parse_no_quantifier)
next
  case (a_group ts a)
  show ?case
  proof (intro allI)
    fix outer lv vs
    have "parse_tokens outer lv ((TOK_LPAREN # ts @ [TOK_RPAREN]) @ vs) = parse_tokens (lv # outer) (None, None) (ts @ TOK_RPAREN # vs)"
      by (subst parse_tokens.simps) simp
    moreover have "no_quantifier (TOK_RPAREN # vs)" by simp
    from a_group.IH[THEN spec, of "lv # outer", THEN spec, THEN mp, OF this] obtain alts c where
      "parse_tokens (lv # outer) (None, None) (ts @ TOK_RPAREN # vs) = parse_tokens (lv # outer) (alts, Some c) (TOK_RPAREN # vs)"
      "close_alt alts c = a" by blast
    moreover have "parse_tokens (lv # outer) (alts, Some c) (TOK_RPAREN # vs) = after_atom outer lv (close_alt alts c) vs"
      by (subst parse_tokens.simps) (simp add: after_atom_def)
    ultimately show "parse_tokens outer lv ((TOK_LPAREN # ts @ [TOK_RPAREN]) @ vs) = after_atom outer lv a vs" by simp
  qed
next
  case (a_class ts b opaque)
  then show ?case
    by (auto intro!: parse_tokens_simple simp: parse_simple_atom_def body_no_caret parse_class_atom)
next
  case (a_negated ts b opaque)
  then show ?case
    by (auto intro!: parse_tokens_simple simp: parse_simple_atom_def expect_def parse_class_atom)
qed (simp_all add: parse_tokens_simple parse_simple_atom_def parse_quantifier_eval)

section \<open>What is parsed is derivable\<close>

lemma parse_class_sound:
  "parse_class body ts = Some (b, opaque, us) \<Longrightarrow> (case body of None \<Rightarrow> pre = [] | Some b0 \<Rightarrow> classbody pre b0) \<Longrightarrow>
     \<exists>vs. ts = vs @ TOK_RBRACKET opaque # us \<and> classbody (pre @ vs) b"
proof (induction body ts arbitrary: pre rule: parse_class.induct)
  case (1 body ts)
  from 1(3) obtain t ts' where ts: "ts = t # ts'" by (cases ts) (auto simp: parse_class.simps)
  have add: "classbody (pre @ ws) (add_item body i)" if "classitem ws i" for ws i
    using 1(4) that by (cases body) (auto simp: add_item_def intro: classbody.intros)
  note eq = 1(3)[unfolded parse_class.simps[of body ts]]
  consider (range) i where "is_TOK_LITERAL t" "2 \<le> length ts'" "ts' ! 0 = TOK_DASH" "is_TOK_LITERAL (ts' ! 1)"
      "regex_ast_class_range (tok_cp t) (tok_cp (ts' ! 1)) = Inr i" "parse_class (Some (add_item body i)) (drop 2 ts') = Some (b, opaque, us)"
    | (single) "is_TOK_LITERAL t" "\<not> (2 \<le> length ts' \<and> ts' ! 0 = TOK_DASH \<and> is_TOK_LITERAL (ts' ! 1))"
      "parse_class (Some (add_item body (regex_ast_class_char (tok_cp t)))) ts' = Some (b, opaque, us)"
    | (close) "is_TOK_RBRACKET t" "body = Some b" "opaque = tok_opaque t" "us = ts'"
    using eq ts by (auto split: if_splits sum.splits)
  then show ?case
  proof cases
    case range
    obtain c where c: "t = TOK_LITERAL c" using range(1) by (cases t) auto
    obtain c' ts2 where c': "ts' = TOK_DASH # TOK_LITERAL c' # ts2"
      using range(2-4) by (cases ts'; cases "tl ts'"; cases "hd (tl ts')") auto
    have "classbody (pre @ [TOK_LITERAL c, TOK_DASH, TOK_LITERAL c']) (add_item body i)"
      using range(5) c c' by (intro add item_range) simp
    then show ?thesis using 1(1)[OF ts range(1) _ range(5,6), of "pre @ [TOK_LITERAL c, TOK_DASH, TOK_LITERAL c']"] range(2-4) c c' ts
      by auto
  next
    case single
    obtain c where c: "t = TOK_LITERAL c" using single(1) by (cases t) auto
    have "classbody (pre @ [TOK_LITERAL c]) (add_item body (regex_ast_class_char c))" by (intro add item_char)
    then show ?thesis using 1(2)[OF ts single, of "pre @ [TOK_LITERAL c]"] c ts by auto
  next
    case close
    then show ?thesis using 1(4) ts by (cases t) auto
  qed
qed

lemma class_atom_sound:
  assumes "class_atom negated ts = Some (a, us)"
  obtains vs b opaque where "ts = vs @ TOK_RBRACKET opaque # us" "classbody vs b" "a = (if opaque then ANY else regex_ast_class b negated)"
  using assms parse_class_sound[of None ts _ _ us "[]"] unfolding class_atom_def by auto

lemma simple_atom_sound:
  assumes "parse_simple_atom ts = Some (a, us)"
  shows "\<exists>vs. ts = vs @ us \<and> atom vs a"
proof (cases ts)
  case (Cons t ts')
  show ?thesis
  proof (cases "t = TOK_LBRACKET")
    case True
    show ?thesis
    proof (cases "expect TOK_CARET ts'")
      case None
      then have "class_atom False ts' = Some (a, us)" using assms Cons True by (simp add: parse_simple_atom_def)
      then obtain vs b opaque where "ts' = vs @ TOK_RBRACKET opaque # us" "classbody vs b" "a = (if opaque then ANY else regex_ast_class b False)"
        by (rule class_atom_sound)
      then show ?thesis using a_class[of vs b opaque] Cons True by (intro exI[of _ "TOK_LBRACKET # vs @ [TOK_RBRACKET opaque]"]) simp
    next
      case (Some ws)
      then have "class_atom True ws = Some (a, us)" using assms Cons True by (simp add: parse_simple_atom_def)
      then obtain vs b opaque where "ws = vs @ TOK_RBRACKET opaque # us" "classbody vs b" "a = (if opaque then ANY else regex_ast_class b True)"
        by (rule class_atom_sound)
      then show ?thesis using a_negated[of vs b opaque] Cons True expect_shorter[OF Some]
        by (intro exI[of _ "TOK_LBRACKET # TOK_CARET # vs @ [TOK_RBRACKET opaque]"]) simp
    qed
  next
    case False
    then have "ts = [t] @ us \<and> atom [t] a" using assms Cons by (auto simp: parse_simple_atom_def is_TOK_LITERAL_def intro: a_literal a_any a_start a_end split: if_splits)
    then show ?thesis by blast
  qed
qed (use assms in \<open>simp add: parse_simple_atom_def\<close>)

lemma brace_sound:
  assumes "parse_brace a ts = Some (b, us)" and "atom vs a"
  shows "\<exists>ws. ts = ws @ us \<and> quantified (vs @ TOK_LBRACE # ws) b"
  using assms(1) q_exact[OF assms(2)] q_least[OF assms(2)] q_between[OF assms(2)] q_approx[OF assms(2)]
  unfolding parse_brace_def
  by (auto simp: is_TOK_APPROX_def is_TOK_INT_def dest!: expect_shorter split: list.splits if_splits option.splits)

lemma quantifier_sound:
  assumes "parse_quantifier a ts = Some (b, us)" and "atom vs a"
  shows "\<exists>ws. ts = ws @ us \<and> quantified (vs @ ws) b"
proof (cases ts)
  case (Cons t ts')
  show ?thesis
  proof (cases "t = TOK_LBRACE")
    case True
    then show ?thesis using brace_sound[OF _ assms(2), of ts' b us] assms(1) Cons by (auto simp: parse_quantifier_def)
  next
    case False
    then show ?thesis using assms(1) Cons q_none[OF assms(2)] q_star[OF assms(2)] q_plus[OF assms(2)] q_opt[OF assms(2)]
      by (auto simp: parse_quantifier_def split: if_splits)
  qed
qed (use assms q_none in \<open>auto simp: parse_quantifier_def\<close>)

text \<open>The tokens that a level has read.\<close>

definition open_level :: "token list \<Rightarrow> level_state \<Rightarrow> bool" where
  "open_level us lv \<longleftrightarrow> (\<exists>ua uc. us = ua @ uc
     \<and> (case fst lv of None \<Rightarrow> ua = [] | Some A \<Rightarrow> \<exists>u. ua = u @ [TOK_PIPE] \<and> alternation u A)
     \<and> (case snd lv of None \<Rightarrow> uc = [] | Some C \<Rightarrow> concatenation uc C))"

primrec open_levels :: "token list \<Rightarrow> level_state list \<Rightarrow> level_state \<Rightarrow> bool" where
  "open_levels us [] lv = open_level us lv"
| "open_levels us (up # outer) lv = (\<exists>vs ws. us = vs @ TOK_LPAREN # ws \<and> open_levels vs outer up \<and> open_level ws lv)"

lemma level_close: "open_level us (alts, Some c) \<Longrightarrow> alternation us (close_alt alts c)"
  unfolding open_level_def close_alt_def
  by (cases alts) (auto intro: alt_one simp: alt_pipe)

lemma level_add: "open_level us lv \<Longrightarrow> quantified vs a \<Longrightarrow> open_level (us @ vs) (add_cat lv a)"
proof -
  assume "open_level us lv" and q: "quantified vs a"
  then obtain ua uc where u: "us = ua @ uc" "case fst lv of None \<Rightarrow> ua = [] | Some A \<Rightarrow> \<exists>u. ua = u @ [TOK_PIPE] \<and> alternation u A"
      "case snd lv of None \<Rightarrow> uc = [] | Some C \<Rightarrow> concatenation uc C" unfolding open_level_def by blast
  have "concatenation (uc @ vs) (case snd lv of None \<Rightarrow> a | Some c \<Rightarrow> CONCAT c a)"
    using u(3) cat_one[OF q] cat_more[OF _ q] by (auto split: option.splits)
  then show ?thesis using u(1,2) unfolding open_level_def add_cat_def by (intro exI[of _ ua] exI[of _ "uc @ vs"]) simp
qed

lemma levels_add: "open_levels us outer lv \<Longrightarrow> quantified vs a \<Longrightarrow> open_levels (us @ vs) outer (add_cat lv a)"
proof (cases outer)
  case (Cons up outer')
  assume "open_levels us outer lv" and q: "quantified vs a"
  then obtain ws xs where "us = ws @ TOK_LPAREN # xs" "open_levels ws outer' up" "open_level xs lv" using Cons by auto
  then show ?thesis using Cons level_add[OF _ q] by (simp, intro exI[of _ ws] exI[of _ "xs @ vs"]) simp
qed (simp add: level_add)

lemma level_pipe: "open_level us (alts, Some c) \<Longrightarrow> open_level (us @ [TOK_PIPE]) (Some (close_alt alts c), None)"
  using level_close[of us alts c] unfolding open_level_def[of "us @ [TOK_PIPE]"] by auto

lemma levels_pipe: "open_levels us outer (alts, Some c) \<Longrightarrow> open_levels (us @ [TOK_PIPE]) outer (Some (close_alt alts c), None)"
proof (cases outer)
  case (Cons up outer')
  assume "open_levels us outer (alts, Some c)"
  then obtain ws xs where "us = ws @ TOK_LPAREN # xs" "open_levels ws outer' up" "open_level xs (alts, Some c)" using Cons by auto
  then show ?thesis using Cons level_pipe by (simp, intro exI[of _ ws] exI[of _ "xs @ [TOK_PIPE]"]) simp
qed (simp add: level_pipe)

lemma parse_sound: "parse_tokens outer lv ts = Some a \<Longrightarrow> open_levels us outer lv \<Longrightarrow> alternation (us @ ts) a"
proof (induction "length ts" arbitrary: outer lv ts us rule: less_induct)
  case less
  obtain alts cat where lv: "lv = (alts, cat)" by (cases lv)
  note eq = less.prems(1)[unfolded parse_tokens.simps[of outer lv ts]]
  show ?case
  proof (cases ts)
    case Nil
    then show ?thesis using eq less.prems(2) lv by (auto intro: level_close split: if_splits)
  next
    case (Cons t ts')
    consider (pipe) c where "t = TOK_PIPE" "cat = Some c" "parse_tokens outer (Some (close_alt alts c), None) ts' = Some a"
      | (left) "t = TOK_LPAREN" "parse_tokens (lv # outer) (None, None) ts' = Some a"
      | (right) up outer' c b vs where "t = TOK_RPAREN" "outer = up # outer'" "cat = Some c"
          "parse_quantifier (close_alt alts c) ts' = Some (b, vs)" "parse_tokens outer' (add_cat up b) vs = Some a"
      | (simple) d vs b ws where "parse_simple_atom ts = Some (d, vs)" "parse_quantifier d vs = Some (b, ws)" "parse_tokens outer (add_cat lv b) ws = Some a"
      using eq lv Cons by (auto split: if_splits option.splits list.splits)
    then show ?thesis
    proof cases
      case pipe
      then show ?thesis using less.hyps[OF _ pipe(3) levels_pipe[of us outer alts c]] less.prems(2) lv Cons by simp
    next
      case left
      have "open_levels (us @ [TOK_LPAREN]) (lv # outer) (None, None)"
        using less.prems(2) by (auto simp: open_level_def)
      then show ?thesis using less.hyps[OF _ left(2), of "us @ [TOK_LPAREN]"] left(1) Cons by simp
    next
      case right
      obtain pre ws where p: "us = pre @ TOK_LPAREN # ws" "open_levels pre outer' up" "open_level ws (alts, Some c)"
        using less.prems(2) right(2,3) lv by auto
      have "atom (TOK_LPAREN # ws @ [TOK_RPAREN]) (close_alt alts c)" by (rule a_group[OF level_close[OF p(3)]])
      from quantifier_sound[OF right(4) this] obtain xs where x: "ts' = xs @ vs" "quantified ((TOK_LPAREN # ws @ [TOK_RPAREN]) @ xs) b" by blast
      have "length vs < length ts" using x(1) Cons by simp
      from less.hyps[OF this right(5) levels_add[OF p(2) x(2)]] show ?thesis using p(1) x(1) right(1) Cons by simp
    next
      case simple
      obtain xs where x: "ts = xs @ vs" "atom xs d" using simple_atom_sound[OF simple(1)] by blast
      obtain ys where y: "vs = ys @ ws" "quantified (xs @ ys) b" using quantifier_sound[OF simple(2) x(2)] by blast
      have "length ws < length ts" using x y starts_no_quantifier(4)[OF x(2)] by (cases xs) auto
      from less.hyps[OF this simple(3) levels_add[OF less.prems(2) y(2)]] show ?thesis using x(1) y(1) by simp
    qed
  qed
qed

theorem parse_pattern_iff: "parse_pattern ts = Some a \<longleftrightarrow> alternation ts a"
proof
  assume "parse_pattern ts = Some a"
  then show "alternation ts a" using parse_sound[of "[]" "(None, None)" ts a "[]"] by (simp add: parse_pattern_def open_level_def)
next
  assume a: "alternation ts a"
  have "no_quantifier []" by simp
  from parse_complete(1)[OF a, rule_format, OF this, of "[]"] obtain alts c where
    "parse_tokens [] (None, None) (ts @ []) = parse_tokens [] (alts, Some c) []" "close_alt alts c = a" by blast
  moreover have "parse_tokens [] (alts, Some c) [] = Some (close_alt alts c)" by (subst parse_tokens.simps) simp
  ultimately show "parse_pattern ts = Some a" by (simp add: parse_pattern_def)
qed

end
