(* ===== verification/Like_Translate.thy ===== *)
theory Like_Translate
  imports Regex_Parser_Correct Extract
begin

text \<open>
  \<open>src/query/like_translate.c\<close>: LIKE patterns and plain strings as patterns of the index, and
  what the parser makes of them.
\<close>

definition metacharacters :: "uint8 list" where
  "metacharacters = map bt (CHR 0x5C # ''.*+?()[]{}^$|'')"

definition append_escaped :: "uint8 \<Rightarrow> uint8 list" where
  "append_escaped c = (if c \<in> set metacharacters then [bt CHR 0x5C, c] else [c])"

fun pg_tre_like_to_regex :: "uint8 \<Rightarrow> uint8 list \<Rightarrow> uint8 list" where
  "pg_tre_like_to_regex esc [] = []"
| "pg_tre_like_to_regex esc (c # cs) =
     (if esc \<noteq> 0 \<and> c = esc
      then (case cs of
              [] \<Rightarrow> append_escaped esc
            | d # ds \<Rightarrow> append_escaped d @ pg_tre_like_to_regex esc ds)
      else if c = bt CHR ''%'' then map bt ''.*'' @ pg_tre_like_to_regex esc cs
      else if c = bt CHR ''_'' then bt CHR ''.'' # pg_tre_like_to_regex esc cs
      else append_escaped c @ pg_tre_like_to_regex esc cs)"

definition pg_tre_literal_to_regex :: "uint8 list \<Rightarrow> uint8 list" where
  "pg_tre_literal_to_regex lit = bt CHR ''^'' # concat (map append_escaped lit) @ [bt CHR ''$'']"

section \<open>The meaning of a LIKE pattern\<close>

text \<open>
  The elements of the translated patterns. A LIKE pattern is a sequence of the first three; the
  pattern of a string has anchors around its characters.
\<close>

datatype rx_item = Any_run | Any_one | Char_item uint8 | Start_item | End_item

fun like_items :: "uint8 \<Rightarrow> uint8 list \<Rightarrow> rx_item list" where
  "like_items esc [] = []"
| "like_items esc (c # cs) =
     (if esc \<noteq> 0 \<and> c = esc then (case cs of [] \<Rightarrow> [Char_item esc] | d # ds \<Rightarrow> Char_item d # like_items esc ds)
      else if c = bt CHR ''%'' then Any_run # like_items esc cs
      else if c = bt CHR ''_'' then Any_one # like_items esc cs
      else Char_item c # like_items esc cs)"

text \<open>LIKE over a text of characters: \<open>%\<close> is any run, \<open>_\<close> any character, the rest itself.\<close>

fun like_match :: "rx_item list \<Rightarrow> int list \<Rightarrow> bool" where
  "like_match [] s \<longleftrightarrow> s = []"
| "like_match (Any_run # is) s \<longleftrightarrow> (\<exists>u v. s = u @ v \<and> like_match is v)"
| "like_match (Any_one # is) s \<longleftrightarrow> (\<exists>c v. s = c # v \<and> like_match is v)"
| "like_match (Char_item b # is) s \<longleftrightarrow> (\<exists>v. s = uint b # v \<and> like_match is v)"
| "like_match (Start_item # is) s \<longleftrightarrow> like_match is s"
| "like_match (End_item # is) s \<longleftrightarrow> s = [] \<and> like_match is s"

section \<open>The items as bytes, tokens and trees\<close>

primrec item_bytes :: "rx_item \<Rightarrow> uint8 list" where
  "item_bytes Any_run = map bt ''.*''"
| "item_bytes Any_one = [bt CHR ''.'']"
| "item_bytes (Char_item c) = append_escaped c"
| "item_bytes Start_item = [bt CHR ''^'']"
| "item_bytes End_item = [bt CHR ''$'']"

primrec item_tokens :: "rx_item \<Rightarrow> token list" where
  "item_tokens Any_run = [TOK_DOT, TOK_STAR]"
| "item_tokens Any_one = [TOK_DOT]"
| "item_tokens (Char_item c) = [TOK_LITERAL (uint c)]"
| "item_tokens Start_item = [TOK_ANCHOR_START]"
| "item_tokens End_item = [TOK_ANCHOR_END]"

primrec item_ast :: "rx_item \<Rightarrow> RegexAst" where
  "item_ast Any_run = REP ANY 0 (- 1)"
| "item_ast Any_one = ANY"
| "item_ast (Char_item c) = LITERAL (uint c)"
| "item_ast Start_item = ANCHOR REGEX_ANCHOR_START"
| "item_ast End_item = ANCHOR REGEX_ANCHOR_END"

definition items_ast :: "rx_item list \<Rightarrow> RegexAst" where
  "items_ast is = foldl CONCAT (item_ast (hd is)) (map item_ast (tl is))"

lemma like_to_regex_items: "pg_tre_like_to_regex esc p = concat (map item_bytes (like_items esc p))"
  by (induction esc p rule: like_items.induct) (auto split: list.splits)

lemma literal_to_regex_items:
  "pg_tre_literal_to_regex lit = concat (map item_bytes (Start_item # map Char_item lit @ [End_item]))"
proof -
  have "map (\<lambda>c. item_bytes (Char_item c)) lit = map append_escaped lit" by simp
  then show ?thesis by (simp add: pg_tre_literal_to_regex_def comp_def)
qed

section \<open>Tokens\<close>

text \<open>The tokenizer outside brackets and braces, at a position of a pattern.\<close>

definition plain_at :: "uint8 list \<Rightarrow> nat \<Rightarrow> TokenizerState" where
  "plain_at s p = (init_tokenizer s)\<lparr> ts_pos := p \<rparr>"

lemma plain_at_simps [simp]:
  "ts_input (plain_at s p) = s" "ts_pos (plain_at s p) = p" "ts_mode (plain_at s p) = MODE_NORMAL" "ts_pending (plain_at s p) = None"
  "force_always_true (plain_at s p) = False" "(plain_at s p)\<lparr> ts_pos := q \<rparr> = plain_at s q"
  by (simp_all add: plain_at_def init_tokenizer_def)

lemma sint_byte: "\<not> bit (b :: uint8) 7 \<Longrightarrow> sint (ucast b :: uint32) = uint b"
proof -
  have u: "uint (ucast b :: uint32) = uint b"
    using uint_lt2p[of b] by (simp add: unsigned_ucast_eq take_bit_int_eq_self)
  have "\<not> bit (uint (ucast b :: uint32)) 31" unfolding u using uint_lt2p[of b] by (simp add: bit_uint_iff)
  then show ?thesis using u by (simp add: sint_uint signed_take_bit_eq_if_positive take_bit_int_eq_self_iff) (use uint_lt2p[of b] in simp)
qed

lemma next_char_ascii:
  assumes "\<not> bit b 7"
  shows "next_char enc (plain_at (pre @ b # rest) (length pre)) = ret (uint b, plain_at (pre @ b # rest) (Suc (length pre)))"
proof -
  have "pg_tre_cpstream_next enc (pg_tre_cpstream_init (b # rest)) = ret (uint b, \<lparr> src = b # rest, src_pos = 1 \<rparr>)"
    using sint_byte[OF assms] assms by (simp add: pg_tre_cpstream_next_def pg_tre_cpstream_init_def pg_tre_decode_char_def)
  then show ?thesis by (simp add: next_char_def)
qed

lemma plain_step:
  assumes "\<not> bit b 7"
  shows "tre_tokenize_next enc (plain_at (pre @ b # rest) (length pre)) = token_normal enc (uint b) (plain_at (pre @ b # rest) (Suc (length pre)))"
  using next_char_ascii[OF assms, of enc pre rest] by (simp add: tre_tokenize_next_def)

lemma tokenize_step:
  assumes "tre_tokenize_next enc ts = ret (Tok t, ts1)" and "tokenize_from enc ts1 = ret (Some toks, force)"
  shows "tokenize_from enc ts = ret (Some (t # toks), force)"
  using assms by (subst tokenize_from.simps) simp

lemma escape_step:
  assumes "c \<in> set metacharacters"
  shows "parse_escape enc (plain_at (pre @ c # rest) (length pre)) = ret (Inr (Esc_char (uint c), plain_at (pre @ c # rest) (Suc (length pre))))"
proof -
  have "\<not> bit c 7 \<and> uint c \<in> set escaped_literals \<and> uint c \<notin> {110, 116, 114}"
    using assms by (auto simp: metacharacters_def escaped_literals_def bit_iff_odd_drop_bit drop_bit_eq_div)
  then show ?thesis using next_char_ascii[of c enc pre rest] by (simp add: parse_escape_def)
qed

lemma literal_step:
  assumes "\<not> bit c 7" and "c \<notin> set metacharacters"
  shows "token_normal enc (uint c) ts = ret (Tok (TOK_LITERAL (uint c)), ts)"
  using assms(2) by (simp add: token_normal_def metacharacters_def word_uint_eq_iff)

definition item_ascii :: "rx_item \<Rightarrow> bool" where
  "item_ascii i \<longleftrightarrow> (case i of Char_item c \<Rightarrow> \<not> bit c 7 | _ \<Rightarrow> True)"

lemma ascii_consts: "\<not> bit (46 :: uint8) 7" "\<not> bit (42 :: uint8) 7" "\<not> bit (92 :: uint8) 7" "\<not> bit (94 :: uint8) 7" "\<not> bit (36 :: uint8) 7"
  by (simp_all add: bit_iff_odd_drop_bit drop_bit_eq_div)

lemma plain_item:
  assumes "item_ascii i" and "rest = [] \<or> hd rest \<noteq> 63"
    and "tokenize_from enc (plain_at (pre @ item_bytes i @ rest) (length (pre @ item_bytes i))) = ret (Some toks, force)"
  shows "tokenize_from enc (plain_at (pre @ item_bytes i @ rest) (length pre)) = ret (Some (item_tokens i @ toks), force)"
proof (cases i)
  case Any_run
  let ?s = "(pre @ [46]) @ 42 # rest"
  have "skip_lazy (plain_at ?s (Suc (length (pre @ [46])))) = plain_at ?s (Suc (length (pre @ [46])))"
    using assms(2) by (cases rest) (auto simp: skip_lazy_def byte_at_def nth_append)
  then have "tre_tokenize_next enc (plain_at ?s (length (pre @ [46]))) = ret (Tok TOK_STAR, plain_at ?s (Suc (length (pre @ [46]))))"
    using plain_step[OF ascii_consts(2), of enc "pre @ [46]" rest] by (simp add: token_normal_def)
  moreover have "tokenize_from enc (plain_at ?s (Suc (length (pre @ [46])))) = ret (Some toks, force)" using assms(3) Any_run by simp
  ultimately have "tokenize_from enc (plain_at ?s (length (pre @ [46]))) = ret (Some (TOK_STAR # toks), force)" by (rule tokenize_step)
  moreover have "tre_tokenize_next enc (plain_at ?s (length pre)) = ret (Tok TOK_DOT, plain_at ?s (Suc (length pre)))"
    using plain_step[OF ascii_consts(1), of enc pre "42 # rest"] by (simp add: token_normal_def)
  ultimately show ?thesis using tokenize_step Any_run by simp
next
  case Any_one
  have "tre_tokenize_next enc (plain_at (pre @ 46 # rest) (length pre)) = ret (Tok TOK_DOT, plain_at (pre @ 46 # rest) (Suc (length pre)))"
    using plain_step[OF ascii_consts(1), of enc pre rest] by (simp add: token_normal_def)
  then show ?thesis using tokenize_step assms(3) Any_one by simp
next
  case (Char_item c)
  then have c: "\<not> bit c 7" using assms(1) by (simp add: item_ascii_def)
  show ?thesis
  proof (cases "c \<in> set metacharacters")
    case True
    have "tre_tokenize_next enc (plain_at (pre @ 92 # c # rest) (length pre)) = ret (Tok (TOK_LITERAL (uint c)), plain_at (pre @ 92 # c # rest) (Suc (Suc (length pre))))"
      using plain_step[OF ascii_consts(3), of enc pre "c # rest"] escape_step[OF True, of enc "pre @ [92]" rest] by (simp add: token_normal_def)
    then show ?thesis using tokenize_step assms(3) Char_item True by (simp add: append_escaped_def)
  next
    case False
    then show ?thesis using tokenize_step[OF plain_step[OF c, unfolded literal_step[OF c False]], of enc pre rest toks force] assms(3) Char_item
      by (simp add: append_escaped_def)
  qed
next
  case Start_item
  have "tre_tokenize_next enc (plain_at (pre @ 94 # rest) (length pre)) = ret (Tok TOK_ANCHOR_START, plain_at (pre @ 94 # rest) (Suc (length pre)))"
    using plain_step[OF ascii_consts(4), of enc pre rest] by (simp add: token_normal_def)
  then show ?thesis using tokenize_step assms(3) Start_item by simp
next
  case End_item
  have "tre_tokenize_next enc (plain_at (pre @ 36 # rest) (length pre)) = ret (Tok TOK_ANCHOR_END, plain_at (pre @ 36 # rest) (Suc (length pre)))"
    using plain_step[OF ascii_consts(5), of enc pre rest] by (simp add: token_normal_def)
  then show ?thesis using tokenize_step assms(3) End_item by simp
qed

lemma item_bytes_head: "item_bytes i \<noteq> [] \<and> hd (item_bytes i) \<noteq> 63"
  by (cases i) (auto simp: append_escaped_def metacharacters_def)

lemma tokenize_items_at:
  assumes "\<forall>i \<in> set is. item_ascii i"
  shows "tokenize_from enc (plain_at (pre @ concat (map item_bytes is)) (length pre)) = ret (Some (concat (map item_tokens is)), False)"
  using assms
proof (induction "is" arbitrary: pre)
  case Nil
  then show ?case by (subst tokenize_from.simps) (simp add: tre_tokenize_next_def)
next
  case (Cons i "is")
  let ?rest = "concat (map item_bytes is)"
  have "?rest = [] \<or> hd ?rest \<noteq> 63"
    using item_bytes_head by (cases "is") (auto simp: hd_append)
  moreover have "tokenize_from enc (plain_at ((pre @ item_bytes i) @ ?rest) (length (pre @ item_bytes i))) = ret (Some (concat (map item_tokens is)), False)"
    using Cons.IH[of "pre @ item_bytes i"] Cons.prems by simp
  ultimately show ?case using plain_item[of i ?rest enc pre "concat (map item_tokens is)" False] Cons.prems by simp
qed

section \<open>Trees\<close>

lemma item_quantified: "quantified (item_tokens i) (item_ast i)"
proof (cases i)
  case Any_run
  have "quantified ([TOK_DOT] @ [TOK_STAR]) (REP ANY 0 (- 1))" by (intro q_star a_any)
  then show ?thesis using Any_run by simp
qed (auto intro: q_none a_any a_literal a_start a_end)

lemma items_concatenation:
  "concatenation ts a \<Longrightarrow> concatenation (ts @ concat (map item_tokens is)) (foldl CONCAT a (map item_ast is))"
proof (induction "is" arbitrary: ts a)
  case (Cons i "is")
  from Cons.IH[OF cat_more[OF Cons.prems item_quantified[of i]]] show ?case by simp
qed simp

theorem parse_items:
  assumes "is \<noteq> []" and "\<forall>i \<in> set is. item_ascii i"
  shows "tre_parse_regex enc (concat (map item_bytes is)) = ret (Some (items_ast is), False)"
proof -
  obtain i js where i: "is = i # js" using assms(1) by (cases "is") auto
  have "alternation (concat (map item_tokens is)) (items_ast is)"
    using items_concatenation[OF cat_one[OF item_quantified[of i]], of js] i by (auto simp: items_ast_def intro: alt_one)
  then have "parse_pattern (concat (map item_tokens is)) = Some (items_ast is)" by (simp add: parse_pattern_iff)
  then show ?thesis using tokenize_items_at[OF assms(2), of enc "[]"]
    by (simp add: tre_parse_regex_def tokenize_def plain_at_def init_tokenizer_def)
qed

section \<open>Matches\<close>

lemma any_star: "rx_match (REP ANY 0 (- 1)) b e s"
proof -
  have "iter_match (rx_match ANY) (length s) b e s" for b
  proof (induction s arbitrary: b)
    case (Cons c s)
    show ?case unfolding length_Cons iter_match.simps
      by (rule exI[of _ "[c]"], rule exI[of _ s]) (simp add: Cons.IH)
  qed simp
  then show ?thesis by (auto intro: exI[of _ "length s"])
qed

text \<open>The part of the text that the first item of a matching sequence stands for.\<close>

lemma like_match_first:
  assumes "like_match (i # is) s"
  shows "\<exists>u v. s = u @ v \<and> like_match is v \<and> rx_match (item_ast i) (i = Start_item \<or> b) (v = []) u"
proof (cases i)
  case Any_run
  then obtain u v where "s = u @ v" "like_match is v" using assms by auto
  then show ?thesis using Any_run any_star by (metis item_ast.simps(1))
next
  case Any_one
  then obtain c v where "s = c # v" "like_match is v" using assms by auto
  then show ?thesis using Any_one by (intro exI[of _ "[c]"] exI[of _ v]) simp
next
  case (Char_item c)
  then obtain v where "s = uint c # v" "like_match is v" using assms by auto
  then show ?thesis using Char_item by (intro exI[of _ "[uint c]"] exI[of _ v]) simp
qed (use assms in auto)

lemma items_match:
  "like_match is s \<Longrightarrow> Start_item \<notin> set is \<Longrightarrow> rx_match a True (s = []) u \<Longrightarrow> rx_match (foldl CONCAT a (map item_ast is)) True True (u @ s)"
proof (induction "is" arbitrary: a u s)
  case (Cons i "is")
  from like_match_first[OF Cons.prems(1), of "u = []"] Cons.prems(2) obtain v w where
    vw: "s = v @ w" "like_match is w" "rx_match (item_ast i) (u = []) (w = []) v" by auto
  have "rx_match (CONCAT a (item_ast i)) True (w = []) (u @ v)"
    unfolding rx_match.simps using vw Cons.prems(3) by (intro exI[of _ u] exI[of _ v]) (simp add: conj_commute)
  from Cons.IH[OF vw(2) _ this] Cons.prems(2) vw(1) show ?case by simp
qed simp

lemma like_row_match:
  assumes "is \<noteq> []" and "Start_item \<notin> set (tl is)" and "like_match is s"
  shows "row_match (items_ast is) s"
proof -
  obtain i js where i: "is = i # js" using assms(1) by (cases "is") auto
  from like_match_first[of i js s True] assms(3) i obtain u v where
    "s = u @ v" "like_match js v" "rx_match (item_ast i) True (v = []) u" by auto
  then have "rx_match (items_ast is) True True s" using items_match[of js v "item_ast i" u] assms(2) i by (simp add: items_ast_def)
  then show ?thesis by (intro row_matchI[of _ "[]" "[]"]) simp_all
qed

lemma items_exact: "exact_ast a \<and> rep_exact a \<Longrightarrow> exact_ast (foldl CONCAT a (map item_ast is)) \<and> rep_exact (foldl CONCAT a (map item_ast is))"
proof (induction "is" arbitrary: a)
  case (Cons i "is")
  then show ?case by (cases i) auto
qed simp

theorem items_query_complete:
  assumes "is \<noteq> []" and "Start_item \<notin> set (tl is)" and "like_match is s" and "max_cost \<le> 0"
  shows "tq_accepts (regex_extract_query hf fanout mcl (items_ast is) max_cost) (text_hashes hf s)"
proof -
  have "exact_ast (item_ast i) \<and> rep_exact (item_ast i)" for i by (cases i) auto
  then have "exact_ast (items_ast is)" "rep_exact (items_ast is)" using items_exact unfolding items_ast_def by blast+
  then show ?thesis using extract_exact_sound[OF _ assms(4) _ like_row_match[OF assms(1-3)]] by blast
qed

lemma like_items_plain: "Start_item \<notin> set (like_items esc p)" "(like_items esc p = []) = (p = [])"
  by (induction esc p rule: like_items.induct) (auto split: list.splits)

lemma like_items_ascii: "\<forall>b \<in> set p. \<not> bit b 7 \<Longrightarrow> \<forall>i \<in> set (like_items esc p). item_ascii i"
  by (induction esc p rule: like_items.induct) (auto simp: item_ascii_def split: list.splits)

lemma literal_match: "like_match (Start_item # map Char_item lit @ [End_item]) (map uint lit)"
  by (induction lit) simp_all

end
