(* ===== verification/Scan_Am.thy ===== *)
theory Scan_Am
  imports Scan Like_Translate
begin

text \<open>
  \<open>src/am/amscan.c\<close>: the entry points of a scan that the server calls. The scan keys become a
  trigram query, and the candidates become a bitmap of rows, or a list of rows in the order of
  their distance to the pattern.
\<close>

section \<open>Preparing the query\<close>

text \<open>A scan key: its operator, the text of its argument, and the budget of a \<open>tre_pattern\<close>.\<close>

record ScanKey =
  sk_strategy :: int
  sk_text :: "uint8 list"
  sk_max_cost :: int

definition PG_TRE_STRATEGY_APPROX_MATCH :: int where "PG_TRE_STRATEGY_APPROX_MATCH = 1"
definition PG_TRE_STRATEGY_DISTANCE :: int where "PG_TRE_STRATEGY_DISTANCE = 2"
definition PG_TRE_STRATEGY_LIKE :: int where "PG_TRE_STRATEGY_LIKE = 3"
definition PG_TRE_STRATEGY_ILIKE :: int where "PG_TRE_STRATEGY_ILIKE = 4"
definition PG_TRE_STRATEGY_REGEX :: int where "PG_TRE_STRATEGY_REGEX = 5"
definition PG_TRE_STRATEGY_IREGEX :: int where "PG_TRE_STRATEGY_IREGEX = 6"
definition PG_TRE_STRATEGY_EQUAL :: int where "PG_TRE_STRATEGY_EQUAL = 7"

lemmas strategy_defs = PG_TRE_STRATEGY_APPROX_MATCH_def PG_TRE_STRATEGY_DISTANCE_def PG_TRE_STRATEGY_LIKE_def
  PG_TRE_STRATEGY_ILIKE_def PG_TRE_STRATEGY_REGEX_def PG_TRE_STRATEGY_IREGEX_def PG_TRE_STRATEGY_EQUAL_def

text \<open>One row of the ordered result.\<close>

record OrderEntry =
  packed_tid :: uint64
  entry_dist :: int

record TreScanState =
  st_q :: TrigramQuery
  query_valid :: bool
  knn_ready :: bool
  knn_entries :: "OrderEntry list"
  knn_pos :: nat
  knn_markpos :: int

definition pg_tre_ambeginscan :: TreScanState where
  "pg_tre_ambeginscan = \<lparr> st_q = tq_zero, query_valid = False, knn_ready = False, knn_entries = [], knn_pos = 0, knn_markpos = - 1 \<rparr>"

text \<open>What the compilation of a pattern depends on: the encoding, the hash and two settings.\<close>

record query_env =
  qe_encoding :: encoding
  qe_hash :: hashfn
  qe_fanout :: int
  qe_max_char_len :: int

text \<open>A C string ends at its first zero byte.\<close>

definition c_string :: "uint8 list \<Rightarrow> uint8 list" where
  "c_string s = takeWhile (\<lambda>b. b \<noteq> 0) s"

definition key_pattern :: "ScanKey \<Rightarrow> uint8 list \<times> int" where
  "key_pattern sk =
     (if sk_strategy sk = PG_TRE_STRATEGY_APPROX_MATCH \<or> sk_strategy sk = PG_TRE_STRATEGY_DISTANCE then (sk_text sk, sk_max_cost sk)
      else if sk_strategy sk = PG_TRE_STRATEGY_LIKE \<or> sk_strategy sk = PG_TRE_STRATEGY_ILIKE
      then (c_string (pg_tre_like_to_regex (bt CHR 0x5C) (sk_text sk)), 0)
      else if sk_strategy sk = PG_TRE_STRATEGY_REGEX \<or> sk_strategy sk = PG_TRE_STRATEGY_IREGEX then (sk_text sk, 0)
      else if sk_strategy sk = PG_TRE_STRATEGY_EQUAL then (c_string (pg_tre_literal_to_regex (sk_text sk)), 0)
      else ([], 0))"

text \<open>The query of a pattern; one that the parser does not understand accepts every row.\<close>

definition pattern_query :: "query_env \<Rightarrow> RegexAst option \<Rightarrow> int \<Rightarrow> TrigramQuery" where
  "pattern_query qe ast max_cost =
     (case ast of
        None \<Rightarrow> tq_zero\<lparr> always_true := True, global_max_cost := max_cost, mode := TRIGRAM_QUERY_CNF \<rparr>
      | Some root \<Rightarrow> regex_extract_query (qe_hash qe) (qe_fanout qe) (qe_max_char_len qe) root max_cost)"

definition pg_tre_amrescan :: "query_env \<Rightarrow> ScanKey list \<Rightarrow> ScanKey list \<Rightarrow> TreScanState \<Rightarrow> TreScanState outcome" where
  "pg_tre_amrescan qe keys orderbys st =
     (let st0 = st\<lparr> query_valid := False, knn_ready := False, knn_entries := [], knn_pos := 0, knn_markpos := - 1 \<rparr>;
          sk = (if keys \<noteq> [] then hd keys else hd orderbys)
      in if keys = [] \<and> orderbys = [] then raise Scan_requires_key
         else if keys \<noteq> [] \<and> sk_strategy sk \<notin> set [PG_TRE_STRATEGY_APPROX_MATCH, PG_TRE_STRATEGY_LIKE, PG_TRE_STRATEGY_ILIKE,
                PG_TRE_STRATEGY_REGEX, PG_TRE_STRATEGY_IREGEX, PG_TRE_STRATEGY_EQUAL]
         then raise (Unsupported_scan_strategy (sk_strategy sk))
         else if keys = [] \<and> sk_strategy sk \<noteq> PG_TRE_STRATEGY_DISTANCE then raise (Unsupported_orderby_strategy (sk_strategy sk))
         else
           let (pattern, max_cost) = key_pattern sk
           in andThen (tre_parse_regex (qe_encoding qe) pattern) (\<lambda>(ast, force).
                let q = pattern_query qe ast max_cost
                in ret (st0\<lparr> query_valid := True,
                     st_q := (if sk_strategy sk = PG_TRE_STRATEGY_ILIKE \<or> sk_strategy sk = PG_TRE_STRATEGY_IREGEX \<or> force
                              then q\<lparr> always_true := True \<rparr> else q) \<rparr>)))"

section \<open>The range prefilter\<close>

definition pg_tre_surf_prefilter_rejects :: "bitutils \<Rightarrow> tre_index \<Rightarrow> TrigramQuery \<Rightarrow> bool outcome" where
  "pg_tre_surf_prefilter_rejects bu idx q =
     (if \<not> has_surf_range q then ret False
      else if always_true q then ret False
      else andThen (pg_tre_meta_read idx) (\<lambda>m.
        if root_surf m = InvalidBlockNumber then ret False
        else if surf_complete m = 0 \<or> pending_head m \<noteq> InvalidBlockNumber then ret False
        else andThen (pg_tre_surf_read bu idx (root_surf m)) (\<lambda>s.
          case s of
            None \<Rightarrow> ret False
          | Some surf \<Rightarrow> ret (\<not> pg_tre_surf_range_overlaps bu surf (surf_lo q) (surf_hi q)))))"

section \<open>The bitmap\<close>

text \<open>What a scan puts into the server's bitmap: a whole block, or rows with a flag for the recheck.\<close>

datatype tbm_add = Tbm_page BlockNumber | Tbm_tuples "ItemPointer list" bool

text \<open>The members of a map in increasing order, as its cursor yields them; the all-ones word ends the iteration.\<close>

definition sm_members :: "sm \<Rightarrow> uint64 list" where
  "sm_members a = filter (\<lambda>i. i \<noteq> - 1) (sorted_list_of_set a)"

definition pg_tre_amgetbitmap ::
    "scan_env \<Rightarrow> (nat \<Rightarrow> tre_index) \<Rightarrow> tre_index \<Rightarrow> nat \<Rightarrow> TreScanState \<Rightarrow> (nat \<times> tbm_add list) outcome" where
  "pg_tre_amgetbitmap env view idx nblocks st =
     (if \<not> query_valid st then raise Getbitmap_without_rescan
      else andThen (pg_tre_surf_prefilter_rejects (sc_bits env) (view 0) (st_q st)) (\<lambda>rejects.
        if rejects then ret (0, [])
        else if always_true (st_q st) then ret (nblocks, map (\<lambda>b. Tbm_page (word_of_nat b)) [0..<nblocks])
        else andThen (tre_compute_candidate_sm env view idx (st_q st)) (\<lambda>(all, result).
          case result of
            None \<Rightarrow> ret (0, [])
          | Some a \<Rightarrow>
              if card a > 0
              then let tids = map (pg_tre_unpack_tid (sc_max_tuples env) (sc_packing env)) (sm_members a)
                   in ret (length tids, [Tbm_tuples tids True])
              else ret (0, []))))"

section \<open>Rows in the order of their distance\<close>

text \<open>
  The table as the scan sees it. \<open>heap_rows\<close> are the visible rows in the order of a sequential
  scan: the row's own identifier, whether it is a heap-only tuple, and its text unless null;
  \<open>heap_fetch\<close> reads the row with an identifier, if that is visible; \<open>root_offset\<close> is the map of
  \<open>heap_get_root_tuples\<close>, 0 where a tuple has no root; \<open>do_match\<close> matches a text with the pattern
  of the ORDER BY, giving its cost, and raises when the match takes too long.
\<close>

record heap_env =
  heap_rows :: "(ItemPointer \<times> bool \<times> uint8 list option) list"
  heap_fetch :: "ItemPointer \<Rightarrow> uint8 list option option"
  root_offset :: "uint32 \<Rightarrow> uint16 \<Rightarrow> uint16"
  do_match :: "uint8 list \<Rightarrow> int option outcome"

definition knn_entry_cmp :: "OrderEntry \<Rightarrow> OrderEntry \<Rightarrow> int" where
  "knn_entry_cmp a b =
     (if entry_dist a \<noteq> entry_dist b then (if entry_dist a < entry_dist b then - 1 else 1)
      else if packed_tid a < packed_tid b then - 1
      else if packed_tid a > packed_tid b then 1
      else 0)"

text \<open>Sorting with this comparison: by identifier, then stably by distance.\<close>

definition knn_sort :: "OrderEntry list \<Rightarrow> OrderEntry list" where
  "knn_sort es = sort_key entry_dist (sort_key packed_tid es)"

text \<open>The identifier under which the server finds a row: that of the root of its chain of updates.\<close>

definition chain_root :: "heap_env \<Rightarrow> ItemPointer \<Rightarrow> bool \<Rightarrow> ItemPointer" where
  "chain_root hp tid heap_only =
     (if heap_only
      then let off = root_offset hp (ip_blkid tid) (ip_posid tid) in if off \<noteq> 0 then tid\<lparr> ip_posid := off \<rparr> else tid
      else tid)"

text \<open>The distance of a row, \<open>None\<close> for a row that is left out; 0 without an ORDER BY.\<close>

definition row_distance :: "heap_env \<Rightarrow> bool \<Rightarrow> uint8 list option \<Rightarrow> int option outcome" where
  "row_distance hp have_orderby body =
     (if \<not> have_orderby then ret (Some 0) else case body of None \<Rightarrow> ret None | Some b \<Rightarrow> do_match hp b)"

definition knn_heap_row ::
    "scan_env \<Rightarrow> heap_env \<Rightarrow> bool \<Rightarrow> ItemPointer \<times> bool \<times> uint8 list option \<Rightarrow> OrderEntry list \<Rightarrow> OrderEntry list outcome" where
  "knn_heap_row env hp have_orderby = (\<lambda>(tid, heap_only, body) es.
     andThen (row_distance hp have_orderby body) (\<lambda>d.
       case d of
         None \<Rightarrow> ret es
       | Some dist \<Rightarrow>
           (case pg_tre_pack_tid (sc_max_tuples env) (sc_packing env) (chain_root hp tid heap_only) of
              Inl (Tid_offset_exceeds off) \<Rightarrow> raise (Tid_offset_beyond_page off)
            | Inr p \<Rightarrow> ret (es @ [\<lparr> packed_tid = p, entry_dist = dist \<rparr>]))))"

definition knn_candidate :: "scan_env \<Rightarrow> heap_env \<Rightarrow> bool \<Rightarrow> uint64 \<Rightarrow> OrderEntry list \<Rightarrow> OrderEntry list outcome" where
  "knn_candidate env hp have_orderby t es =
     andThen (if have_orderby
              then (case heap_fetch hp (pg_tre_unpack_tid (sc_max_tuples env) (sc_packing env) t) of
                      None \<Rightarrow> ret None
                    | Some body \<Rightarrow> row_distance hp True body)
              else ret (Some 0)) (\<lambda>d.
       case d of None \<Rightarrow> ret es | Some dist \<Rightarrow> ret (es @ [\<lparr> packed_tid = t, entry_dist = dist \<rparr>]))"

definition knn_build ::
    "scan_env \<Rightarrow> heap_env \<Rightarrow> (nat \<Rightarrow> tre_index) \<Rightarrow> tre_index \<Rightarrow> bool \<Rightarrow> TreScanState \<Rightarrow> TreScanState outcome" where
  "knn_build env hp view idx have_orderby st =
     (if \<not> query_valid st then raise Gettuple_without_rescan
      else andThen (pg_tre_surf_prefilter_rejects (sc_bits env) (view 0) (st_q st)) (\<lambda>rejects.
        if rejects then ret (st\<lparr> knn_entries := [], knn_pos := 0, knn_ready := True \<rparr>)
        else andThen (tre_compute_candidate_sm env view idx (st_q st)) (\<lambda>(all, result).
          andThen (if all then ofold (knn_heap_row env hp have_orderby) (heap_rows hp) []
                   else case result of
                          None \<Rightarrow> ret []
                        | Some a \<Rightarrow> if card a > 0 then ofold (knn_candidate env hp have_orderby) (sm_members a) [] else ret []) (\<lambda>es.
            ret (st\<lparr> knn_entries := (if have_orderby then knn_sort es else es), knn_pos := 0, knn_ready := True \<rparr>)))))"

text \<open>
  The next row: its identifier and, with an ORDER BY, its distance. \<open>forward\<close> is the direction
  the server asks for.
\<close>

definition pg_tre_amgettuple ::
    "scan_env \<Rightarrow> heap_env \<Rightarrow> (nat \<Rightarrow> tre_index) \<Rightarrow> tre_index \<Rightarrow> bool \<Rightarrow> bool \<Rightarrow> TreScanState
      \<Rightarrow> ((ItemPointer \<times> int option) option \<times> TreScanState) outcome" where
  "pg_tre_amgettuple env hp view idx have_orderby forward_dir st =
     (if \<not> forward_dir then raise Backward_scan
      else andThen (if knn_ready st then ret st else knn_build env hp view idx have_orderby st) (\<lambda>st1.
        if knn_pos st1 \<ge> length (knn_entries st1) then ret (None, st1)
        else let e = knn_entries st1 ! knn_pos st1
             in ret (Some (pg_tre_unpack_tid (sc_max_tuples env) (sc_packing env) (packed_tid e),
                           if have_orderby then Some (entry_dist e) else None),
                     st1\<lparr> knn_pos := knn_pos st1 + 1 \<rparr>)))"

definition pg_tre_ammarkpos :: "TreScanState \<Rightarrow> TreScanState" where
  "pg_tre_ammarkpos st = st\<lparr> knn_markpos := (if knn_ready st then int (knn_pos st) else - 1) \<rparr>"

definition pg_tre_amrestrpos :: "TreScanState \<Rightarrow> TreScanState" where
  "pg_tre_amrestrpos st = (if knn_markpos st \<ge> 0 then st\<lparr> knn_pos := nat (knn_markpos st) \<rparr> else st)"

end
