(* ===== verification/Build.thy ===== *)
theory Build
  imports Posting Surf_Page
begin

text \<open>
  \<open>src/am/ambuild.c\<close>, the serial build from the sorted stream on: the entries of the sort, one
  posting per distinct trigram, the upper tree and the range filter. The sort itself is
  PostgreSQL's; a stream is the list of entries it returns.
\<close>

section \<open>Sort entries\<close>

definition put_be64 :: "uint64 \<Rightarrow> uint8 list" where
  "put_be64 w = map (\<lambda>s. ucast (drop_bit s w)) [56, 48, 40, 32, 24, 16, 8, 0]"

definition get_be64 :: "uint8 list \<Rightarrow> uint64" where
  "get_be64 bs = push_bit 56 (ucast (bs ! 0)) OR push_bit 48 (ucast (bs ! 1)) OR push_bit 40 (ucast (bs ! 2))
     OR push_bit 32 (ucast (bs ! 3)) OR push_bit 24 (ucast (bs ! 4)) OR push_bit 16 (ucast (bs ! 5))
     OR push_bit 8 (ucast (bs ! 6)) OR ucast (bs ! 7)"

definition encode_entry :: "uint64 \<Rightarrow> uint64 \<Rightarrow> uint64 \<Rightarrow> uint8 list" where
  "encode_entry h tid key = put_be64 h @ put_be64 tid @ put_be64 key"

definition decode_entry :: "uint8 list \<Rightarrow> uint64 \<times> uint64 \<times> uint64" where
  "decode_entry buf = (get_be64 buf, get_be64 (drop 8 buf), get_be64 (drop 16 buf))"

section \<open>Postings\<close>

text \<open>The output of the posting phase; an entry of \<open>accums\<close> is what the upper tree's loader is given.\<close>

record PostingOut =
  accums :: "upper_item list"
  surf_keys :: "uint64 list"
  n_skipped :: nat

definition posting_out_init :: PostingOut where
  "posting_out_init = \<lparr> accums = [], surf_keys = [], n_skipped = 0 \<rparr>"

definition posting_out_add :: "uint64 \<Rightarrow> BlockNumber \<Rightarrow> uint8 list \<Rightarrow> nat \<Rightarrow> PostingOut \<Rightarrow> PostingOut" where
  "posting_out_add h root inline_data inline_n out =
     out\<lparr> accums := accums out @ [\<lparr> it_hash = h, it_root = root, it_data = inline_data, it_bytes = inline_n \<rparr>] \<rparr>"

definition posting_out_add_key :: "uint64 \<Rightarrow> PostingOut \<Rightarrow> PostingOut" where
  "posting_out_add_key key out = out\<lparr> surf_keys := surf_keys out @ [key] \<rparr>"

definition finish_posting :: "sm_lib \<Rightarrow> nat \<Rightarrow> nat \<Rightarrow> uint64 \<Rightarrow> PgTrePostingBuilder \<Rightarrow> PostingOut \<times> build_state
    \<Rightarrow> (PostingOut \<times> build_state) outcome" where
  "finish_posting lib blcksz min_freq h b = (\<lambda>(out, st).
     if min_freq > 1 \<and> pg_tre_posting_build_n_tids b < min_freq then ret (out\<lparr> n_skipped := n_skipped out + 1 \<rparr>, st)
     else andThen (pg_tre_posting_build_finish_ex lib blcksz b st) (\<lambda>(fin, st').
       case fin_coalesced fin of
         Some (cblk, cslot) \<Rightarrow> ret (posting_out_add h cblk [] (unat (PG_TRE_COALESCED_FLAG OR ucast cslot)) out, st')
       | None \<Rightarrow> ret (posting_out_add h (fin_root fin) (case fin_inline fin of None \<Rightarrow> [] | Some d \<Rightarrow> d) (fin_bytes fin) out, st')))"

text \<open>What the readout of the sort keeps: the open builder with its trigram, and the last identifier added.\<close>

record readout =
  ro_builder :: "(uint64 \<times> PgTrePostingBuilder) option"
  ro_last :: uint64
  ro_out :: PostingOut
  ro_state :: build_state

definition start_trigram :: "sm_lib \<Rightarrow> nat \<Rightarrow> nat \<Rightarrow> PgTreTidPacking \<Rightarrow> uint64 \<Rightarrow> uint64 \<Rightarrow> readout \<Rightarrow> readout outcome" where
  "start_trigram lib blcksz min_freq pk h key ro =
     andThen (case ro_builder ro of
                Some (cur, b) \<Rightarrow> finish_posting lib blcksz min_freq cur b (ro_out ro, ro_state ro)
              | None \<Rightarrow> ret (ro_out ro, ro_state ro)) (\<lambda>(out, st).
       ret \<lparr> ro_builder = Some (h, pg_tre_posting_build_begin pk h), ro_last = - 1,
             ro_out = posting_out_add_key key out, ro_state = st \<rparr>)"

definition readout_step :: "sm_lib \<Rightarrow> nat \<Rightarrow> nat \<Rightarrow> nat \<Rightarrow> PgTreTidPacking \<Rightarrow> uint64 \<times> uint64 \<times> uint64 \<Rightarrow> readout \<Rightarrow> readout outcome" where
  "readout_step lib blcksz max_tuples min_freq pk = (\<lambda>(h, tid, key) ro.
     andThen (if map_option fst (ro_builder ro) = Some h then ret ro else start_trigram lib blcksz min_freq pk h key ro) (\<lambda>ro1.
       case ro_builder ro1 of
         None \<Rightarrow> ret ro1
       | Some (cur, b) \<Rightarrow>
           if tid \<noteq> ro_last ro1
           then andThen (pg_tre_posting_build_add max_tuples (pg_tre_unpack_tid max_tuples PG_TRE_TID_LEGACY tid) b) (\<lambda>b'.
                  ret (ro1\<lparr> ro_builder := Some (cur, b'), ro_last := tid \<rparr>))
           else ret ro1))"

definition build_postings :: "sm_lib \<Rightarrow> nat \<Rightarrow> nat \<Rightarrow> nat \<Rightarrow> bool \<Rightarrow> PgTreTidPacking \<Rightarrow> (uint64 \<times> uint64 \<times> uint64) list
    \<Rightarrow> tre_index \<times> BlockNumber list \<Rightarrow> (PostingOut \<times> tre_index \<times> BlockNumber list) outcome" where
  "build_postings lib blcksz max_tuples min_freq coalesce pk stream = (\<lambda>(idx, blocks).
     andThen (ofold (readout_step lib blcksz max_tuples min_freq pk) stream
               \<lparr> ro_builder = None, ro_last = - 1, ro_out = posting_out_init,
                 ro_state = (if coalesce then Some pg_tre_coalesced_writer_begin else None, idx, blocks) \<rparr>) (\<lambda>ro.
     andThen (case ro_builder ro of
                Some (cur, b) \<Rightarrow> finish_posting lib blcksz min_freq cur b (ro_out ro, ro_state ro)
              | None \<Rightarrow> ret (ro_out ro, ro_state ro)) (\<lambda>(out, cw, idx', blocks').
       ret (out, (case cw of None \<Rightarrow> idx' | Some w \<Rightarrow> pg_tre_coalesced_writer_finish w idx'), blocks'))))"

section \<open>The rest of the build\<close>

text \<open>The loop that drops repeated keys of the sorted array.\<close>

fun dedup_keys :: "uint64 list \<Rightarrow> uint64 list \<Rightarrow> uint64 list" where
  "dedup_keys acc [] = acc"
| "dedup_keys acc (k # ks) = dedup_keys (if acc = [] \<or> k \<noteq> last acc then acc @ [k] else acc) ks"

text \<open>
  The range filter of the build (step 6.5); \<open>buf\<close> is the content of the freshly allocated image
  buffer of a given size.
\<close>

definition build_surf :: "bitutils \<Rightarrow> nat \<Rightarrow> (nat \<Rightarrow> uint8 list) \<Rightarrow> uint64 list \<Rightarrow> tre_index \<times> BlockNumber list
    \<Rightarrow> (BlockNumber \<times> nat \<times> tre_index) outcome" where
  "build_surf bu blcksz buf ks = (\<lambda>(idx, blocks).
     if ks = [] then ret (InvalidBlockNumber, 0, idx)
     else let ds = dedup_keys [] (sort ks);
              s = pg_tre_surf_build bu ds;
              img = pg_tre_surf_serialize s (buf (pg_tre_surf_serialized_size s))
          in andThen (pg_tre_surf_write_image blcksz img (idx, blocks)) (\<lambda>(root, idx', blocks'). ret (root, length ds, idx')))"

text \<open>Steps 5 to 7 of \<open>pg_tre_ambuild\<close>.\<close>

definition ambuild_tail :: "sm_lib \<Rightarrow> bitutils \<Rightarrow> nat \<Rightarrow> nat \<Rightarrow> nat \<Rightarrow> bool \<Rightarrow> (nat \<Rightarrow> uint8 list) \<Rightarrow> PgTreTidPacking
    \<Rightarrow> (uint64 \<times> uint64 \<times> uint64) list \<Rightarrow> uint64 \<Rightarrow> tre_index \<times> BlockNumber list \<Rightarrow> tre_index outcome" where
  "ambuild_tail lib bu blcksz max_tuples min_freq coalesce buf pk stream heap_tuples st =
     andThen (build_postings lib blcksz max_tuples min_freq coalesce pk stream st) (\<lambda>(out, idx, blocks).
     andThen (pg_tre_upper_bulkload blcksz blocks idx (accums out)) (\<lambda>(root, idx1, blocks1).
     andThen (build_surf bu blcksz buf (surf_keys out) (idx1, blocks1)) (\<lambda>(rs, distinct_n, idx2).
       ret (pg_tre_meta_set_surf
              (pg_tre_meta_set_roots idx2 root InvalidBlockNumber (word_of_nat (length (accums out))) heap_tuples)
              rs (word_of_nat distinct_n)))))"

end
