(* ===== verification/Upper_Tree_Correct.thy ===== *)
theory Upper_Tree_Correct
  imports Upper_Tree
begin

text \<open>
  The tree that the bulk loader builds, as a predicate on its pages, and that a lookup in it
  finds exactly what was loaded.
\<close>

section \<open>The shape of a tree\<close>

definition item_blob :: "upper_item \<Rightarrow> uint8 list" where
  "item_blob it = take (if is_coalesced (word_of_nat (it_bytes it)) then 0 else it_bytes it) (it_data it)"

definition item_entry :: "upper_item \<Rightarrow> PgTreUpperLeafEntry" where
  "item_entry it = \<lparr> leaf_hash = it_hash it, posting_root = it_root it, inline_bytes = word_of_nat (it_bytes it) \<rparr>"

lemma item_entry_simps [simp]:
  "leaf_hash (item_entry it) = it_hash it" "posting_root (item_entry it) = it_root it" "inline_bytes (item_entry it) = word_of_nat (it_bytes it)"
  by (simp_all add: item_entry_def)

definition leaf_of :: "upper_item list \<Rightarrow> upper_leaf" where
  "leaf_of its = \<lparr> leaf_entries = map item_entry its, leaf_inline = concat (map item_blob its) \<rparr>"

definition leaf_fits :: "nat \<Rightarrow> upper_item list \<Rightarrow> bool" where
  "leaf_fits blcksz its \<longleftrightarrow> 16 * length its + length (concat (map item_blob its)) \<le> upper_page_budget blcksz"

text \<open>An item the loader is given: a blob as long as it says, below the page budget, or a coalesced marker.\<close>

definition item_ok :: "nat \<Rightarrow> upper_item \<Rightarrow> bool" where
  "item_ok blcksz it \<longleftrightarrow> it_bytes it < 2 ^ 32
     \<and> (\<not> is_coalesced (word_of_nat (it_bytes it)) \<longrightarrow> it_bytes it = length (it_data it) \<and> it_bytes it + 16 \<le> upper_page_budget blcksz)"

inductive upper_tree :: "nat \<Rightarrow> (BlockNumber \<Rightarrow> tree_page option) \<Rightarrow> BlockNumber \<Rightarrow> upper_item list \<Rightarrow> bool"
  for blcksz pages where
  leaf: "pages b = Some (Upper_leaf (leaf_of its)) \<Longrightarrow> its \<noteq> [] \<Longrightarrow> leaf_fits blcksz its \<Longrightarrow> upper_tree blcksz pages b its"
| node: "pages b = Some (Upper_internal (map (\<lambda>(c, its). \<lparr> first_key = it_hash (hd its), child_blk = c \<rparr>) cs))
    \<Longrightarrow> cs \<noteq> [] \<Longrightarrow> length cs \<le> UPPER_INTERNAL_MAX_ENTRIES blcksz
    \<Longrightarrow> (\<And>c its. (c, its) \<in> set cs \<Longrightarrow> c \<noteq> InvalidBlockNumber \<and> its \<noteq> [] \<and> upper_tree blcksz pages c its)
    \<Longrightarrow> upper_tree blcksz pages b (concat (map snd cs))"

lemma upper_tree_mono: "upper_tree blcksz pages b its \<Longrightarrow> pages \<subseteq>\<^sub>m pages' \<Longrightarrow> upper_tree blcksz pages' b its"
proof (induction rule: upper_tree.induct)
  case (leaf b its)
  then show ?case by (auto intro!: upper_tree.leaf dest: map_leD)
next
  case (node b cs)
  then show ?case by (intro upper_tree.node) (auto dest: map_leD)
qed

section \<open>Lookup\<close>

definition items_sorted :: "upper_item list \<Rightarrow> bool" where
  "items_sorted its \<longleftrightarrow> sorted_wrt (<) (map it_hash its)"

lemma items_sorted_append:
  "items_sorted (xs @ ys) \<longleftrightarrow> items_sorted xs \<and> items_sorted ys \<and> (\<forall>x \<in> set xs. \<forall>y \<in> set ys. it_hash x < it_hash y)"
  by (auto simp: items_sorted_def sorted_wrt_append)

lemma items_sorted_hd: "items_sorted its \<Longrightarrow> it \<in> set its \<Longrightarrow> it_hash (hd its) \<le> it_hash it"
  by (cases its) (auto simp: items_sorted_def)

lemma foldl_last: "foldl (\<lambda>c e. f e) d xs = (if xs = [] then d else f (last xs))"
  by (induction xs arbitrary: d) auto

text \<open>The choice of an internal page: every item with the hash is below the chosen child.\<close>

lemma internal_choice:
  assumes "items_sorted (concat (map snd cs))" and "\<forall>p \<in> set cs. snd p \<noteq> []"
    and "es = map (\<lambda>(c, its). \<lparr> first_key = it_hash (hd its), child_blk = c \<rparr>) cs"
  shows "(internal_child es h = InvalidBlockNumber \<and> (\<forall>it \<in> set (concat (map snd cs)). it_hash it \<noteq> h))
    \<or> (\<exists>its. (internal_child es h, its) \<in> set cs \<and> items_sorted its
         \<and> (\<forall>it \<in> set (concat (map snd cs)). it_hash it = h \<longrightarrow> it \<in> set its))"
proof -
  let ?P = "\<lambda>p. it_hash (hd (snd p)) \<le> h"
  define pre post where "pre = takeWhile ?P cs" and "post = dropWhile ?P cs"
  have split: "cs = pre @ post" by (simp add: pre_def post_def)
  have child: "internal_child es h = (if pre = [] then InvalidBlockNumber else fst (last pre))"
    unfolding internal_child_def foldl_last assms(3) takeWhile_map
    by (auto simp: pre_def comp_def case_prod_unfold last_map)
  have ne: "its \<noteq> []" if "(c, its) \<in> set cs" for c its using assms(2) that by auto
  have sorted: "items_sorted (concat (map snd pre))" "items_sorted (concat (map snd post))"
    using assms(1) by (simp_all add: split items_sorted_append)
  have after: "h < it_hash it" if "it \<in> set (concat (map snd post))" for it
  proof -
    obtain c its ps where ps: "post = (c, its) # ps" using \<open>it \<in> _\<close> by (cases post) auto
    then have gt: "h < it_hash (hd its)" using hd_dropWhile[of ?P cs] by (simp add: post_def)
    have "its \<noteq> []" using ne[of c its] by (simp add: split ps)
    then have "hd (concat (map snd post)) = hd its" by (simp add: ps)
    then show ?thesis using items_sorted_hd[OF sorted(2) that] gt by simp
  qed
  show ?thesis
  proof (cases "pre = []")
    case True
    then show ?thesis using after child by (auto simp: split)
  next
    case False
    define c its where "c = fst (last pre)" and "its = snd (last pre)"
    have pre: "pre = butlast pre @ [(c, its)]" using False by (simp add: c_def its_def)
    have "(c, its) \<in> set pre" by (subst pre) simp
    then have mem: "(c, its) \<in> set cs" and "?P (c, its)" unfolding pre_def using set_takeWhileD[of "(c, its)" ?P cs] by auto
    have "its \<noteq> []" using ne[OF mem] .
    have sp: "concat (map snd pre) = concat (map snd (butlast pre)) @ its" by (subst pre) simp
    have before: "it_hash it < h" if "it \<in> set (concat (map snd (butlast pre)))" for it
    proof -
      have "it_hash it < it_hash (hd its)" using sorted(1) \<open>its \<noteq> []\<close> that unfolding sp items_sorted_append by auto
      then show ?thesis using \<open>?P (c, its)\<close> by simp
    qed
    have "it \<in> set its" if "it \<in> set (concat (map snd cs))" "it_hash it = h" for it
    proof -
      have "it \<in> set (concat (map snd (butlast pre))) \<or> it \<in> set its \<or> it \<in> set (concat (map snd post))"
        using that(1) unfolding split map_append concat_append sp by auto
      then show ?thesis using before[of it] after[of it] that(2) by auto
    qed
    moreover have "items_sorted its" using sorted(1) unfolding sp items_sorted_append by simp
    moreover have "internal_child es h = c" using child False by (simp add: c_def)
    ultimately show ?thesis using mem by blast
  qed
qed

lemma descend_tree:
  assumes "upper_tree blcksz (tree_pages idx) b its" and "items_sorted its"
  shows "\<exists>r. upper_descend idx h b = ret r
    \<and> (case r of None \<Rightarrow> \<forall>it \<in> set its. it_hash it \<noteq> h
       | Some l \<Rightarrow> \<exists>ls. l = leaf_of ls \<and> set ls \<subseteq> set its \<and> (\<forall>it \<in> set its. it_hash it = h \<longrightarrow> it \<in> set ls))"
  using assms
proof (induction rule: upper_tree.induct)
  case (leaf b its)
  then show ?case by (subst upper_descend.simps) (auto simp: read_tree_page_def)
next
  case (node b cs)
  let ?es = "map (\<lambda>(c, its). \<lparr> first_key = it_hash (hd its), child_blk = c \<rparr>) cs"
  have step: "upper_descend idx h b = (let c = internal_child ?es h in if c = InvalidBlockNumber then ret None else upper_descend idx h c)"
    using node.hyps(1) by (subst upper_descend.simps) (simp add: read_tree_page_def)
  have ne: "\<forall>p \<in> set cs. snd p \<noteq> []" using node.IH by auto
  from internal_choice[where h = h, OF node.prems ne refl] show ?case
  proof (elim disjE exE conjE)
    assume "internal_child ?es h = InvalidBlockNumber" "\<forall>it \<in> set (concat (map snd cs)). it_hash it \<noteq> h"
    then show ?thesis using step by auto
  next
    fix its assume c: "(internal_child ?es h, its) \<in> set cs" "items_sorted its"
      and all: "\<forall>it \<in> set (concat (map snd cs)). it_hash it = h \<longrightarrow> it \<in> set its"
    from node.IH[OF c(1)] c(2) obtain r where r: "upper_descend idx h (internal_child ?es h) = ret r"
      "case r of None \<Rightarrow> \<forall>it \<in> set its. it_hash it \<noteq> h
       | Some l \<Rightarrow> \<exists>ls. l = leaf_of ls \<and> set ls \<subseteq> set its \<and> (\<forall>it \<in> set its. it_hash it = h \<longrightarrow> it \<in> set ls)" by blast
    have sub: "set its \<subseteq> set (concat (map snd cs))" using c(1) by force
    have "upper_descend idx h b = ret r" using step r(1) node.IH[OF c(1)] by (simp add: Let_def)
    moreover have "case r of None \<Rightarrow> \<forall>it \<in> set (concat (map snd cs)). it_hash it \<noteq> h
       | Some l \<Rightarrow> \<exists>ls. l = leaf_of ls \<and> set ls \<subseteq> set (concat (map snd cs))
           \<and> (\<forall>it \<in> set (concat (map snd cs)). it_hash it = h \<longrightarrow> it \<in> set ls)"
    proof (cases r)
      case None
      then show ?thesis using r(2) all by auto
    next
      case (Some l)
      then obtain ls where "l = leaf_of ls" "set ls \<subseteq> set its" "\<forall>it \<in> set its. it_hash it = h \<longrightarrow> it \<in> set ls" using r(2) by auto
      then have "l = leaf_of ls \<and> set ls \<subseteq> set (concat (map snd cs)) \<and> (\<forall>it \<in> set (concat (map snd cs)). it_hash it = h \<longrightarrow> it \<in> set ls)"
        using all sub by blast
      then show ?thesis unfolding Some option.case by blast
    qed
    ultimately show ?thesis by blast
  qed
qed

text \<open>What a lookup should return for an item.\<close>

definition item_ref :: "nat \<Rightarrow> tre_index \<Rightarrow> upper_item \<Rightarrow> PgTreUpperRef option outcome" where
  "item_ref blcksz idx it =
     (let ib = word_of_nat (it_bytes it) :: uint32
      in if is_coalesced ib
         then andThen (pg_tre_coalesced_resolve_slot blcksz idx (it_root it) (ucast (ib AND PG_TRE_COALESCED_SLOT_MASK)) (it_hash it)) (\<lambda>blob.
                ret (Some \<lparr> ref_root = InvalidBlockNumber, ref_inline = blob, ref_bytes = (case blob of None \<Rightarrow> 0 | Some d \<Rightarrow> length d) \<rparr>))
         else if it_bytes it > 0 then ret (Some \<lparr> ref_root = it_root it, ref_inline = Some (it_data it), ref_bytes = it_bytes it \<rparr>)
         else ret (Some \<lparr> ref_root = it_root it, ref_inline = None, ref_bytes = 0 \<rparr>))"

lemma item_blob_length:
  "item_ok blcksz it \<Longrightarrow> \<not> is_coalesced (word_of_nat (it_bytes it)) \<Longrightarrow> item_blob it = it_data it \<and> length (it_data it) = unat (word_of_nat (it_bytes it) :: uint32)"
  by (simp add: item_ok_def item_blob_def unat_of_nat32)

text \<open>The sum of the preceding sizes is the offset of the blob.\<close>

lemma leaf_search_none: "leaf_search (map item_entry its) h off = None \<longleftrightarrow> (\<forall>it \<in> set its. it_hash it \<noteq> h)"
  by (induction its arbitrary: off) auto

lemma leaf_search_some:
  assumes "\<And>it. it \<in> set its \<Longrightarrow> item_ok blcksz it" and "leaf_search (map item_entry its) h off = Some (e, o')"
    and "length pre = off"
  shows "\<exists>it. it \<in> set its \<and> it_hash it = h \<and> e = item_entry it
    \<and> (\<not> is_coalesced (inline_bytes e) \<longrightarrow> take (unat (inline_bytes e)) (drop o' (pre @ concat (map item_blob its))) = it_data it)"
  using assms
proof (induction its arbitrary: off pre)
  case (Cons it its)
  show ?case
  proof (cases "it_hash it = h")
    case True
    then have e: "e = item_entry it" "o' = off" using Cons.prems(2) by simp_all
    then show ?thesis using True item_blob_length[OF Cons.prems(1), of it] Cons.prems(3) by auto
  next
    case False
    let ?off = "if is_coalesced (inline_bytes (item_entry it)) then off else off + unat (inline_bytes (item_entry it))"
    have "leaf_search (map item_entry its) h ?off = Some (e, o')" using Cons.prems(2) False by simp
    moreover have "length (pre @ item_blob it) = ?off"
      using Cons.prems(3) item_blob_length[OF Cons.prems(1), of it] by (auto simp: item_blob_def)
    ultimately show ?thesis using Cons.IH[of ?off "pre @ item_blob it"] Cons.prems(1) by auto
  qed
qed simp

theorem lookup_tree:
  assumes "upper_tree blcksz (tree_pages idx) root its" and "items_sorted its" and "\<forall>it \<in> set its. item_ok blcksz it"
    and "root \<noteq> InvalidBlockNumber"
  shows "it \<in> set its \<Longrightarrow> pg_tre_upper_lookup_root blcksz idx root (it_hash it) = item_ref blcksz idx it"
    and "h \<notin> it_hash ` set its \<Longrightarrow> pg_tre_upper_lookup_root blcksz idx root h = ret None"
proof -
  have inj: "it = it'" if "it \<in> set its" "it' \<in> set its" "it_hash it = it_hash it'" for it it'
  proof -
    have "distinct (map it_hash its)" using assms(2) unfolding items_sorted_def by (simp add: strict_sorted_iff)
    then show ?thesis using that by (meson distinct_map inj_onD)
  qed
  from descend_tree[OF assms(1,2), of h] obtain r where r: "upper_descend idx h root = ret r"
    "case r of None \<Rightarrow> \<forall>it \<in> set its. it_hash it \<noteq> h
       | Some l \<Rightarrow> \<exists>ls. l = leaf_of ls \<and> set ls \<subseteq> set its \<and> (\<forall>it \<in> set its. it_hash it = h \<longrightarrow> it \<in> set ls)" by blast
  show "h \<notin> it_hash ` set its \<Longrightarrow> pg_tre_upper_lookup_root blcksz idx root h = ret None"
  proof (cases r)
    case (Some l)
    assume h: "h \<notin> it_hash ` set its"
    obtain ls where ls: "l = leaf_of ls" "set ls \<subseteq> set its" using r(2) Some by auto
    then have "leaf_search (map item_entry ls) h 0 = None" using h unfolding leaf_search_none by auto
    then show ?thesis using assms(4) r(1) Some ls(1) by (simp add: pg_tre_upper_lookup_root_def leaf_of_def)
  qed (use assms(4) r(1) in \<open>simp add: pg_tre_upper_lookup_root_def\<close>)
  assume it: "it \<in> set its"
  from descend_tree[OF assms(1,2), of "it_hash it"] it obtain ls where
    ls: "upper_descend idx (it_hash it) root = ret (Some (leaf_of ls))" "set ls \<subseteq> set its" "it \<in> set ls"
    by (auto split: option.splits)
  have "leaf_search (map item_entry ls) (it_hash it) 0 \<noteq> None" using ls(3) unfolding leaf_search_none by auto
  then obtain e off where s: "leaf_search (map item_entry ls) (it_hash it) 0 = Some (e, off)" by auto
  have ok: "item_ok blcksz i" if "i \<in> set ls" for i using that assms(3) ls(2) by blast
  from leaf_search_some[where pre = "[]", OF ok s list.size(3)] obtain it' where
    it': "it' \<in> set ls" "it_hash it' = it_hash it" "e = item_entry it'"
      "\<not> is_coalesced (inline_bytes e) \<longrightarrow> take (unat (inline_bytes e)) (drop off ([] @ concat (map item_blob ls))) = it_data it'" by blast
  have "it' = it" using inj it'(1,2) ls(2) it by blast
  moreover have "unat (word_of_nat (it_bytes it) :: uint32) = it_bytes it" using assms(3) it by (auto simp: item_ok_def unat_of_nat32)
  ultimately show "pg_tre_upper_lookup_root blcksz idx root (it_hash it) = item_ref blcksz idx it"
    using assms(4) ls(1) s it'(3,4) unfolding pg_tre_upper_lookup_root_def item_ref_def
    by (auto simp: leaf_of_def Let_def word_less_nat_alt)
qed

section \<open>Bulk loading\<close>

text \<open>Cutting a list at the positions \<open>i * n div p\<close> gives back the list, in pieces of bounded size.\<close>

lemma concat_cuts:
  fixes f :: "nat \<Rightarrow> nat"
  assumes "f 0 = 0" and "\<And>i. f i \<le> f (Suc i)"
  shows "concat (map (\<lambda>i. take (f (Suc i) - f i) (drop (f i) xs)) [0..<k]) = take (f k) xs"
proof (induction k)
  case (Suc k)
  have "take (f k) xs @ take (f (Suc k) - f k) (drop (f k) xs) = take (f (Suc k)) xs"
    using assms(2)[of k] by (metis le_add_diff_inverse take_add)
  then show ?case using Suc by simp
qed (simp add: assms(1))

lemma concat_map_concat: "concat (map (\<lambda>i. concat (f i)) xs) = concat (concat (map f xs))"
  by (induction xs) auto

lemma internal_page_concat:
  assumes "0 < p"
  shows "concat (map (internal_page xs p) [0..<p]) = xs"
proof -
  let ?f = "\<lambda>i. i * length xs div p"
  have "concat (map (\<lambda>i. take (?f (Suc i) - ?f i) (drop (?f i) xs)) [0..<p]) = take (?f p) xs"
    by (rule concat_cuts) (simp_all add: div_le_mono)
  moreover have "internal_page xs p = (\<lambda>i. take (?f (Suc i) - ?f i) (drop (?f i) xs))"
    by (rule ext) (simp add: internal_page_def Let_def)
  ultimately show ?thesis using assms by simp
qed

lemma internal_page_length:
  assumes "i < p" and "p \<le> length xs" and "length xs \<le> p * m"
  shows "0 < length (internal_page xs p i)" and "length (internal_page xs p i) \<le> m"
proof -
  let ?n = "length xs"
  have p: "0 < p" using assms(1) by simp
  have "(i * ?n + p) div p \<le> (i * ?n + ?n) div p" using assms(2) by (intro div_le_mono) simp
  then have lo: "i * ?n div p + 1 \<le> (i + 1) * ?n div p" using p div_add_self2[of p "i * ?n"] by (simp add: add.commute)
  have "(i * ?n + ?n) div p \<le> (i * ?n + m * p) div p" using assms(3) by (intro div_le_mono) (simp add: mult.commute)
  then have hi: "(i + 1) * ?n div p \<le> i * ?n div p + m" using p by (simp add: algebra_simps)
  have "(i + 1) * ?n div p \<le> p * ?n div p" using assms(1) by (intro div_le_mono mult_le_mono) simp_all
  then have "(i + 1) * ?n div p \<le> ?n" using p by simp
  then show "0 < length (internal_page xs p i)" "length (internal_page xs p i) \<le> m"
    using lo hi by (auto simp: internal_page_def Let_def)
qed

text \<open>The children of a level: subtrees whose items are the list, in order.\<close>

definition child_ok :: "nat \<Rightarrow> (BlockNumber \<Rightarrow> tree_page option) \<Rightarrow> uint64 \<times> BlockNumber \<Rightarrow> upper_item list \<Rightarrow> bool" where
  "child_ok blcksz pages c its \<longleftrightarrow> snd c \<noteq> InvalidBlockNumber \<and> its \<noteq> [] \<and> fst c = it_hash (hd its) \<and> upper_tree blcksz pages (snd c) its"

abbreviation children_ok :: "nat \<Rightarrow> (BlockNumber \<Rightarrow> tree_page option) \<Rightarrow> (uint64 \<times> BlockNumber) list \<Rightarrow> upper_item list list \<Rightarrow> bool" where
  "children_ok blcksz pages \<equiv> list_all2 (child_ok blcksz pages)"

lemma children_ok_mono: "children_ok blcksz pages cs itss \<Longrightarrow> pages \<subseteq>\<^sub>m pages' \<Longrightarrow> children_ok blcksz pages' cs itss"
  by (erule list_all2_mono) (auto simp: child_ok_def intro: upper_tree_mono)

text \<open>One internal page over a segment of the children.\<close>

lemma node_over:
  assumes "children_ok blcksz pages cs itss" and "cs \<noteq> []" and "length cs \<le> UPPER_INTERNAL_MAX_ENTRIES blcksz"
    and "pages b = Some (Upper_internal (map (\<lambda>(k, c). \<lparr> first_key = k, child_blk = c \<rparr>) cs))"
  shows "upper_tree blcksz pages b (concat itss)"
proof -
  let ?ps = "zip (map snd cs) itss"
  have len: "length cs = length itss" using assms(1) by (rule list_all2_lengthD)
  have eq: "map (\<lambda>(k, c). \<lparr> first_key = k, child_blk = c \<rparr>) cs = map (\<lambda>(c, its). \<lparr> first_key = it_hash (hd its), child_blk = c \<rparr>) ?ps"
    using assms(1) by (induction rule: list_all2_induct) (auto simp: child_ok_def)
  have ok: "c \<noteq> InvalidBlockNumber \<and> its \<noteq> [] \<and> upper_tree blcksz pages c its" if "(c, its) \<in> set ?ps" for c its
    using assms(1) that by (induction rule: list_all2_induct) (auto simp: child_ok_def)
  have "upper_tree blcksz pages b (concat (map snd ?ps))"
  proof (rule upper_tree.node)
    show "pages b = Some (Upper_internal (map (\<lambda>(c, its). \<lparr> first_key = it_hash (hd its), child_blk = c \<rparr>) ?ps))" using assms(4) unfolding eq .
    show "?ps \<noteq> []" "length ?ps \<le> UPPER_INTERNAL_MAX_ENTRIES blcksz" using assms(2,3) len by auto
  qed (fact ok)
  then show ?thesis using len by simp
qed

lemma segment_ok:
  assumes "children_ok blcksz pages cs itss"
  shows "children_ok blcksz pages (internal_page cs p i) (internal_page itss p i)"
  using assms list_all2_lengthD[OF assms] by (simp add: internal_page_def Let_def list_all2_takeI list_all2_dropI)

lemma child_of_segment:
  assumes "children_ok blcksz pages cs itss" and "cs \<noteq> []" and "b \<noteq> InvalidBlockNumber" and "upper_tree blcksz pages b (concat itss)"
  shows "child_ok blcksz pages (fst (hd cs), b) (concat itss)"
  using assms by (cases rule: list.rel_cases) (auto simp: child_ok_def)

lemma write_internal_fold:
  assumes "children_ok blcksz (tree_pages idx) cs itss" and "p \<le> length cs" and "length cs \<le> p * UPPER_INTERNAL_MAX_ENTRIES blcksz"
    and "blocks_ok blocks idx" and "k \<le> p" and "p \<le> length blocks"
  shows "\<exists>parents idx'. ofold (write_internal cs p) [0..<k] ([], idx, blocks) = ret (parents, idx', drop k blocks)
    \<and> children_ok blcksz (tree_pages idx') parents (map (\<lambda>i. concat (internal_page itss p i)) [0..<k])
    \<and> blocks_ok (drop k blocks) idx' \<and> grown_tree idx idx'"
  using assms(5)
proof (induction k)
  case 0
  then show ?case using assms(4) by simp
next
  case (Suc k)
  then obtain parents idx1 where IH: "ofold (write_internal cs p) [0..<k] ([], idx, blocks) = ret (parents, idx1, drop k blocks)"
      "children_ok blcksz (tree_pages idx1) parents (map (\<lambda>i. concat (internal_page itss p i)) [0..<k])"
      "blocks_ok (drop k blocks) idx1" "grown_tree idx idx1" by auto
  have "k < length blocks" using Suc.prems assms(6) by simp
  then have d: "drop k blocks = blocks ! k # drop (Suc k) blocks" by (simp add: Cons_nth_drop_Suc)
  let ?es = "internal_page cs p k"
  let ?page = "Upper_internal (map (\<lambda>(k, c). \<lparr> first_key = k, child_blk = c \<rparr>) ?es)"
  define idx2 where "idx2 = put_tree_page (blocks ! k) ?page idx1"
  have pf: "blocks_ok (drop (Suc k) blocks) idx2" "tree_pages idx1 \<subseteq>\<^sub>m tree_pages idx2" "tree_pages idx2 (blocks ! k) = Some ?page"
      "blocks ! k \<noteq> InvalidBlockNumber"
    unfolding idx2_def using put_fresh[OF IH(3)[unfolded d]] by blast+
  have grown: "grown_tree idx1 idx2" "grown_tree idx idx2"
    using grown_put[OF IH(3)[unfolded d], of ?page] grown_tree_trans[OF IH(4)] unfolding idx2_def by blast+
  have seg: "children_ok blcksz (tree_pages idx2) ?es (internal_page itss p k)"
    using segment_ok[OF assms(1)] children_ok_mono grown(2) unfolding grown_tree_def by blast
  have len: "0 < length ?es" "length ?es \<le> UPPER_INTERNAL_MAX_ENTRIES blcksz"
    using internal_page_length[of k p cs] Suc.prems assms(2,3) by auto
  have "child_ok blcksz (tree_pages idx2) (fst (hd ?es), blocks ! k) (concat (internal_page itss p k))"
    by (rule child_of_segment[OF seg _ pf(4) node_over[OF seg _ len(2)]]) (use len pf(3) in auto)
  moreover have "children_ok blcksz (tree_pages idx2) parents (map (\<lambda>i. concat (internal_page itss p i)) [0..<k])"
    using IH(2) children_ok_mono pf(2) by blast
  ultimately have "children_ok blcksz (tree_pages idx2) (parents @ [(fst (hd ?es), blocks ! k)]) (map (\<lambda>i. concat (internal_page itss p i)) [0..<Suc k])"
    by (simp add: list_all2_appendI)
  moreover have "ofold (write_internal cs p) [0..<Suc k] ([], idx, blocks) = ret (parents @ [(fst (hd ?es), blocks ! k)], idx2, drop (Suc k) blocks)"
    by (simp add: ofold_append IH(1) write_internal_def Let_def d pg_tre_extend_def idx2_def)
  ultimately show ?case using pf(1) grown(2) by blast
qed

text \<open>The number of pages of a level: fewer than its children, and enough for them.\<close>

lemma level_pages:
  fixes n e :: nat
  assumes "2 \<le> n" and "2 \<le> e" and "p = (n + e - 1) div e"
  shows "0 < p" and "p < n" and "n \<le> p * e" and "3 * p \<le> 2 * n"
proof -
  have dm: "p * e + (n + e - 1) mod e = n + e - 1" unfolding assms(3) by (rule div_mult_mod_eq)
  moreover have "(n + e - 1) mod e < e" using assms(2) by simp
  ultimately show np: "n \<le> p * e" using assms(1) by linarith
  then show "0 < p" using assms(1) by (cases p) auto
  have "(p - 1) * 2 \<le> (p - 1) * e" using assms(2) by simp
  also have "\<dots> \<le> n - 1" using dm by (simp add: diff_mult_distrib)
  finally show "p < n" "3 * p \<le> 2 * n" using assms(1) by linarith+
qed

lemma build_level:
  assumes "children_ok blcksz (tree_pages idx) cs itss" and "cs \<noteq> []" and "2 \<le> UPPER_INTERNAL_MAX_ENTRIES blcksz"
    and "blocks_ok blocks idx" and "2 * length cs \<le> length blocks + 2"
  shows "\<exists>root idx' k. upper_build_internal_level blcksz cs idx blocks = ret (root, idx', drop k blocks)
    \<and> k + 2 \<le> 2 * length cs \<and> root \<noteq> InvalidBlockNumber \<and> upper_tree blcksz (tree_pages idx') root (concat itss)
    \<and> blocks_ok (drop k blocks) idx' \<and> grown_tree idx idx'"
  using assms
proof (induction "length cs" arbitrary: cs itss idx blocks rule: less_induct)
  case less
  show ?case
  proof (cases "length cs = 1")
    case True
    then obtain c its where c: "cs = [c]" "itss = [its]" "child_ok blcksz (tree_pages idx) c its"
      using less.prems(1) by (auto simp: length_Suc_conv list_all2_Cons1)
    then show ?thesis using less.prems(4)
      by (subst upper_build_internal_level.simps) (auto simp: child_ok_def intro!: exI[of _ 0])
  next
    case False
    let ?e = "UPPER_INTERNAL_MAX_ENTRIES blcksz"
    define p where "p = (length cs + ?e - 1) div ?e"
    have n2: "2 \<le> length cs" using False less.prems(2) by (cases cs) (auto simp: Suc_le_eq)
    note lp = level_pages[OF n2 less.prems(3) p_def]
    from write_internal_fold[OF less.prems(1) _ lp(3) less.prems(4) order_refl] lp less.prems(5)
    obtain parents idx1 where w: "ofold (write_internal cs p) [0..<p] ([], idx, blocks) = ret (parents, idx1, drop p blocks)"
        "children_ok blcksz (tree_pages idx1) parents (map (\<lambda>i. concat (internal_page itss p i)) [0..<p])"
        "blocks_ok (drop p blocks) idx1" "grown_tree idx idx1" by auto
    have len: "length parents = p" using list_all2_lengthD[OF w(2)] by simp
    have all: "concat (map (\<lambda>i. concat (internal_page itss p i)) [0..<p]) = concat itss"
      using internal_page_concat[OF lp(1), of itss] by (simp add: concat_map_concat)
    have "parents \<noteq> []" "length parents < length cs" "2 * length parents \<le> length (drop p blocks) + 2"
      using len lp less.prems(5) by auto
    from less.hyps[OF this(2) w(2) this(1) less.prems(3) w(3) this(3)] obtain root idx' k where
      r: "upper_build_internal_level blcksz parents idx1 (drop p blocks) = ret (root, idx', drop k (drop p blocks))"
        "k + 2 \<le> 2 * length parents" "root \<noteq> InvalidBlockNumber" "upper_tree blcksz (tree_pages idx') root (concat itss)"
        "blocks_ok (drop k (drop p blocks)) idx'" "grown_tree idx1 idx'" unfolding all by blast
    have "upper_build_internal_level blcksz cs idx blocks = ret (root, idx', drop (k + p) blocks)"
      using False less.prems(2) w(1) r(1) by (subst upper_build_internal_level.simps, unfold Let_def, fold p_def) simp
    moreover have "k + p + 2 \<le> 2 * length cs" using r(2) len lp(4) by linarith
    ultimately show ?thesis using r(3-5) grown_tree_trans[OF w(4) r(6)] by (auto intro!: exI[of _ "k + p"])
  qed
qed

section \<open>The leaves\<close>

text \<open>The loader's state after some items: the segments written and the one being filled.\<close>

definition bulk_inv :: "nat \<Rightarrow> tre_index \<Rightarrow> nat \<Rightarrow> upper_item list \<Rightarrow> UpperBulkState \<Rightarrow> bool" where
  "bulk_inv blcksz idx todo its st \<longleftrightarrow> (\<exists>itss cur. its = concat itss @ cur
     \<and> bulk_entries st = map item_entry cur \<and> bulk_inline st = concat (map item_blob cur) \<and> leaf_fits blcksz cur
     \<and> length (leaf_first_keys st) = length (leaf_blocks st)
     \<and> children_ok blcksz (tree_pages (bulk_index st)) (zip (leaf_first_keys st) (leaf_blocks st)) itss
     \<and> blocks_ok (bulk_free st) (bulk_index st) \<and> grown_tree idx (bulk_index st)
     \<and> 2 * length itss + 3 * (todo + (if cur = [] then 0 else 1)) \<le> length (bulk_free st))"

lemma flush_leaf_ret:
  assumes "bulk_inv blcksz idx todo its st"
  shows "\<exists>st'. upper_flush_leaf st = ret st' \<and> bulk_entries st' = [] \<and> bulk_inv blcksz idx todo its st'"
proof (cases "bulk_entries st = []")
  case True
  then show ?thesis using assms by (simp add: upper_flush_leaf_def)
next
  case False
  from assms obtain itss cur where inv: "its = concat itss @ cur" "bulk_entries st = map item_entry cur"
      "bulk_inline st = concat (map item_blob cur)" "leaf_fits blcksz cur" "length (leaf_first_keys st) = length (leaf_blocks st)"
      "children_ok blcksz (tree_pages (bulk_index st)) (zip (leaf_first_keys st) (leaf_blocks st)) itss"
      "blocks_ok (bulk_free st) (bulk_index st)" "grown_tree idx (bulk_index st)"
      "2 * length itss + 3 * (todo + (if cur = [] then 0 else 1)) \<le> length (bulk_free st)" unfolding bulk_inv_def by blast
  have ne: "cur \<noteq> []" using False inv(2) by simp
  obtain b bs where blk: "bulk_free st = b # bs" using inv(9) ne by (cases "bulk_free st") auto
  let ?page = "Upper_leaf (leaf_of cur)"
  define idx1 where "idx1 = put_tree_page b ?page (bulk_index st)"
  have pf: "blocks_ok bs idx1" "tree_pages (bulk_index st) \<subseteq>\<^sub>m tree_pages idx1" "tree_pages idx1 b = Some ?page" "b \<noteq> InvalidBlockNumber"
    unfolding idx1_def using put_fresh[OF inv(7)[unfolded blk]] by blast+
  define st' where "st' = \<lparr> bulk_entries = [], bulk_inline = [], leaf_blocks = leaf_blocks st @ [b],
    leaf_first_keys = leaf_first_keys st @ [it_hash (hd cur)], bulk_index = idx1, bulk_free = bs \<rparr>"
  have "upper_flush_leaf st = ret st'"
    using False inv(2,3) ne by (simp add: upper_flush_leaf_def blk pg_tre_extend_def st'_def idx1_def leaf_of_def hd_map)
  moreover have "child_ok blcksz (tree_pages idx1) (it_hash (hd cur), b) cur"
    using pf(3,4) ne inv(4) by (simp add: child_ok_def upper_tree.leaf)
  then have "children_ok blcksz (tree_pages idx1) (zip (leaf_first_keys st') (leaf_blocks st')) (itss @ [cur])"
    using children_ok_mono[OF inv(6) pf(2)] inv(5) by (simp add: st'_def list_all2_appendI)
  then have "bulk_inv blcksz idx todo its st'"
    unfolding bulk_inv_def using pf(1) inv(1,5,8,9) ne grown_tree_trans[OF inv(8) grown_put[OF inv(7)[unfolded blk], of ?page]] blk
    by (intro exI[of _ "itss @ [cur]"] exI[of _ "[]"]) (simp add: st'_def idx1_def leaf_fits_def)
  ultimately show ?thesis by (auto simp: st'_def)
qed

lemma add_entry_ret:
  assumes "bulk_inv blcksz idx (Suc todo) its st" and "item_ok blcksz it" and "16 \<le> upper_page_budget blcksz"
  shows "\<exists>st'. upper_add_leaf_entry blcksz it st = ret st' \<and> bulk_inv blcksz idx todo (its @ [it]) st'"
proof -
  let ?blob = "if is_coalesced (word_of_nat (it_bytes it)) then 0 else it_bytes it"
  let ?total = "(length (bulk_entries st) + 1) * 16 + length (bulk_inline st) + ?blob"
  let ?full = "length (bulk_entries st) \<ge> UPPER_LEAF_MAX_ENTRIES blcksz \<or> ?total > upper_page_budget blcksz"
  have blob: "length (item_blob it) = ?blob" using assms(2) by (auto simp: item_ok_def item_blob_def)
  have fit1: "leaf_fits blcksz [it]" using assms(2,3) blob by (auto simp: leaf_fits_def item_ok_def split: if_splits)
  have step: "bulk_inv blcksz idx todo (its @ [it]) (st1\<lparr> bulk_entries := bulk_entries st1 @ [item_entry it], bulk_inline := bulk_inline st1 @ item_blob it \<rparr>)"
    if st1: "bulk_inv blcksz idx (Suc todo) its st1" "bulk_entries st1 = [] \<or> st1 = st \<and> \<not> ?full" for st1
  proof -
    from st1(1) obtain itss cur where inv: "its = concat itss @ cur" "bulk_entries st1 = map item_entry cur"
      "bulk_inline st1 = concat (map item_blob cur)" "leaf_fits blcksz cur" "length (leaf_first_keys st1) = length (leaf_blocks st1)"
      "children_ok blcksz (tree_pages (bulk_index st1)) (zip (leaf_first_keys st1) (leaf_blocks st1)) itss"
      "blocks_ok (bulk_free st1) (bulk_index st1)" "grown_tree idx (bulk_index st1)"
      "2 * length itss + 3 * (Suc todo + (if cur = [] then 0 else 1)) \<le> length (bulk_free st1)" unfolding bulk_inv_def by blast
    have "leaf_fits blcksz (cur @ [it])"
    proof (cases "cur = []")
      case False
      then have "st1 = st" "\<not> ?full" using st1(2) inv(2) by auto
      then have "16 * (length cur + 1) + (length (concat (map item_blob cur)) + ?blob) \<le> upper_page_budget blcksz"
        using inv(2,3) by simp
      then show ?thesis using blob by (simp add: leaf_fits_def)
    qed (use fit1 in simp)
    then show ?thesis unfolding bulk_inv_def using inv
      by (intro exI[of _ itss] exI[of _ "cur @ [it]"]) (auto split: if_splits)
  qed
  have eq: "upper_add_leaf_entry blcksz it st = andThen (if ?full then upper_flush_leaf st else ret st)
      (\<lambda>st1. ret (st1\<lparr> bulk_entries := bulk_entries st1 @ [item_entry it], bulk_inline := bulk_inline st1 @ item_blob it \<rparr>))"
    unfolding upper_add_leaf_entry_def Let_def item_entry_def item_blob_def ..
  show ?thesis
  proof (cases ?full)
    case True
    from flush_leaf_ret[OF assms(1)] obtain st1 where "upper_flush_leaf st = ret st1" "bulk_entries st1 = []" "bulk_inv blcksz idx (Suc todo) its st1" by blast
    then show ?thesis using step[of st1] unfolding eq if_P[OF True] by auto
  next
    case False
    then show ?thesis using step[OF assms(1)] unfolding eq if_not_P[OF False] by auto
  qed
qed

lemma add_entries_ret:
  assumes "bulk_inv blcksz idx (length its + m) pre st" and "\<And>it. it \<in> set its \<Longrightarrow> item_ok blcksz it" and "16 \<le> upper_page_budget blcksz"
  shows "\<exists>st'. ofold (upper_add_leaf_entry blcksz) its st = ret st' \<and> bulk_inv blcksz idx m (pre @ its) st'"
  using assms(1,2)
proof (induction its arbitrary: pre st)
  case (Cons it its)
  from add_entry_ret[of blcksz idx "length its + m" pre st it] Cons.prems assms(3) obtain st1 where
    "upper_add_leaf_entry blcksz it st = ret st1" "bulk_inv blcksz idx (length its + m) (pre @ [it]) st1" by auto
  with Cons.IH[of "pre @ [it]" st1] Cons.prems(2) show ?case by auto
qed auto

text \<open>Three blocks per item are always enough; of three times \<open>m\<close> more that many are left.\<close>

theorem bulkload_ret:
  assumes "\<forall>it \<in> set its. item_ok blcksz it" and "2 \<le> UPPER_INTERNAL_MAX_ENTRIES blcksz"
    and "blocks_ok blocks idx" and "3 * (length its + m) \<le> length blocks"
  shows "\<exists>root idx' blocks'. pg_tre_upper_bulkload blcksz blocks idx its = ret (root, idx', blocks')
    \<and> blocks_ok blocks' idx' \<and> grown_tree idx idx' \<and> 3 * m \<le> length blocks'
    \<and> (if its = [] then root = InvalidBlockNumber else root \<noteq> InvalidBlockNumber \<and> upper_tree blcksz (tree_pages idx') root its)"
proof -
  have bud: "16 \<le> upper_page_budget blcksz"
    using assms(2) by (simp add: UPPER_INTERNAL_MAX_ENTRIES_def upper_page_budget_def)
  have "bulk_inv blcksz idx (length its + m) [] (upper_bulkload_init blocks idx)"
    unfolding bulk_inv_def using assms(3,4)
    by (intro exI[of _ "[]"]) (simp add: upper_bulkload_init_def leaf_fits_def)
  from add_entries_ret[OF this assms(1)[rule_format] bud] obtain st where
    st: "ofold (upper_add_leaf_entry blcksz) its (upper_bulkload_init blocks idx) = ret st" "bulk_inv blcksz idx m its st" by auto
  from flush_leaf_ret[OF st(2)] obtain st1 where st1: "upper_flush_leaf st = ret st1" "bulk_entries st1 = []" "bulk_inv blcksz idx m its st1" by blast
  then obtain itss where inv: "its = concat itss" "length (leaf_first_keys st1) = length (leaf_blocks st1)"
      "children_ok blcksz (tree_pages (bulk_index st1)) (zip (leaf_first_keys st1) (leaf_blocks st1)) itss"
      "blocks_ok (bulk_free st1) (bulk_index st1)" "grown_tree idx (bulk_index st1)" "2 * length itss + 3 * m \<le> length (bulk_free st1)"
    unfolding bulk_inv_def by auto
  have len: "length (leaf_blocks st1) = length itss" using list_all2_lengthD[OF inv(3)] inv(2) by simp
  show ?thesis
  proof (cases "leaf_blocks st1 = []")
    case True
    then have "its = []" using len inv(1) by simp
    moreover have "pg_tre_upper_bulkload blcksz blocks idx its = ret (InvalidBlockNumber, bulk_index st1, bulk_free st1)"
      using st(1) st1(1) True by (simp add: pg_tre_upper_bulkload_def)
    ultimately show ?thesis using inv(4-6) by simp
  next
    case False
    let ?cs = "zip (leaf_first_keys st1) (leaf_blocks st1)"
    have ne: "?cs \<noteq> []" "2 * length ?cs \<le> length (bulk_free st1) + 2" using False len inv(2,6) by auto
    have "its \<noteq> []"
    proof -
      obtain x xs where "itss = x # xs" using len False by (cases itss) auto
      moreover have "x \<noteq> []" using inv(3) \<open>itss = x # xs\<close> by (auto simp: list_all2_Cons2 child_ok_def)
      ultimately show ?thesis using inv(1) by simp
    qed
    moreover have "pg_tre_upper_bulkload blcksz blocks idx its = upper_build_internal_level blcksz ?cs (bulk_index st1) (bulk_free st1)"
      using st(1) st1(1) False by (simp add: pg_tre_upper_bulkload_def)
    moreover obtain root idx' k where "upper_build_internal_level blcksz ?cs (bulk_index st1) (bulk_free st1) = ret (root, idx', drop k (bulk_free st1))"
        "k + 2 \<le> 2 * length ?cs" "root \<noteq> InvalidBlockNumber" "upper_tree blcksz (tree_pages idx') root (concat itss)"
        "blocks_ok (drop k (bulk_free st1)) idx'" "grown_tree (bulk_index st1) idx'"
      using build_level[OF inv(3) ne(1) assms(2) inv(4) ne(2)] by blast
    moreover have "length ?cs = length itss" using len inv(2) by simp
    ultimately show ?thesis using grown_tree_trans[OF inv(5)] inv(1,6) by auto
  qed
qed

end
