(* ===== verification/Posting_Correct.thy ===== *)
theory Posting_Correct
  imports Posting Upper_Tree_Correct
begin

text \<open>
  The chain of leaves reads back as the union of its leaves, and a finished posting reads back as
  the identifiers that were added to it.
\<close>

section \<open>The binary counter\<close>

text \<open>The number of leaves that the slots stand for.\<close>

fun counter :: "sm option list \<Rightarrow> nat" where
  "counter [] = 0"
| "counter (x # xs) = (if x = None then 0 else 1) + 2 * counter xs"

definition slot_union :: "sm option list \<Rightarrow> sm" where
  "slot_union slots = (\<Union>x \<in> set slots. members x)"

definition empties :: "sm option list \<Rightarrow> nat" where
  "empties slots = length (filter (\<lambda>x. x = Some {}) slots)"

lemma slot_simps [simp]:
  "slot_union [] = {}" "slot_union (x # xs) = members x \<union> slot_union xs"
  "empties [] = 0" "empties (x # xs) = (if x = Some {} then 1 else 0) + empties xs"
  by (simp_all add: slot_union_def empties_def)

definition one_if_empty :: "sm \<Rightarrow> nat" where
  "one_if_empty s = (if s = {} then 1 else 0)"

lemma union_Some:
  "alloc_ok lib \<Longrightarrow> a \<noteq> {} \<or> b \<noteq> {} \<Longrightarrow> sm_union lib a b = Some (a \<union> b)"
  by (auto simp: alloc_ok_def sm_union_def)

text \<open>As long as at most one map is empty, no union is \<open>NULL\<close>.\<close>

lemma carry_ret:
  assumes "alloc_ok lib" and "counter slots + 1 < 2 ^ length slots" and "empties slots + one_if_empty s \<le> 1"
  shows "\<exists>slots'. carry lib root slots s = ret (Some slots') \<and> length slots' = length slots \<and> counter slots' = counter slots + 1
    \<and> slot_union slots' = slot_union slots \<union> s \<and> empties slots' \<le> empties slots + one_if_empty s"
  using assms(2,3)
proof (induction slots arbitrary: s)
  case (Cons x slots)
  show ?case
  proof (cases x)
    case None
    then show ?thesis by (auto simp: one_if_empty_def)
  next
    case (Some a)
    then have ne: "a \<noteq> {} \<or> s \<noteq> {}" using Cons.prems(2) by (auto simp: one_if_empty_def split: if_splits)
    then have "one_if_empty (a \<union> s) = 0" by (auto simp: one_if_empty_def)
    with Cons.IH[of "a \<union> s"] Cons.prems Some obtain slots' where
      "carry lib root slots (a \<union> s) = ret (Some slots')" "length slots' = length slots" "counter slots' = counter slots + 1"
      "slot_union slots' = slot_union slots \<union> (a \<union> s)" "empties slots' \<le> empties slots" by auto
    then show ?thesis using Some union_Some[OF assms(1) ne] by auto
  qed
qed simp

lemma fold_slots_ret:
  assumes "alloc_ok lib" and "empties slots + (case acc of None \<Rightarrow> 0 | Some s \<Rightarrow> one_if_empty s) \<le> 1" and "0 < counter slots \<or> acc \<noteq> None"
  shows "fold_slots lib slots acc = Some (slot_union slots \<union> members acc)"
  using assms
proof (induction lib slots acc rule: fold_slots.induct)
  case (4 lib' a slots s)
  then have ne: "a \<noteq> {} \<or> s \<noteq> {}" by (auto simp: one_if_empty_def split: if_splits)
  then have "one_if_empty (a \<union> s) = 0" by (auto simp: one_if_empty_def)
  then show ?case using 4 union_Some[OF "4.prems"(1) ne] by auto
qed (auto simp: one_if_empty_def split: if_splits)

section \<open>Chains of leaves\<close>

text \<open>A chain from a block to the end whose leaves hold the given maps.\<close>

fun post_seg :: "sm_lib \<Rightarrow> nat \<Rightarrow> (BlockNumber \<Rightarrow> tree_page option) \<Rightarrow> BlockNumber \<Rightarrow> sm list \<Rightarrow> bool" where
  "post_seg lib blcksz pages b [] \<longleftrightarrow> b = InvalidBlockNumber"
| "post_seg lib blcksz pages b (s # ss) \<longleftrightarrow> b \<noteq> InvalidBlockNumber
     \<and> (\<exists>hdr. pages b = Some (Posting_leaf hdr) \<and> posting_leaf_header_valid blcksz hdr
          \<and> sm_open_copy lib (sparsemap_data hdr) = Some s \<and> post_seg lib blcksz pages (post_right hdr) ss)"

lemma post_seg_mono: "post_seg lib blcksz pages b ss \<Longrightarrow> pages \<subseteq>\<^sub>m pages' \<Longrightarrow> post_seg lib blcksz pages' b ss"
  by (induction ss arbitrary: b) (auto dest: map_leD)

lemma union_chain_ret:
  assumes "alloc_ok lib" and "post_seg lib blcksz (tree_pages idx) nxt ss" and "length slots = 64"
    and "counter slots + length ss + 1 < 2 ^ 64" and "empties slots + one_if_empty s + length (filter (\<lambda>s. s = {}) ss) \<le> 1"
  shows "union_chain lib blcksz idx root slots s nxt = ret (Some (slot_union slots \<union> s \<union> \<Union> (set ss)))"
  using assms(2-5)
proof (induction ss arbitrary: nxt slots s)
  case Nil
  from carry_ret[OF assms(1), of slots s root] Nil.prems obtain slots' where
    c: "carry lib root slots s = ret (Some slots')" "counter slots' = counter slots + 1" "slot_union slots' = slot_union slots \<union> s"
      "empties slots' \<le> empties slots + one_if_empty s" by auto
  then have "fold_slots lib slots' None = Some (slot_union slots \<union> s)"
    using fold_slots_ret[OF assms(1), of slots' None] Nil.prems(4) by simp
  then show ?case using Nil.prems(1) c(1) by (subst union_chain.simps) simp
next
  case (Cons t ss)
  from Cons.prems(1) obtain hdr where hdr: "nxt \<noteq> InvalidBlockNumber" "tree_pages idx nxt = Some (Posting_leaf hdr)"
      "posting_leaf_header_valid blcksz hdr" "sm_open_copy lib (sparsemap_data hdr) = Some t" "post_seg lib blcksz (tree_pages idx) (post_right hdr) ss"
    by auto
  from carry_ret[OF assms(1), of slots s root] Cons.prems(2-4) obtain slots' where
    c: "carry lib root slots s = ret (Some slots')" "length slots' = 64" "counter slots' = counter slots + 1"
      "slot_union slots' = slot_union slots \<union> s" "empties slots' \<le> empties slots + one_if_empty s" by auto
  have "empties slots' + one_if_empty t + length (filter (\<lambda>s. s = {}) ss) \<le> 1"
    using c(5) Cons.prems(4) by (auto simp: one_if_empty_def split: if_splits)
  then have "union_chain lib blcksz idx root slots' t (post_right hdr) = ret (Some (slot_union slots' \<union> t \<union> \<Union> (set ss)))"
    using Cons.IH[OF hdr(5) c(2)] c(3) Cons.prems(3) by simp
  then show ?case using c(1,4) hdr(1-4)
    by (subst union_chain.simps) (simp add: read_posting_leaf_def read_tree_page_def Un_assoc)
qed

text \<open>Reading a chain of at most one empty leaf gives the union of its leaves.\<close>

lemma materialize_chain:
  assumes "alloc_ok lib" and "post_seg lib blcksz (tree_pages idx) root ss" and "ss \<noteq> []" and "length ss < 2 ^ 64"
    and "length (filter (\<lambda>s. s = {}) ss) \<le> 1"
  shows "pg_tre_posting_materialize lib blcksz idx root None 0 = ret (Some (\<Union> (set ss)))"
proof -
  obtain s rest where ss: "ss = s # rest" using assms(3) by (cases ss) auto
  with assms(2) obtain hdr where hdr: "root \<noteq> InvalidBlockNumber" "tree_pages idx root = Some (Posting_leaf hdr)"
      "posting_leaf_header_valid blcksz hdr" "sm_open_copy lib (sparsemap_data hdr) = Some s" "post_seg lib blcksz (tree_pages idx) (post_right hdr) rest"
    by auto
  have z: "counter (replicate n None) = 0" "slot_union (replicate n None) = {}" "empties (replicate n None) = 0" for n
    by (induction n) simp_all
  have "union_chain lib blcksz idx root (replicate 64 None) s (post_right hdr) = ret (Some (s \<union> \<Union> (set rest)))"
    using union_chain_ret[OF assms(1) hdr(5), of "replicate 64 None" s root] assms(4,5) ss z
    by (auto simp: one_if_empty_def split: if_splits)
  moreover have "\<not> is_coalesced 0" by (simp add: is_coalesced_def)
  ultimately show ?thesis using hdr(1-4) ss
    by (simp add: pg_tre_posting_materialize_def read_posting_leaf_def read_tree_page_def)
qed

section \<open>Writing leaves\<close>

text \<open>The map of a single member fits a leaf.\<close>

definition single_fits :: "sm_lib \<Rightarrow> nat \<Rightarrow> bool" where
  "single_fits lib blcksz \<longleftrightarrow> (\<forall>m. length (sm_bytes lib [m]) \<le> posting_leaf_budget blcksz)"

lemma leaf_fill_count_ret:
  assumes "alloc_ok lib" and "tids \<noteq> []"
  shows "\<exists>n. leaf_fill_count lib tids budget = ret n \<and> 1 \<le> n \<and> n \<le> length tids"
proof -
  let ?n = "length (takeWhile (\<lambda>n. \<not> sm_overflows lib budget (take (Suc n) tids)) [0..<length tids])"
  have "?n \<le> length tids" by (metis length_takeWhile_le length_upt minus_nat.diff_0)
  then show ?thesis using assms by (auto simp: leaf_fill_count_def alloc_ok_def Let_def Suc_le_eq)
qed

lemma fit_slice_ret:
  assumes "alloc_ok lib" and "single_fits lib blcksz" and "1 \<le> n" and "n \<le> length tids"
  shows "\<exists>m. fit_slice lib tids (posting_leaf_budget blcksz) n = ret (m, sm_bytes lib (take m tids)) \<and> 1 \<le> m \<and> m \<le> n
    \<and> length (sm_bytes lib (take m tids)) \<le> posting_leaf_budget blcksz"
  using assms(3,4)
proof (induction n rule: less_induct)
  case (less n)
  have nf: "\<not> build_fails lib (take n tids)" using assms(1) by (simp add: alloc_ok_def)
  show ?case
  proof (cases "length (sm_bytes lib (take n tids)) \<le> posting_leaf_budget blcksz \<or> n = 1")
    case True
    have "length (sm_bytes lib (take n tids)) \<le> posting_leaf_budget blcksz"
    proof (cases "n = 1")
      case n1: True
      obtain m ms where "tids = m # ms" using less.prems by (cases tids) auto
      then show ?thesis using assms(2) n1 by (simp add: single_fits_def)
    qed (use True in simp)
    moreover have "fit_slice lib tids (posting_leaf_budget blcksz) n = ret (n, sm_bytes lib (take n tids))"
      using True nf by (subst fit_slice.simps) (auto simp: Let_def)
    ultimately show ?thesis using less.prems by blast
  next
    case False
    let ?n' = "if n - (n + 7) div 8 < 1 then 1 else n - (n + 7) div 8"
    have lt: "?n' < n" "1 \<le> ?n'" "?n' \<le> length tids" using False less.prems by auto
    have "fit_slice lib tids (posting_leaf_budget blcksz) n = fit_slice lib tids (posting_leaf_budget blcksz) ?n'"
      using False nf by (subst fit_slice.simps) (simp add: Let_def)
    then show ?thesis using less.IH[OF lt] lt(1) by (metis less_imp_le le_trans)
  qed
qed

declare fit_slice.simps [simp del]

lemma write_leaf_ret:
  assumes "codec_ok lib" and "blocks_ok (b # bs) idx" and "length (sm_bytes lib ms) \<le> posting_leaf_budget blcksz"
    and "post_seg lib blcksz (tree_pages idx) right ss"
  shows "\<exists>idx'. write_single_leaf blcksz (sm_bytes lib ms) mn mx n right (idx, b # bs) = ret (b, idx', bs)
    \<and> post_seg lib blcksz (tree_pages idx') b (set ms # ss) \<and> blocks_ok bs idx' \<and> grown_tree idx idx'
    \<and> dom (tree_pages idx') = insert b (dom (tree_pages idx))"
proof -
  let ?page = "Posting_leaf \<lparr> post_right = right, post_min_tid = mn, post_max_tid = mx, sparsemap_data = sm_bytes lib ms,
    payload_bytes = 0, payload_offset = 0, post_n = (if n > 65535 then - 1 else word_of_nat n), post_deleted = False \<rparr>"
  let ?idx = "put_tree_page b ?page idx"
  have "write_single_leaf blcksz (sm_bytes lib ms) mn mx n right (idx, b # bs) = ret (b, ?idx, bs)"
    using assms(3) by (simp add: write_single_leaf_def pg_tre_extend_def)
  moreover have "post_seg lib blcksz (tree_pages ?idx) b (set ms # ss)"
    using put_fresh[OF assms(2)] post_seg_mono[OF assms(4)] assms(1,3)
    by (auto simp: posting_leaf_header_valid_def codec_ok_def)
  moreover have "dom (tree_pages ?idx) = insert b (dom (tree_pages idx))" by (simp add: put_tree_page_def)
  ultimately show ?thesis using put_fresh(1)[OF assms(2)] grown_put[OF assms(2)] by blast
qed

lemma write_leaves_ret:
  assumes "alloc_ok lib" and "codec_ok lib" and "single_fits lib blcksz"
    and "blocks_ok blocks idx" and "length tids \<le> length blocks" and "post_seg lib blcksz (tree_pages idx) right ss" and "{} \<notin> set ss"
  shows "\<exists>root idx' k ss'. write_leaves lib blcksz tids right (idx, blocks) = ret (root, idx', drop k blocks) \<and> k \<le> length tids
    \<and> post_seg lib blcksz (tree_pages idx') root ss' \<and> \<Union> (set ss') = set tids \<union> \<Union> (set ss) \<and> {} \<notin> set ss'
    \<and> length ss' \<le> length tids + length ss \<and> blocks_ok (drop k blocks) idx' \<and> grown_tree idx idx'
    \<and> dom (tree_pages idx') \<subseteq> dom (tree_pages idx) \<union> set blocks"
  using assms(4-7)
proof (induction "length tids" arbitrary: tids right idx blocks ss rule: less_induct)
  case less
  show ?case
  proof (cases "tids = []")
    case True
    then show ?thesis using less.prems
      by (subst write_leaves.simps) (auto intro!: exI[of _ 0] exI[of _ ss])
  next
    case False
    from leaf_fill_count_ret[OF assms(1) False] obtain n0 where n0: "leaf_fill_count lib tids (posting_leaf_budget blcksz) = ret n0" "1 \<le> n0" "n0 \<le> length tids"
      by blast
    from fit_slice_ret[OF assms(1,3) n0(2,3)] obtain n where n: "1 \<le> n" "n \<le> n0"
        "fit_slice lib tids (posting_leaf_budget blcksz) n0 = ret (n, sm_bytes lib (take n tids))"
        "length (sm_bytes lib (take n tids)) \<le> posting_leaf_budget blcksz" by blast
    obtain b bs where blk: "blocks = b # bs" using less.prems(2) False by (cases blocks) auto
    from write_leaf_ret[OF assms(2) less.prems(1)[unfolded blk] n(4) less.prems(3), of "tids ! 0" "tids ! (n - 1)" n] obtain idx1 where
      w: "write_single_leaf blcksz (sm_bytes lib (take n tids)) (tids ! 0) (tids ! (n - 1)) n right (idx, blocks) = ret (b, idx1, bs)"
        "post_seg lib blcksz (tree_pages idx1) b (set (take n tids) # ss)" "blocks_ok bs idx1" "grown_tree idx idx1" "dom (tree_pages idx1) = insert b (dom (tree_pages idx))" unfolding blk by blast
    have pre: "length (drop n tids) < length tids" "length (drop n tids) \<le> length bs" "{} \<notin> set (set (take n tids) # ss)"
      using n(1) False less.prems(2,4) blk by auto
    from less.hyps[OF pre(1) w(3) pre(2) w(2) pre(3)] obtain root idx' k ss' where
      r: "write_leaves lib blcksz (drop n tids) b (idx1, bs) = ret (root, idx', drop k bs)" "k \<le> length (drop n tids)"
        "post_seg lib blcksz (tree_pages idx') root ss'" "\<Union> (set ss') = set (drop n tids) \<union> \<Union> (set (set (take n tids) # ss))" "{} \<notin> set ss'"
        "length ss' \<le> length (drop n tids) + length (set (take n tids) # ss)" "blocks_ok (drop k bs) idx'" "grown_tree idx1 idx'"
        "dom (tree_pages idx') \<subseteq> dom (tree_pages idx1) \<union> set bs" by blast
    have "set tids = set (take n tids) \<union> set (drop n tids)" by (metis append_take_drop_id set_append)
    then have un: "\<Union> (set ss') = set tids \<union> \<Union> (set ss)" using r(4) by auto
    have "write_leaves lib blcksz tids right (idx, blocks) = ret (root, idx', drop (Suc k) blocks)"
      using False n0(1) n(3,4) w(1) r(1) blk by (subst write_leaves.simps) simp
    moreover have "Suc k \<le> length tids" "length ss' \<le> length tids + length ss" using r(2,6) n(1,2) n0(3) by auto
    moreover have "dom (tree_pages idx') \<subseteq> dom (tree_pages idx) \<union> set blocks" using r(9) w(5) blk by auto
    ultimately show ?thesis using r(3,5,7) un grown_tree_trans[OF w(4) r(8)] blk by (intro exI[of _ root] exI[of _ idx'] exI[of _ "Suc k"] exI[of _ ss']) simp
  qed
qed

end
