(* ===== verification/Posting_Build.thy ===== *)
theory Posting_Build
  imports Posting_Correct
begin

text \<open>
  What a builder leaves behind: whatever form it chooses for a posting, the entry for the upper
  tree leads a scan back to the identifiers that were added, also after later postings were
  written and the open coalesced page was flushed.
\<close>

section \<open>The coalesced writer among other writers\<close>

definition open_fresh :: "PgTreCoalescedWriter \<Rightarrow> tre_index \<Rightarrow> bool" where
  "open_fresh w idx \<longleftrightarrow> (\<forall>b p. open_buf w = Some (b, p) \<longrightarrow> b \<notin> dom (tree_pages idx))"

type_synonym slot_history = "((BlockNumber \<times> uint16) \<times> (uint64 \<times> uint8 list)) list"

definition build_inv :: "nat \<Rightarrow> slot_history \<Rightarrow> build_state \<Rightarrow> bool" where
  "build_inv blcksz hist = (\<lambda>(cw, idx, blocks). blocks_ok blocks idx
     \<and> (case cw of None \<Rightarrow> hist = [] | Some w \<Rightarrow> writer_inv blcksz hist (w, idx, blocks) \<and> open_fresh w idx))"

lemma slot_at_mono: "slot_at blcksz idx at e \<Longrightarrow> tree_pages idx \<subseteq>\<^sub>m tree_pages idx' \<Longrightarrow> slot_at blcksz idx' at e"
  unfolding slot_at_def by (auto dest: map_leD)

lemma flush_mono: "tree_pages idx \<subseteq>\<^sub>m tree_pages idx' \<Longrightarrow> tree_pages (flush_page w idx) \<subseteq>\<^sub>m tree_pages (flush_page w idx')"
  by (auto simp: flush_page_def map_le_def split: option.splits)

lemma flush_grown: "open_fresh w idx \<Longrightarrow> grown_tree idx (flush_page w idx)"
  by (auto simp: open_fresh_def flush_page_def grown_tree_def map_le_def split: option.splits)

text \<open>Pages written elsewhere, in blocks that were free, do not disturb the writer.\<close>

lemma writer_inv_grow:
  assumes "writer_inv blcksz hist (w, idx, blocks)" and "grown_tree idx idx'" and "set blocks' \<subseteq> set blocks" and "distinct blocks'"
  shows "writer_inv blcksz hist (w, idx', blocks')"
proof -
  have "tree_pages (flush_page w idx) \<subseteq>\<^sub>m tree_pages (flush_page w idx')" using assms(2) by (auto simp: grown_tree_def intro: flush_mono)
  then show ?thesis using assms(1,3,4) slot_at_mono unfolding writer_inv_def by blast
qed

lemma build_inv_grow:
  assumes "build_inv blcksz hist (cw, idx, blocks)" and "grown_tree idx idx'" and "blocks_ok (drop k blocks) idx'"
    and "dom (tree_pages idx') \<subseteq> dom (tree_pages idx) \<union> set blocks"
  shows "build_inv blcksz hist (cw, idx', drop k blocks)"
proof (cases cw)
  case None
  then show ?thesis using assms(1,3) by (simp add: build_inv_def)
next
  case (Some w)
  then have w: "writer_inv blcksz hist (w, idx, blocks)" "open_fresh w idx" using assms(1) by (simp_all add: build_inv_def)
  have "b \<notin> set blocks" if "open_buf w = Some (b, p)" for b p using w(1) that unfolding writer_inv_def by auto
  then have "open_fresh w idx'" using w(2) assms(4) unfolding open_fresh_def by blast
  moreover have "writer_inv blcksz hist (w, idx', drop k blocks)"
    by (rule writer_inv_grow[OF w(1) assms(2) set_drop_subset]) (use assms(3) in \<open>simp add: blocks_ok_def\<close>)
  ultimately show ?thesis using Some assms(3) by (simp add: build_inv_def)
qed

lemma coalesced_add_frame:
  assumes "blcksz_ok blcksz" and "slot_entry_ok blcksz d []" and "build_inv blcksz hist (Some w, idx, blocks)" and "blocks \<noteq> []"
  shows "\<exists>at w' idx' blocks'. pg_tre_coalesced_add blcksz h d [] (w, idx, blocks) = ret (at, w', idx', blocks')
    \<and> build_inv blcksz (hist @ [(at, (h, d))]) (Some w', idx', blocks') \<and> grown_tree idx idx' \<and> length blocks \<le> Suc (length blocks')"
proof -
  have inv: "writer_inv blcksz hist (w, idx, blocks)" "open_fresh w idx" "blocks_ok blocks idx" using assms(3) by (simp_all add: build_inv_def)
  from coalesced_add_ret[OF assms(1,2) inv(1) assms(4), of h] obtain at w' idx' blocks' where
    r: "pg_tre_coalesced_add blcksz h d [] (w, idx, blocks) = ret (at, w', idx', blocks')"
      "writer_inv blcksz (hist @ [(at, (h, d))]) (w', idx', blocks')" "length blocks \<le> Suc (length blocks')" by blast
  obtain b1 bs where blk: "blocks = b1 # bs" using assms(4) by (cases blocks) auto
  have fg: "grown_tree idx (flush_page w idx)" by (rule flush_grown[OF inv(2)])
  have nb: "b \<notin> set blocks" if "open_buf w = Some (b, p)" for b p using inv(1) that unfolding writer_inv_def by auto
  have fb: "blocks_ok bs (flush_page w idx)" "b1 \<notin> dom (tree_pages (flush_page w idx))" "blocks_ok bs idx" "b1 \<notin> dom (tree_pages idx)"
    using inv(3) blk nb by (auto simp: blocks_ok_def flush_page_def split: option.splits)
  have "blocks_ok blocks' idx' \<and> grown_tree idx idx' \<and> open_fresh w' idx'"
    using r(1) add_cases[OF assms(1,2) blk, of h w idx] inv(2,3) fg fb
    by (auto simp: add_result_def open_fresh_def split: option.splits if_splits)
  then show ?thesis using r by (auto simp: build_inv_def)
qed

section \<open>A finished posting\<close>

text \<open>The entry for the upper tree leads to the members \<open>S\<close>.\<close>

definition item_holds :: "sm_lib \<Rightarrow> nat \<Rightarrow> slot_history \<Rightarrow> (BlockNumber \<Rightarrow> tree_page option) \<Rightarrow> upper_item \<Rightarrow> sm \<Rightarrow> bool" where
  "item_holds lib blcksz hist pages it S \<longleftrightarrow>
     (\<exists>slot d. it_data it = [] \<and> it_bytes it = unat (PG_TRE_COALESCED_FLAG OR ucast slot)
        \<and> ((it_root it, slot), (it_hash it, d)) \<in> set hist \<and> sm_open_copy lib d = Some S)
     \<or> 8 \<le> it_bytes it \<and> it_bytes it \<le> PG_TRE_INLINE_POSTING_MAX \<and> it_bytes it = length (it_data it) \<and> sm_open_copy lib (it_data it) = Some S
     \<or> it_bytes it = 0 \<and> it_data it = [] \<and> (\<exists>ss. post_seg lib blcksz pages (it_root it) ss \<and> ss \<noteq> [] \<and> {} \<notin> set ss
          \<and> length ss < 2 ^ 64 \<and> \<Union> (set ss) = S)"

lemma item_holds_mono:
  "item_holds lib blcksz hist pages it S \<Longrightarrow> set hist \<subseteq> set hist' \<Longrightarrow> pages \<subseteq>\<^sub>m pages' \<Longrightarrow> item_holds lib blcksz hist' pages' it S"
  unfolding item_holds_def by (blast intro: post_seg_mono)

text \<open>How the build turns a finished posting into an entry.\<close>

definition fin_item :: "uint64 \<Rightarrow> finished \<Rightarrow> upper_item" where
  "fin_item h fin =
     (case fin_coalesced fin of
        Some (cblk, cslot) \<Rightarrow> \<lparr> it_hash = h, it_root = cblk, it_data = [], it_bytes = unat (PG_TRE_COALESCED_FLAG OR ucast cslot) \<rparr>
      | None \<Rightarrow> \<lparr> it_hash = h, it_root = fin_root fin, it_data = (case fin_inline fin of None \<Rightarrow> [] | Some d \<Rightarrow> d), it_bytes = fin_bytes fin \<rparr>)"

lemma fin_item_hash [simp]: "it_hash (fin_item h fin) = h"
  by (simp add: fin_item_def split: option.splits prod.splits)

text \<open>What the theorems ask of the server and the bitmap library.\<close>

definition build_env :: "sm_lib \<Rightarrow> nat \<Rightarrow> bool" where
  "build_env lib blcksz \<longleftrightarrow> alloc_ok lib \<and> codec_ok lib \<and> single_fits lib blcksz \<and> blcksz_ok blcksz \<and> 4096 \<le> blcksz"

lemma write_tree_ret:
  assumes "build_env lib blcksz" and "build_inv blcksz hist (cw, idx, blocks)" and "pb_tids b \<noteq> []"
    and "length (pb_tids b) \<le> length blocks" and "length (pb_tids b) < 2 ^ 64" and "\<not> multi \<longrightarrow> bytes = sm_bytes lib (pb_tids b)"
  shows "\<exists>fin idx' blocks'. write_tree lib blcksz b multi bytes (cw, idx, blocks) = ret (fin, cw, idx', blocks')
    \<and> build_inv blcksz hist (cw, idx', blocks') \<and> grown_tree idx idx' \<and> length blocks \<le> length blocks' + length (pb_tids b)
    \<and> item_holds lib blcksz hist (tree_pages idx') (fin_item h fin) (set (pb_tids b))"
proof -
  have env: "alloc_ok lib" "codec_ok lib" "single_fits lib blcksz" using assms(1) by (simp_all add: build_env_def)
  have bo: "blocks_ok blocks idx" using assms(2) by (simp add: build_inv_def)
  have "\<exists>root idx' k ss. (if \<not> multi \<and> length bytes \<le> posting_leaf_budget blcksz
              then write_single_leaf blcksz bytes (pb_min b) (pb_max b) (length (pb_tids b)) InvalidBlockNumber (idx, blocks)
              else write_leaves lib blcksz (pb_tids b) InvalidBlockNumber (idx, blocks)) = ret (root, idx', drop k blocks)
     \<and> k \<le> length (pb_tids b) \<and> post_seg lib blcksz (tree_pages idx') root ss \<and> ss \<noteq> [] \<and> {} \<notin> set ss \<and> length ss < 2 ^ 64
     \<and> \<Union> (set ss) = set (pb_tids b) \<and> blocks_ok (drop k blocks) idx' \<and> grown_tree idx idx'
     \<and> dom (tree_pages idx') \<subseteq> dom (tree_pages idx) \<union> set blocks"
  proof (cases "\<not> multi \<and> length bytes \<le> posting_leaf_budget blcksz")
    case True
    then have eqb: "bytes = sm_bytes lib (pb_tids b)" using assms(6) by simp
    obtain b1 bs where blk: "blocks = b1 # bs" using assms(3,4) by (cases blocks) auto
    have "post_seg lib blcksz (tree_pages idx) InvalidBlockNumber []" by simp
    from write_leaf_ret[OF env(2) bo[unfolded blk] _ this] True eqb obtain idx' where
      "write_single_leaf blcksz bytes (pb_min b) (pb_max b) (length (pb_tids b)) InvalidBlockNumber (idx, blocks) = ret (b1, idx', bs)"
      "post_seg lib blcksz (tree_pages idx') b1 [set (pb_tids b)]" "blocks_ok bs idx'" "grown_tree idx idx'"
      "dom (tree_pages idx') = insert b1 (dom (tree_pages idx))" unfolding blk by blast
    then show ?thesis using True blk assms(3)
      by (intro exI[of _ b1] exI[of _ idx'] exI[of _ 1] exI[of _ "[set (pb_tids b)]"]) (auto simp: Suc_le_eq)
  next
    case False
    have nil: "post_seg lib blcksz (tree_pages idx) InvalidBlockNumber []" "{} \<notin> set []" by simp_all
    from write_leaves_ret[OF env bo assms(4) nil] obtain root idx' k ss where
      r: "write_leaves lib blcksz (pb_tids b) InvalidBlockNumber (idx, blocks) = ret (root, idx', drop k blocks)" "k \<le> length (pb_tids b)"
        "post_seg lib blcksz (tree_pages idx') root ss" "\<Union> (set ss) = set (pb_tids b)" "{} \<notin> set ss" "length ss \<le> length (pb_tids b)"
        "blocks_ok (drop k blocks) idx'" "grown_tree idx idx'" "dom (tree_pages idx') \<subseteq> dom (tree_pages idx) \<union> set blocks" by auto
    then have "ss \<noteq> []" using assms(3) by auto
    then show ?thesis using False r assms(5)
      by (intro exI[of _ root] exI[of _ idx'] exI[of _ k] exI[of _ ss]) auto
  qed
  then obtain root idx' k ss where r: "(if \<not> multi \<and> length bytes \<le> posting_leaf_budget blcksz
              then write_single_leaf blcksz bytes (pb_min b) (pb_max b) (length (pb_tids b)) InvalidBlockNumber (idx, blocks)
              else write_leaves lib blcksz (pb_tids b) InvalidBlockNumber (idx, blocks)) = ret (root, idx', drop k blocks)"
     "k \<le> length (pb_tids b)" "post_seg lib blcksz (tree_pages idx') root ss" "ss \<noteq> []" "{} \<notin> set ss" "length ss < 2 ^ 64"
     "\<Union> (set ss) = set (pb_tids b)" "blocks_ok (drop k blocks) idx'" "grown_tree idx idx'"
     "dom (tree_pages idx') \<subseteq> dom (tree_pages idx) \<union> set blocks" by blast
  let ?fin = "\<lparr> fin_root = root, fin_inline = None, fin_bytes = 0, fin_coalesced = None \<rparr>"
  have "item_holds lib blcksz hist (tree_pages idx') (fin_item h ?fin) (set (pb_tids b))"
    unfolding item_holds_def fin_item_def using r(3-7) by auto
  moreover have "write_tree lib blcksz b multi bytes (cw, idx, blocks) = ret (?fin, cw, idx', drop k blocks)"
    unfolding write_tree_def split_conv r(1) by simp
  ultimately show ?thesis using build_inv_grow[OF assms(2) r(9,8,10)] r(2,9) by (intro exI[of _ ?fin]) auto
qed

lemma coalesce_entry_ok:
  assumes "blcksz_ok blcksz" and "length d \<le> pg_tre_coalesce_max blcksz" and "0 < length d"
  shows "slot_entry_ok blcksz d []"
proof -
  have b: "1024 \<le> blcksz" "blcksz \<le> 32768" using assms(1) by (rule blcksz_bounds)+
  define m where "m = (pg_tre_coalesced_budget blcksz div 2 - 16) div 8"
  have m: "length d \<le> m * 8" "m * 8 \<le> pg_tre_coalesced_budget blcksz div 2 - 16"
    using assms(2) by (simp_all add: m_def pg_tre_coalesce_max_def)
  have "(length d + 7) div 8 \<le> m" using m(1) by linarith
  then have "MAXALIGN (length d) \<le> m * 8" by (simp add: MAXALIGN_def)
  moreover have "length d < 2 ^ 16" "m * 8 + 16 \<le> pg_tre_coalesced_budget blcksz"
    using m b by (simp_all add: pg_tre_coalesced_budget_def)
  ultimately show ?thesis using assms(3) by (simp add: slot_entry_ok_def slot_footprint_def)
qed

theorem finish_ex_ret:
  assumes "build_env lib blcksz" and "build_inv blcksz hist (cw, idx, blocks)" and "pb_tids b \<noteq> []"
    and "length (pb_tids b) \<le> length blocks" and "length (pb_tids b) < 2 ^ 64"
  shows "\<exists>fin cw' idx' blocks' hist'. pg_tre_posting_build_finish_ex lib blcksz b (cw, idx, blocks) = ret (fin, cw', idx', blocks')
    \<and> build_inv blcksz hist' (cw', idx', blocks') \<and> grown_tree idx idx' \<and> set hist \<subseteq> set hist'
    \<and> length blocks \<le> length blocks' + length (pb_tids b)
    \<and> item_holds lib blcksz hist' (tree_pages idx') (fin_item (pb_hash b) fin) (set (pb_tids b))"
proof -
  let ?tids = "pb_tids b" and ?budget = "posting_leaf_budget blcksz"
  have env: "alloc_ok lib" "codec_ok lib" "blcksz_ok blcksz" using assms(1) by (simp_all add: build_env_def)
  have nf: "\<not> build_fails lib ms" for ms using env(1) by (simp add: alloc_ok_def)
  from leaf_fill_count_ret[OF env(1) assms(3)] obtain n where n: "leaf_fill_count lib ?tids ?budget = ret n" by blast
  define multi bytes where "multi = (n < length ?tids)" and "bytes = (if multi then [] else sm_bytes lib ?tids)"
  have bytes: "\<not> multi \<longrightarrow> bytes = sm_bytes lib ?tids" by (simp add: bytes_def)
  have cod: "sm_open_copy lib (sm_bytes lib ?tids) = Some (set ?tids)" "8 \<le> length (sm_bytes lib ?tids)"
    using env(2) by (simp_all add: codec_ok_def)
  have eq: "pg_tre_posting_build_finish_ex lib blcksz b (cw, idx, blocks) =
      (if \<not> multi \<and> length bytes \<le> PG_TRE_INLINE_POSTING_MAX
       then ret (\<lparr> fin_root = InvalidBlockNumber, fin_inline = Some bytes, fin_bytes = length bytes, fin_coalesced = None \<rparr>, cw, idx, blocks)
       else case cw of
         Some w \<Rightarrow>
           if \<not> multi \<and> length bytes \<le> pg_tre_coalesce_max blcksz
           then andThen (pg_tre_coalesced_add blcksz (pb_hash b) bytes [] (w, idx, blocks)) (\<lambda>(at, w', idx', blocks').
                  ret (\<lparr> fin_root = InvalidBlockNumber, fin_inline = None, fin_bytes = 0, fin_coalesced = Some at \<rparr>, Some w', idx', blocks'))
           else write_tree lib blcksz b multi bytes (cw, idx, blocks)
       | None \<Rightarrow> write_tree lib blcksz b multi bytes (cw, idx, blocks))"
  proof -
    have "andThen (if ?tids = [] then ret False else andThen (leaf_fill_count lib ?tids ?budget) (\<lambda>n. ret (n < length ?tids))) f = f multi" for f :: "bool \<Rightarrow> (finished \<times> build_state) outcome"
      using assms(3) n by (simp add: multi_def)
    moreover have "andThen (if multi then ret [] else if build_fails lib ?tids then raise Out_of_memory else ret (sm_bytes lib ?tids)) f = f bytes" for f :: "uint8 list \<Rightarrow> (finished \<times> build_state) outcome"
      using nf by (simp add: bytes_def)
    ultimately show ?thesis unfolding pg_tre_posting_build_finish_ex_def split_conv Let_def by (simp only:)
  qed
  consider (inline) "\<not> multi" "length bytes \<le> PG_TRE_INLINE_POSTING_MAX"
    | (slot) w where "\<not> (\<not> multi \<and> length bytes \<le> PG_TRE_INLINE_POSTING_MAX)" "cw = Some w" "\<not> multi" "length bytes \<le> pg_tre_coalesce_max blcksz"
    | (tree) "pg_tre_posting_build_finish_ex lib blcksz b (cw, idx, blocks) = write_tree lib blcksz b multi bytes (cw, idx, blocks)"
    using eq by (cases cw) (auto split: if_splits)
  then show ?thesis
  proof cases
    case inline
    let ?fin = "\<lparr> fin_root = InvalidBlockNumber, fin_inline = Some bytes, fin_bytes = length bytes, fin_coalesced = None \<rparr>"
    have "item_holds lib blcksz hist (tree_pages idx) (fin_item (pb_hash b) ?fin) (set ?tids)"
      unfolding item_holds_def fin_item_def using inline bytes cod by simp
    moreover have "pg_tre_posting_build_finish_ex lib blcksz b (cw, idx, blocks) = ret (?fin, cw, idx, blocks)"
      using inline eq by simp
    ultimately show ?thesis using assms(2) grown_tree_refl by (intro exI[of _ ?fin] exI[of _ cw] exI[of _ idx] exI[of _ blocks] exI[of _ hist]) simp
  next
    case (slot w)
    have ne: "blocks \<noteq> []" using assms(3,4) by auto
    have "slot_entry_ok blcksz bytes []"
      by (rule coalesce_entry_ok[OF env(3) slot(4)]) (use bytes slot(3) cod(2) in auto)
    from coalesced_add_frame[OF env(3) this assms(2)[unfolded slot(2)] ne, of "pb_hash b"] obtain at w' idx' blocks' where
      r: "pg_tre_coalesced_add blcksz (pb_hash b) bytes [] (w, idx, blocks) = ret (at, w', idx', blocks')"
        "build_inv blcksz (hist @ [(at, (pb_hash b, bytes))]) (Some w', idx', blocks')" "grown_tree idx idx'" "length blocks \<le> Suc (length blocks')" by blast
    let ?fin = "\<lparr> fin_root = InvalidBlockNumber, fin_inline = None, fin_bytes = 0, fin_coalesced = Some at \<rparr>"
    obtain cb cs where at: "at = (cb, cs)" by (cases at)
    have "item_holds lib blcksz (hist @ [(at, (pb_hash b, bytes))]) (tree_pages idx') (fin_item (pb_hash b) ?fin) (set ?tids)"
      unfolding item_holds_def fin_item_def using bytes slot(3) cod(1) at by auto
    moreover have "pg_tre_posting_build_finish_ex lib blcksz b (cw, idx, blocks) = ret (?fin, Some w', idx', blocks')"
      unfolding eq if_not_P[OF slot(1)] using slot(2-4) r(1) by simp
    moreover have "length blocks \<le> length blocks' + length ?tids" using r(4) assms(3) by (cases ?tids) auto
    ultimately show ?thesis using r(2,3)
      by (intro exI[of _ ?fin] exI[of _ "Some w'"] exI[of _ idx'] exI[of _ blocks'] exI[of _ "hist @ [(at, (pb_hash b, bytes))]"]) auto
  next
    case tree
    with write_tree_ret[OF assms bytes, of "pb_hash b"] show ?thesis by fastforce
  qed
qed

section \<open>Reading an entry\<close>

lemma flag_bit: "bit PG_TRE_COALESCED_FLAG n \<longleftrightarrow> n = 31"
proof -
  have f: "PG_TRE_COALESCED_FLAG = 2 ^ 31" by (simp add: PG_TRE_COALESCED_FLAG_def)
  show ?thesis unfolding f bit_exp_iff by auto
qed

lemma slot_mask_bit: "bit PG_TRE_COALESCED_SLOT_MASK n \<longleftrightarrow> n < 16"
proof -
  have f: "PG_TRE_COALESCED_SLOT_MASK = mask 16" by (simp add: PG_TRE_COALESCED_SLOT_MASK_def mask_eq_exp_minus_1)
  show ?thesis unfolding f bit_mask_iff by auto
qed

lemma is_coalesced_bit: "is_coalesced w \<longleftrightarrow> bit w 31"
proof
  assume "is_coalesced w"
  then obtain n where "bit (w AND PG_TRE_COALESCED_FLAG) n" unfolding is_coalesced_def by (metis bit_0_eq bot_apply bit_word_eqI bot_bool_def)
  then show "bit w 31" by (auto simp: bit_and_iff flag_bit)
next
  assume "bit w 31"
  then have "bit (w AND PG_TRE_COALESCED_FLAG) 31" by (simp add: bit_and_iff flag_bit)
  then show "is_coalesced w" by (auto simp: is_coalesced_def)
qed

lemma small_not_coalesced: "n < 2 ^ 31 \<Longrightarrow> \<not> is_coalesced (word_of_nat n)"
  unfolding is_coalesced_bit bit_of_nat_iff by (simp add: bit_iff_odd)

lemma coalesced_marker:
  "is_coalesced (PG_TRE_COALESCED_FLAG OR ucast (slot :: uint16))"
  "ucast ((PG_TRE_COALESCED_FLAG OR ucast (slot :: uint16)) AND PG_TRE_COALESCED_SLOT_MASK) = slot"
proof -
  show "is_coalesced (PG_TRE_COALESCED_FLAG OR ucast slot)" by (simp add: is_coalesced_bit bit_or_iff flag_bit)
  show "ucast ((PG_TRE_COALESCED_FLAG OR ucast slot) AND PG_TRE_COALESCED_SLOT_MASK) = slot"
    by (rule bit_word_eqI) (auto simp: bit_or_iff bit_and_iff flag_bit slot_mask_bit bit_ucast_iff)
qed

lemma item_holds_ok:
  assumes "item_holds lib blcksz hist pages it S" and "4096 \<le> blcksz"
  shows "item_ok blcksz it"
proof -
  have "it_bytes it < 2 ^ 32" using assms(1) unsigned_less[of "PG_TRE_COALESCED_FLAG OR ucast (slot :: uint16)" for slot]
    by (auto simp: item_holds_def PG_TRE_INLINE_POSTING_MAX_def)
  then show ?thesis using assms coalesced_marker(1)
    by (auto simp: item_ok_def item_holds_def upper_page_budget_def PG_TRE_INLINE_POSTING_MAX_def)
qed

text \<open>A lookup that returns the entry brings the members back.\<close>

lemma item_holds_read:
  assumes "build_env lib blcksz" and "item_holds lib blcksz hist (tree_pages idx) it S"
    and "\<And>at e. (at, e) \<in> set hist \<Longrightarrow> slot_at blcksz idx at e" and "root \<noteq> InvalidBlockNumber"
    and "pg_tre_upper_lookup_root blcksz idx root (it_hash it) = item_ref blcksz idx it"
  shows "run_posting lib blcksz idx root (it_hash it) = ret (Some S)"
  using assms(2) unfolding item_holds_def
proof (elim disjE)
  assume "\<exists>slot d. it_data it = [] \<and> it_bytes it = unat (PG_TRE_COALESCED_FLAG OR ucast slot)
        \<and> ((it_root it, slot), (it_hash it, d)) \<in> set hist \<and> sm_open_copy lib d = Some S"
  then obtain slot d where s: "it_bytes it = unat (PG_TRE_COALESCED_FLAG OR ucast (slot :: uint16))"
      "((it_root it, slot), (it_hash it, d)) \<in> set hist" "sm_open_copy lib d = Some S" by blast
  have "pg_tre_coalesced_resolve_slot blcksz idx (it_root it) slot (it_hash it) = ret (Some d)"
    by (rule resolve_slot_at[OF assms(3)[OF s(2)]]) simp
  then have "item_ref blcksz idx it = ret (Some \<lparr> ref_root = InvalidBlockNumber, ref_inline = Some d, ref_bytes = length d \<rparr>)"
    by (simp add: item_ref_def s(1) coalesced_marker Let_def)
  then show ?thesis using s(3) by (simp add: run_posting_def assms(5) pg_tre_posting_materialize_def)
next
  assume i: "8 \<le> it_bytes it \<and> it_bytes it \<le> PG_TRE_INLINE_POSTING_MAX \<and> it_bytes it = length (it_data it) \<and> sm_open_copy lib (it_data it) = Some S"
  then have "\<not> is_coalesced (word_of_nat (it_bytes it))" by (intro small_not_coalesced) (simp add: PG_TRE_INLINE_POSTING_MAX_def)
  then have "item_ref blcksz idx it = ret (Some \<lparr> ref_root = it_root it, ref_inline = Some (it_data it), ref_bytes = it_bytes it \<rparr>)"
    using i by (auto simp: item_ref_def)
  then show ?thesis using i by (simp add: run_posting_def assms(5) pg_tre_posting_materialize_def)
next
  assume "it_bytes it = 0 \<and> it_data it = [] \<and> (\<exists>ss. post_seg lib blcksz (tree_pages idx) (it_root it) ss \<and> ss \<noteq> [] \<and> {} \<notin> set ss
          \<and> length ss < 2 ^ 64 \<and> \<Union> (set ss) = S)"
  then obtain ss where ss: "it_bytes it = 0" "post_seg lib blcksz (tree_pages idx) (it_root it) ss" "ss \<noteq> []" "{} \<notin> set ss"
      "length ss < 2 ^ 64" "\<Union> (set ss) = S" by blast
  have "item_ref blcksz idx it = ret (Some \<lparr> ref_root = it_root it, ref_inline = None, ref_bytes = 0 \<rparr>)"
    using small_not_coalesced[of 0] by (simp add: item_ref_def ss(1))
  moreover have "filter (\<lambda>s. s = {}) ss = []" using ss(4) by (auto simp: filter_empty_conv)
  then have "pg_tre_posting_materialize lib blcksz idx (it_root it) None 0 = ret (Some S)"
    using materialize_chain[OF _ ss(2,3,5)] assms(1) ss(6) by (simp add: build_env_def)
  ultimately show ?thesis by (simp add: run_posting_def assms(5))
qed

end
