(* ===== verification/Surf_Query.thy ===== *)
theory Surf_Query
  imports Surf_Trie
begin

text \<open>
  The queries of the range filter are exact: the successor walk finds the least stored key
  that is not below its argument, so a range query answers whether some key lies in the range.
\<close>

section \<open>Keys as eight bytes\<close>

definition pfx :: "nat \<Rightarrow> uint64 \<Rightarrow> nat" where
  "pfx d k = unat k div 256 ^ (8 - d)"

lemma unat_key_byte:
  assumes "d < 8"
  shows "unat (key_byte k d) = unat k div 256 ^ (7 - d) mod 256"
proof -
  have e: "(256 :: nat) ^ (7 - d) = 2 ^ (8 * (7 - d))" by (simp add: power_mult)
  have "unat (key_byte k d) = unat (drop_bit (8 * (7 - d)) k) mod 256"
    unfolding key_byte_def SURF_KEYLEN_def by (simp only: unsigned_ucast_eq) (simp add: take_bit_eq_mod)
  also have "unat (drop_bit (8 * (7 - d)) k) = unat k div 2 ^ (8 * (7 - d))"
    by (rule trans[OF unat_drop_bit_eq drop_bit_eq_div])
  finally show ?thesis by (simp only: e)
qed

lemma pfx_Suc: "d < 8 \<Longrightarrow> pfx (Suc d) k = 256 * pfx d k + unat (key_byte k d)"
proof -
  assume d: "d < 8"
  then have e: "8 - d = Suc (7 - d)" "8 - Suc d = 7 - d" by simp_all
  have "pfx d k = unat k div 256 ^ (7 - d) div 256"
    unfolding pfx_def e by (metis div_mult2_eq mult.commute power_Suc)
  then show ?thesis unfolding unat_key_byte[OF d] by (simp add: pfx_def e(2))
qed

lemma pfx_0: "pfx 0 k = 0"
  using unsigned_less[of k, where 'a = nat] by (simp add: pfx_def)

lemma pfx_8: "pfx 8 k = unat k"
  by (simp add: pfx_def)

lemma pfx_less: "pfx d k < pfx d l \<Longrightarrow> k < l"
  unfolding pfx_def word_less_nat_alt by (metis div_le_mono not_less)

definition key_bytes :: "nat \<Rightarrow> uint64 \<Rightarrow> uint8 list" where
  "key_bytes d k = map (key_byte k) [0..<d]"

lemma key_bytes_Suc [simp]: "key_bytes (Suc d) k = key_bytes d k @ [key_byte k d]"
  by (simp add: key_bytes_def)

lemma length_key_bytes [simp]: "length (key_bytes d k) = d"
  by (simp add: key_bytes_def)

lemma key_bytes_pfx: "d \<le> 8 \<Longrightarrow> key_bytes d k = key_bytes d l \<Longrightarrow> pfx d k = pfx d l"
  by (induction d) (auto simp: pfx_0 pfx_Suc key_bytes_def[of 0])

lemma key_bytes_eq: "key_bytes 8 k = key_bytes 8 l \<Longrightarrow> k = l"
  using key_bytes_pfx[of 8 k l] by (simp add: pfx_8 word_unat_eq_iff)

lemma key_byte_less:
  assumes "d < 8" and "key_bytes d k = key_bytes d l" and "key_byte k d < key_byte l d"
  shows "k < l"
proof (rule pfx_less[of "Suc d"])
  show "pfx (Suc d) k < pfx (Suc d) l"
    using key_bytes_pfx[of d k l] assms by (simp add: pfx_Suc word_less_nat_alt)
qed

lemma bit_foldr_OR:
  "bit (foldr (\<lambda>i key. key OR f i) is key0) n \<longleftrightarrow> bit key0 n \<or> (\<exists>i \<in> set is. bit (f i :: uint64) n)"
  by (induction "is") (auto simp: bit_simps)

lemma bit_key_byte_shifted:
  assumes "i < 8"
  shows "bit (push_bit (8 * (7 - i)) (ucast (key_byte k i)) :: uint64) n \<longleftrightarrow>
    8 * (7 - i) \<le> n \<and> n < 8 * (7 - i) + 8 \<and> n < 64 \<and> bit k n"
  using assms by (auto simp: key_byte_def SURF_KEYLEN_def bit_simps)

lemma acc_key_bytes: "acc_key (key_bytes SURF_KEYLEN k) = k"
proof (rule bit_word_eqI)
  fix n assume "n < LENGTH(64)"
  then have n: "n < 64" by simp
  have nth: "key_bytes SURF_KEYLEN k ! i = key_byte k i" if "i < 8" for i
    using that by (simp add: key_bytes_def SURF_KEYLEN_def)
  have "bit (acc_key (key_bytes SURF_KEYLEN k)) n \<longleftrightarrow>
      (\<exists>i < 8. bit (push_bit (8 * (7 - i)) (ucast (key_byte k i)) :: uint64) n)"
    unfolding acc_key_def bit_foldr_OR by (auto simp: SURF_KEYLEN_def nth[unfolded SURF_KEYLEN_def])
  also have "\<dots> \<longleftrightarrow> bit k n"
  proof
    assume "bit k n"
    have "n div 8 \<le> 7" using n by simp
    then have i: "7 - n div 8 < 8" "8 * (7 - (7 - n div 8)) = n - n mod 8" by (simp_all add: minus_mod_eq_mult_div)
    have "n < n - n mod 8 + 8" using mod_less_divisor[of 8 n] by linarith
    then show "\<exists>i < 8. bit (push_bit (8 * (7 - i)) (ucast (key_byte k i)) :: uint64) n"
      using \<open>bit k n\<close> n i bit_key_byte_shifted[OF i(1), of k n] by (intro exI[of _ "7 - n div 8"]) simp
  qed (use bit_key_byte_shifted in blast)
  finally show "bit (acc_key (key_bytes SURF_KEYLEN k)) n = bit k n" .
qed

section \<open>Sorted nodes\<close>

definition node_inv :: "nat \<Rightarrow> uint8 list \<Rightarrow> uint64 list \<Rightarrow> bool" where
  "node_inv d ac ks \<longleftrightarrow> sorted_wrt (<) ks \<and> (\<forall>k \<in> set ks. key_bytes d k = ac)"

lemma node_inv_bytes_sorted:
  "node_inv d ac ks \<Longrightarrow> d < 8 \<Longrightarrow> sorted (map (\<lambda>k. key_byte k d) ks)"
proof (induction ks)
  case (Cons k ks)
  have "key_byte k d \<le> key_byte l d" if "l \<in> set ks" for l
  proof (rule ccontr)
    assume "\<not> key_byte k d \<le> key_byte l d"
    then have "l < k" using Cons.prems that by (intro key_byte_less[of d]) (auto simp: node_inv_def)
    moreover have "k < l" using Cons.prems(1) that by (simp add: node_inv_def)
    ultimately show False by simp
  qed
  with Cons show ?case by (auto simp: node_inv_def)
qed simp

lemma node_inv_sub: "node_inv d ac (xs @ ys @ zs) \<Longrightarrow> node_inv d ac ys"
  by (simp add: node_inv_def sorted_wrt_append)

lemma groups_sorted:
  "node_inv d ac ks \<Longrightarrow> d < 8 \<Longrightarrow> sorted_wrt (<) (map fst (groups d ks))"
proof (induction d ks rule: groups.induct)
  case (2 d k ks)
  let ?P = "\<lambda>x. key_byte x d = key_byte k d"
  let ?r = "dropWhile ?P ks"
  have split: "k # ks = (k # takeWhile ?P ks) @ ?r @ []" by simp
  have inv: "node_inv d ac ?r" using "2.prems"(1) unfolding split by (rule node_inv_sub)
  have so: "sorted (map (\<lambda>k. key_byte k d) (k # ks))" by (rule node_inv_bytes_sorted[OF "2.prems"])
  have "key_byte k d < b" if "(b, g) \<in> set (groups d ?r)" for b g
  proof -
    have g: "g \<noteq> []" "set g \<subseteq> set ?r" "\<forall>x \<in> set g. key_byte x d = b" using groups_mem[OF that] by simp_all
    define x where "x = hd g"
    have x: "x \<in> set ?r" "key_byte x d = b" using g hd_in_set[OF g(1)] by (auto simp: x_def)
    have "?r \<noteq> []" using x(1) by (metis empty_iff empty_set)
    then have "\<not> ?P (hd ?r)" by (rule hd_dropWhile)
    moreover have "key_byte k d \<le> key_byte (hd ?r) d"
      using so set_dropWhileD[OF hd_in_set[OF \<open>?r \<noteq> []\<close>]] by simp
    moreover have "key_byte (hd ?r) d \<le> key_byte x d"
      using node_inv_bytes_sorted[OF inv "2.prems"(2)] x(1) by (cases ?r) auto
    ultimately show ?thesis using x(2) by simp
  qed
  with "2.IH"[OF inv "2.prems"(2)] show ?case by auto
qed simp

lemma groups_split:
  assumes "j < length (groups d ks)"
  shows "ks = concat (map snd (take j (groups d ks))) @ snd (groups d ks ! j)
    @ concat (map snd (drop (Suc j) (groups d ks)))"
proof -
  have "ks = concat (map snd (take j (groups d ks) @ groups d ks ! j # drop (Suc j) (groups d ks)))"
    using assms groups_concat[of d ks] by (metis id_take_nth_drop)
  then show ?thesis by simp
qed

lemma groups_nth:
  assumes "j < length (groups d ks)"
  shows "snd (groups d ks ! j) \<noteq> []" and "set (snd (groups d ks ! j)) \<subseteq> set ks"
    and "k \<in> set (snd (groups d ks ! j)) \<Longrightarrow> key_byte k d = fst (groups d ks ! j)"
proof -
  have "(fst (groups d ks ! j), snd (groups d ks ! j)) \<in> set (groups d ks)" using assms by simp
  note * = groups_mem[OF this]
  show "snd (groups d ks ! j) \<noteq> []" "set (snd (groups d ks ! j)) \<subseteq> set ks" using * by simp_all
  show "k \<in> set (snd (groups d ks ! j)) \<Longrightarrow> key_byte k d = fst (groups d ks ! j)" using * by simp
qed

lemma node_inv_group:
  assumes "node_inv d ac ks" and "j < length (groups d ks)"
  shows "node_inv (Suc d) (ac @ [fst (groups d ks ! j)]) (snd (groups d ks ! j))"
proof -
  have "node_inv d ac (snd (groups d ks ! j))"
    using assms(1) by (subst (asm) groups_split[OF assms(2)]) (rule node_inv_sub)
  then show ?thesis using groups_nth(3)[OF assms(2)] by (simp add: node_inv_def)
qed

lemma node_inv_length: "node_inv d ac ks \<Longrightarrow> ks \<noteq> [] \<Longrightarrow> length ac = d"
  by (cases ks) (auto simp: node_inv_def)

section \<open>The leftmost key below an edge\<close>

lemma surf_reprD:
  assumes "surf_repr bu s N" and "v < length N" and "N ! v = (d, ks)"
  shows "d < 8" and "ks \<noteq> []" and "surf_node_first bu s v = node_off N v"
    and "surf_node_end bu s v = node_off N v + length (groups d ks)"
    and "j < length (groups d ks) \<Longrightarrow> labels s ! (node_off N v + j) = fst (groups d ks ! j)"
    and "j < length (groups d ks) \<Longrightarrow> bv_get (has_child s) (node_off N v + j) \<longleftrightarrow> d < 7"
    and "j < length (groups d ks) \<Longrightarrow> d < 7 \<Longrightarrow> surf_child_node bu s (node_off N v + j) < length N"
    and "j < length (groups d ks) \<Longrightarrow> d < 7 \<Longrightarrow>
      N ! surf_child_node bu s (node_off N v + j) = (Suc d, snd (groups d ks ! j))"
proof -
  note * = assms(1)[unfolded surf_repr_def, THEN conjunct2, THEN spec, THEN mp, OF assms(2), unfolded assms(3) prod.case]
  show "d < 8" "ks \<noteq> []" "surf_node_first bu s v = node_off N v"
    "surf_node_end bu s v = node_off N v + length (groups d ks)"
    "j < length (groups d ks) \<Longrightarrow> labels s ! (node_off N v + j) = fst (groups d ks ! j)"
    "j < length (groups d ks) \<Longrightarrow> bv_get (has_child s) (node_off N v + j) \<longleftrightarrow> d < 7"
    "j < length (groups d ks) \<Longrightarrow> d < 7 \<Longrightarrow> surf_child_node bu s (node_off N v + j) < length N"
    "j < length (groups d ks) \<Longrightarrow> d < 7 \<Longrightarrow>
      N ! surf_child_node bu s (node_off N v + j) = (Suc d, snd (groups d ks ! j))"
    using * by (simp_all add: SURF_KEYLEN_def)
qed

lemma hd_groups: "ks \<noteq> [] \<Longrightarrow> hd (snd (groups d ks ! 0)) = hd ks"
  by (cases ks) auto

lemma min_below_first:
  assumes "surf_repr bu s N" and "v < length N" and "N ! v = (d, ks)" and "node_inv d ac ks"
    and "j < length (groups d ks)"
  shows "min_below_walk bu s (7 - d) (node_off N v + j) (ac @ [fst (groups d ks ! j)])
    = Some (hd (snd (groups d ks ! j)))"
  using assms(2-5)
proof (induction "7 - d" arbitrary: v d ks ac j)
  case 0
  note R = surf_reprD[OF assms(1) "0.prems"(1,2)]
  have d: "d = 7" using R(1) 0 by simp
  have "hd (snd (groups d ks ! j)) \<in> set (snd (groups d ks ! j))" using groups_nth(1)[OF "0.prems"(4)] by simp
  then have "key_bytes SURF_KEYLEN (hd (snd (groups d ks ! j))) = ac @ [fst (groups d ks ! j)]"
    using node_inv_group[OF "0.prems"(3,4)] by (simp add: node_inv_def d SURF_KEYLEN_def)
  then show ?case using R(6)[OF "0.prems"(4)] acc_key_bytes by (metis d diff_self_eq_0 min_below_walk.simps(1) nat_neq_iff)
next
  case (Suc n)
  note R = surf_reprD[OF assms(1) Suc.prems(1,2)]
  let ?g = "snd (groups d ks ! j)" and ?w = "surf_child_node bu s (node_off N v + j)"
  have d: "d < 7" "7 - d = Suc n" "n = 7 - Suc d" using Suc.hyps(2) by simp_all
  have w: "?w < length N" "N ! ?w = (Suc d, ?g)" using R(7,8)[OF Suc.prems(4) d(1)] by simp_all
  note W = surf_reprD[OF assms(1) w]
  have g0: "0 < length (groups (Suc d) ?g)" using groups_nth(1)[OF Suc.prems(4)] by simp
  note ih = Suc.hyps(1)[OF d(3) w node_inv_group[OF Suc.prems(3,4)] g0]
  show ?case
    using R(6)[OF Suc.prems(4)] ih W(3) W(5)[OF g0] hd_groups[OF groups_nth(1)[OF Suc.prems(4)], of "Suc d"]
    unfolding d(2) by (simp add: d Let_def)
qed

section \<open>Backtracking\<close>

definition hd_opt :: "'a list \<Rightarrow> 'a option" where
  "hd_opt xs = (case xs of [] \<Rightarrow> None | x # _ \<Rightarrow> Some x)"

lemma hd_opt_simps [simp]: "hd_opt [] = None" "xs \<noteq> [] \<Longrightarrow> hd_opt (xs @ ys) = Some (hd xs)" "hd_opt (x # xs) = Some x"
  by (auto simp: hd_opt_def neq_Nil_conv)

text \<open>The keys to the right of the position chosen at one entry of the recorded path.\<close>

definition entry_rest :: "(nat \<times> uint64 list) list \<Rightarrow> nat \<times> nat \<times> uint8 list \<Rightarrow> uint64 list" where
  "entry_rest N e = (case e of (v, p, ac) \<Rightarrow> case N ! v of (d, ks) \<Rightarrow>
     concat (map snd (drop (Suc (p - node_off N v)) (groups d ks))))"

definition entry_ok :: "(nat \<times> uint64 list) list \<Rightarrow> nat \<times> nat \<times> uint8 list \<Rightarrow> bool" where
  "entry_ok N e \<longleftrightarrow> (case e of (v, p, ac) \<Rightarrow> case N ! v of (d, ks) \<Rightarrow>
     v < length N \<and> node_inv d ac ks \<and> node_off N v \<le> p \<and> p \<le> node_off N v + length (groups d ks))"

lemma backtrack_correct:
  assumes "surf_repr bu s N" and "\<forall>e \<in> set st. entry_ok N e"
  shows "backtrack bu s st = hd_opt (concat (map (entry_rest N) st))"
  using assms(2)
proof (induction st)
  case (Cons e st)
  obtain v p ac where e: "e = (v, p, ac)" by (cases e)
  obtain d ks where x: "N ! v = (d, ks)" by (cases "N ! v")
  have ok: "v < length N" "node_inv d ac ks" "node_off N v \<le> p" "p \<le> node_off N v + length (groups d ks)"
    using Cons.prems e x by (auto simp: entry_ok_def)
  note R = surf_reprD[OF assms(1) ok(1) x]
  define j where "j = p - node_off N v"
  have p: "p = node_off N v + j" using ok(3) by (simp add: j_def)
  have len: "SURF_KEYLEN - Suc (length ac) = 7 - d"
    using node_inv_length[OF ok(2) R(2)] by (simp add: SURF_KEYLEN_def)
  show ?case
  proof (cases "Suc j < length (groups d ks)")
    case True
    have "entry_rest N e = snd (groups d ks ! Suc j) @ concat (map snd (drop (Suc (Suc j)) (groups d ks)))"
      by (simp add: entry_rest_def e x p flip: Cons_nth_drop_Suc[OF True])
    then show ?thesis
      using min_below_first[OF assms(1) ok(1) x ok(2) True] R(4) R(5)[OF True] groups_nth(1)[OF True] True len
      by (simp add: e p Let_def surf_min_below_def)
  next
    case False
    then have "entry_rest N e = []" by (simp add: entry_rest_def e x p)
    then show ?thesis using Cons False R(4) by (simp add: e p Let_def)
  qed
qed simp

section \<open>The label search\<close>

lemma label_ge_bounds:
  assumes "p \<le> hi"
  shows "p \<le> label_ge ls b p hi" and "label_ge ls b p hi \<le> hi"
    and "label_ge ls b p hi < hi \<Longrightarrow> b \<le> ls ! label_ge ls b p hi"
    and "p \<le> q \<Longrightarrow> q < label_ge ls b p hi \<Longrightarrow> ls ! q < b"
proof -
  have "p \<le> label_ge ls b p hi \<and> label_ge ls b p hi \<le> hi \<and>
    (label_ge ls b p hi < hi \<longrightarrow> b \<le> ls ! label_ge ls b p hi) \<and>
    (\<forall>q. p \<le> q \<longrightarrow> q < label_ge ls b p hi \<longrightarrow> ls ! q < b)"
    using assms
  proof (induction ls b p hi rule: label_ge.induct)
    case (1 ls b p hi)
    show ?case
    proof (cases "p < hi \<and> ls ! p < b")
      case True
      then have "label_ge ls b p hi = label_ge ls b (p + 1) hi" by (subst label_ge.simps) (auto dest: leD)
      moreover have "ls ! q < b" if "p \<le> q" "p + 1 \<le> q \<longrightarrow> ls ! q < b" for q
        using that True by (cases "p = q") auto
      moreover have "\<not> b \<le> ls ! p" using True by (simp add: not_le)
      ultimately show ?thesis using "1.IH" True by auto
    next
      case False
      then have "label_ge ls b p hi = p" by (subst label_ge.simps) auto
      then show ?thesis using False "1.prems" by auto
    qed
  qed
  then show "p \<le> label_ge ls b p hi" "label_ge ls b p hi \<le> hi"
    "label_ge ls b p hi < hi \<Longrightarrow> b \<le> ls ! label_ge ls b p hi"
    "p \<le> q \<Longrightarrow> q < label_ge ls b p hi \<Longrightarrow> ls ! q < b" by simp_all
qed

text \<open>On a node, the search splits the groups at the first byte that is not below the searched one.\<close>

lemma label_ge_node:
  assumes "surf_repr bu s N" and "v < length N" and "N ! v = (d, ks)"
  obtains j where "label_ge (labels s) b (surf_node_first bu s v) (surf_node_end bu s v) = node_off N v + j"
    and "j \<le> length (groups d ks)" and "\<And>i. i < j \<Longrightarrow> fst (groups d ks ! i) < b"
    and "j < length (groups d ks) \<Longrightarrow> b \<le> fst (groups d ks ! j)"
proof -
  note R = surf_reprD[OF assms]
  let ?off = "node_off N v" and ?n = "length (groups d ks)"
  let ?p = "label_ge (labels s) b ?off (?off + ?n)"
  note B = label_ge_bounds[of ?off "?off + ?n", where ls = "labels s" and b = b, simplified]
  define j where "j = ?p - ?off"
  have p: "?p = ?off + j" using B(1) by (simp add: j_def)
  have "fst (groups d ks ! i) < b" if "i < j" for i
    using B(4)[of "?off + i"] R(5)[of i] B(2) p that by simp
  moreover have "b \<le> fst (groups d ks ! j)" if "j < ?n"
    using B(3) R(5)[of j] p that by simp
  ultimately show ?thesis using that[of j] B(2) p R(3,4) by simp
qed

lemma mem_concat_nth:
  "k \<in> set (concat (map snd gs)) \<Longrightarrow> \<exists>i < length gs. k \<in> set (snd (gs ! i))"
  by (auto simp: in_set_conv_nth) (metis nth_mem snd_conv in_set_conv_nth)

section \<open>The successor walk\<close>

lemma node_key_less:
  assumes "node_inv d ac ks" and "d < 8" and "key_bytes d lo = ac" and "k \<in> set ks"
  shows "key_byte k d < key_byte lo d \<Longrightarrow> k < lo" and "key_byte lo d < key_byte k d \<Longrightarrow> lo < k"
  using assms key_byte_less[of d] by (auto simp: node_inv_def)

lemma filter_below:
  assumes "node_inv d ac ks" and "d < 8" and "key_bytes d lo = ac"
    and "\<And>i. i < j \<Longrightarrow> fst (groups d ks ! i) < key_byte lo d" and "j \<le> length (groups d ks)"
  shows "\<forall>k \<in> set (concat (map snd (take j (groups d ks)))). k < lo"
proof
  fix k assume "k \<in> set (concat (map snd (take j (groups d ks))))"
  then obtain i where i: "i < j" "k \<in> set (snd (groups d ks ! i))" "i < length (groups d ks)"
    using assms(5) mem_concat_nth[of k "take j (groups d ks)"] by auto
  then show "k < lo"
    using node_key_less(1)[OF assms(1-3)] groups_nth(2,3)[OF i(3)] assms(4)[OF i(1)] by auto
qed

lemma filter_above:
  assumes "node_inv d ac ks" and "d < 8" and "key_bytes d lo = ac"
    and "j < length (groups d ks)" and "key_byte lo d \<le> fst (groups d ks ! j)"
  shows "\<forall>k \<in> set (concat (map snd (drop (Suc j) (groups d ks)))). lo < k"
proof
  fix k assume "k \<in> set (concat (map snd (drop (Suc j) (groups d ks))))"
  then obtain i where i: "Suc j + i < length (groups d ks)" "k \<in> set (snd (groups d ks ! (Suc j + i)))"
    using mem_concat_nth[of k "drop (Suc j) (groups d ks)"] by (auto simp: less_diff_conv add.commute)
  have "fst (groups d ks ! j) < fst (groups d ks ! (Suc j + i))"
    using sorted_wrt_nth_less[OF groups_sorted[OF assms(1,2)], of j "Suc j + i"] i(1) by simp
  then show "lo < k"
    using node_key_less(2)[OF assms(1-3)] groups_nth(2,3)[OF i(1)] i(2) assms(5) by auto
qed

lemma filter_node:
  assumes "node_inv d ac ks" and "d < 8" and "key_bytes d lo = ac"
    and "\<And>i. i < j \<Longrightarrow> fst (groups d ks ! i) < key_byte lo d"
    and "j < length (groups d ks)" and "key_byte lo d \<le> fst (groups d ks ! j)"
  shows "filter (\<lambda>k. lo \<le> k) ks = filter (\<lambda>k. lo \<le> k) (snd (groups d ks ! j))
    @ concat (map snd (drop (Suc j) (groups d ks)))"
proof -
  let ?a = "concat (map snd (take j (groups d ks)))" and ?c = "concat (map snd (drop (Suc j) (groups d ks)))"
  have "filter (\<lambda>k. lo \<le> k) ?a = []"
    using filter_below[OF assms(1-4)] assms(5) by (intro filter_False) (simp add: not_le)
  moreover have "filter (\<lambda>k. lo \<le> k) ?c = ?c"
    using filter_above[OF assms(1-3,5,6)] by (intro filter_True) (simp add: less_imp_le)
  ultimately show ?thesis by (subst groups_split[OF assms(5)]) (simp only: filter_append append_Nil)
qed

text \<open>One round of the walk: it is decided, or it descends along the group of \<open>lo\<close>.\<close>

lemma successor_round:
  assumes "surf_repr bu s N" and "v < length N" and "N ! v = (d, ks)" and "d = SURF_KEYLEN - 1 - n"
    and "node_inv d ac ks" and "key_bytes d lo = ac" and "\<forall>e \<in> set st. entry_ok N e"
  shows "successor_walk bu s lo (Suc n) v ac st = hd_opt (filter (\<lambda>k. lo \<le> k) ks @ concat (map (entry_rest N) st))
    \<or> (\<exists>j < length (groups d ks). d < 7 \<and> fst (groups d ks ! j) = key_byte lo d \<and>
        filter (\<lambda>k. lo \<le> k) ks = filter (\<lambda>k. lo \<le> k) (snd (groups d ks ! j)) @ entry_rest N (v, node_off N v + j, ac) \<and>
        entry_ok N (v, node_off N v + j, ac) \<and>
        successor_walk bu s lo (Suc n) v ac st = successor_walk bu s lo n
          (surf_child_node bu s (node_off N v + j)) (ac @ [key_byte lo d]) ((v, node_off N v + j, ac) # st))"
    (is "?done \<or> ?down")
proof -
  note R = surf_reprD[OF assms(1-3)]
  let ?G = "groups d ks"
  from label_ge_node[OF assms(1-3), of "key_byte lo d"] obtain j where
    p: "label_ge (labels s) (key_byte lo d) (surf_node_first bu s v) (surf_node_end bu s v) = node_off N v + j"
    and j: "j \<le> length ?G" and below: "\<And>i. i < j \<Longrightarrow> fst (?G ! i) < key_byte lo d"
    and ge: "j < length ?G \<Longrightarrow> key_byte lo d \<le> fst (?G ! j)" by blast
  note step = successor_walk.simps(2)[of bu s lo n v ac st, folded assms(4), unfolded Let_def, unfolded p, unfolded R(4)]
  have len: "SURF_KEYLEN - Suc (length ac) = 7 - d" "SURF_KEYLEN - 1 = 7"
    using node_inv_length[OF assms(5) R(2)] by (simp_all add: SURF_KEYLEN_def)
  consider "j = length ?G" | "j < length ?G" "fst (?G ! j) \<noteq> key_byte lo d"
    | "j < length ?G" "fst (?G ! j) = key_byte lo d" using j by fastforce
  then show ?thesis
  proof cases
    case 1
    have "\<forall>k \<in> set ks. k < lo" using filter_below[OF assms(5) R(1) assms(6) below j] 1 groups_concat[of d ks] by simp
    then have "filter (\<lambda>k. lo \<le> k) ks = []" by (intro filter_False) (simp add: not_le)
    moreover have "entry_ok N (v, node_off N v + j, ac)" "entry_rest N (v, node_off N v + j, ac) = []"
      using assms(2,3,5) 1 by (simp_all add: entry_ok_def entry_rest_def)
    ultimately have ?done
      using backtrack_correct[OF assms(1), of "(v, node_off N v + j, ac) # st"] assms(7) 1 by (simp add: step del: successor_walk.simps backtrack.simps)
    then show ?thesis ..
  next
    case 2
    let ?g = "snd (?G ! j)"
    have "\<forall>k \<in> set ?g. lo < k"
      using node_key_less(2)[OF assms(5) R(1) assms(6)] groups_nth(2,3)[OF 2(1)] ge[OF 2(1)] 2 by fastforce
    then have g: "filter (\<lambda>k. lo \<le> k) ?g = ?g" by (intro filter_True) (simp add: less_imp_le)
    have ?done
      using filter_node[OF assms(5) R(1) assms(6) below 2(1) ge[OF 2(1)]] g groups_nth(1)[OF 2(1)]
        min_below_first[OF assms(1-3,5) 2(1)] 2 R(5)[OF 2(1)] len
      by (simp add: step surf_min_below_def del: successor_walk.simps)
    then show ?thesis ..
  next
    case 3
    let ?g = "snd (?G ! j)"
    note fn = filter_node[OF assms(5) R(1) assms(6) below 3(1) ge[OF 3(1)]]
    show ?thesis
    proof (cases "d < 7")
      case True
      have ?down
        using True 3 fn R(5,6)[OF 3(1)] len assms(2,3,5)
        by (intro exI[of _ j]) (simp add: step entry_rest_def entry_ok_def del: successor_walk.simps)
      then show ?thesis ..
    next
      case False
      then have d: "d = 7" using R(1) by simp
      have "k = lo" if "k \<in> set ?g" for k
        using node_inv_group[OF assms(5) 3(1)] that assms(6) 3(2)
        by (intro key_bytes_eq) (simp add: node_inv_def d eval_nat_numeral)
      then have "filter (\<lambda>k. lo \<le> k) ?g = ?g" "hd ?g = lo"
        using groups_nth(1)[OF 3(1)] by (auto intro!: filter_True)
      then have ?done
        using fn groups_nth(1)[OF 3(1)] R(5,6)[OF 3(1)] 3 len d by (simp add: step del: successor_walk.simps)
      then show ?thesis ..
    qed
  qed
qed

theorem successor_walk_correct:
  assumes "surf_repr bu s N" and "v < length N" and "N ! v = (SURF_KEYLEN - 1 - n, ks)"
    and "node_inv (SURF_KEYLEN - 1 - n) ac ks" and "key_bytes (SURF_KEYLEN - 1 - n) lo = ac"
    and "\<forall>e \<in> set st. entry_ok N e" and "n < SURF_KEYLEN"
  shows "successor_walk bu s lo (Suc n) v ac st
    = hd_opt (filter (\<lambda>k. lo \<le> k) ks @ concat (map (entry_rest N) st))"
  using assms(2-7)
proof (induction n arbitrary: v ks ac st)
  case 0
  show ?case using successor_round[OF assms(1) "0.prems"(1,2) refl "0.prems"(3,4,5)]
    by (simp add: SURF_KEYLEN_def)
next
  case (Suc n)
  let ?d = "SURF_KEYLEN - 1 - Suc n"
  have d: "SURF_KEYLEN - 1 - n = Suc ?d" using Suc.prems(6) by (simp add: SURF_KEYLEN_def)
  from successor_round[OF assms(1) Suc.prems(1,2) refl Suc.prems(3,4,5)] show ?case
  proof (elim disjE exE conjE)
    fix j
    assume j: "j < length (groups ?d ks)" "?d < 7" "fst (groups ?d ks ! j) = key_byte lo ?d"
      and f: "filter (\<lambda>k. lo \<le> k) ks = filter (\<lambda>k. lo \<le> k) (snd (groups ?d ks ! j)) @ entry_rest N (v, node_off N v + j, ac)"
      and e: "entry_ok N (v, node_off N v + j, ac)"
      and w: "successor_walk bu s lo (Suc (Suc n)) v ac st = successor_walk bu s lo (Suc n)
          (surf_child_node bu s (node_off N v + j)) (ac @ [key_byte lo ?d]) ((v, node_off N v + j, ac) # st)"
    note R = surf_reprD(7,8)[OF assms(1) Suc.prems(1,2) j(1,2)]
    have "node_inv (Suc ?d) (ac @ [key_byte lo ?d]) (snd (groups ?d ks ! j))"
      using node_inv_group[OF Suc.prems(3) j(1)] by (simp only: j(3))
    then show ?thesis
      unfolding w using Suc.IH[unfolded d, OF R] Suc.prems(4-6) e f by simp
  qed
qed

lemma surf_root: "0 < length (surf_nodes keys)" "surf_nodes keys ! 0 = (0, keys)"
  using surf_nodes_root[of keys] by (metis length_greater_0_conv list.distinct(1), metis nth_Cons_0)

theorem surf_successor_build:
  assumes "bitutils_ok bu" and "sorted_wrt (<) keys" and "8 * length keys < UINT32_MAX"
  shows "surf_successor bu (pg_tre_surf_build bu keys) lo = hd_opt (filter (\<lambda>k. lo \<le> k) keys)"
proof (cases "keys = []")
  case False
  note rep = surf_repr_build[OF assms(1) False assms(3)]
  have "node_inv 0 [] keys" using assms(2) by (simp add: node_inv_def key_bytes_def)
  then show ?thesis
    using successor_walk_correct[OF rep surf_root(1), of 7 keys "[]" lo "[]"] surf_root(2)[of keys] rep
    by (simp add: surf_successor_def SURF_KEYLEN_def key_bytes_def surf_repr_def eval_nat_numeral)
qed (simp add: surf_successor_def pg_tre_surf_build_def)

lemma hd_opt_filter_le:
  assumes "sorted_wrt (<) keys"
  shows "(case hd_opt (filter (\<lambda>k. lo \<le> k) keys) of None \<Rightarrow> False | Some k \<Rightarrow> k \<le> hi)
    \<longleftrightarrow> (\<exists>k \<in> set keys. lo \<le> k \<and> k \<le> (hi :: uint64))"
proof (cases "filter (\<lambda>k. lo \<le> k) keys")
  case Nil
  then show ?thesis by (auto simp: filter_empty_conv)
next
  case (Cons k ks)
  have "sorted_wrt (<) (k # ks)" using sorted_wrt_filter[OF assms, of "\<lambda>k. lo \<le> k"] Cons by simp
  then have least: "\<forall>l \<in> set (k # ks). k \<le> l" by (auto intro: less_imp_le)
  have mem: "set (k # ks) = {l \<in> set keys. lo \<le> l}" using Cons by (metis set_filter)
  have "k \<le> hi \<longleftrightarrow> (\<exists>l \<in> set (k # ks). l \<le> hi)" using least by (meson list.set_intros(1) order_trans)
  then show ?thesis unfolding mem Cons by auto
qed

theorem surf_range_exact:
  assumes "bitutils_ok bu" and "sorted_wrt (<) keys" and "8 * length keys < UINT32_MAX"
  shows "pg_tre_surf_range_overlaps bu (pg_tre_surf_build bu keys) lo hi \<longleftrightarrow> (\<exists>k \<in> set keys. lo \<le> k \<and> k \<le> hi)"
proof -
  have "pg_tre_surf_range_overlaps bu (pg_tre_surf_build bu keys) lo hi \<longleftrightarrow> lo \<le> hi \<and>
    (case surf_successor bu (pg_tre_surf_build bu keys) lo of None \<Rightarrow> False | Some k \<Rightarrow> k \<le> hi)"
    by (auto simp: pg_tre_surf_range_overlaps_def surf_successor_def)
  also have "\<dots> \<longleftrightarrow> (\<exists>k \<in> set keys. lo \<le> k \<and> k \<le> hi)"
    unfolding surf_successor_build[OF assms] hd_opt_filter_le[OF assms(2)] by (auto intro: order_trans)
  finally show ?thesis .
qed

section \<open>The point query\<close>

lemma may_contain_round:
  assumes "surf_repr bu s N" and "v < length N" and "N ! v = (d, ks)" and "d = SURF_KEYLEN - 1 - n"
    and "node_inv d ac ks" and "key_bytes d key = ac"
  shows "may_contain_walk bu s key (Suc n) v = (key \<in> set ks)
    \<or> (\<exists>j < length (groups d ks). d < 7 \<and> fst (groups d ks ! j) = key_byte key d \<and>
        (key \<in> set ks \<longleftrightarrow> key \<in> set (snd (groups d ks ! j))) \<and>
        may_contain_walk bu s key (Suc n) v
          = may_contain_walk bu s key n (surf_child_node bu s (node_off N v + j)))"
    (is "?done \<or> ?down")
proof -
  note R = surf_reprD[OF assms(1-3)]
  let ?G = "groups d ks"
  from label_ge_node[OF assms(1-3), of "key_byte key d"] obtain j where
    p: "label_ge (labels s) (key_byte key d) (surf_node_first bu s v) (surf_node_end bu s v) = node_off N v + j"
    and j: "j \<le> length ?G" and below: "\<And>i. i < j \<Longrightarrow> fst (?G ! i) < key_byte key d"
    and ge: "j < length ?G \<Longrightarrow> key_byte key d \<le> fst (?G ! j)" by blast
  note step = may_contain_walk.simps(2)[of bu s key n v, folded assms(4), unfolded Let_def, unfolded p, unfolded R(4)]
  have len: "SURF_KEYLEN - 1 = 7" by (simp add: SURF_KEYLEN_def)
  have left: "key \<notin> set (concat (map snd (take j ?G)))"
    using filter_below[OF assms(5) R(1) assms(6) below j] by blast
  show ?thesis
  proof (cases "j < length ?G")
    case False
    then have "j = length ?G" using j by simp
    then have "key \<notin> set ks" using left groups_concat[of d ks] by (metis order_refl take_all)
    then show ?thesis using \<open>j = length ?G\<close> by (simp add: step del: may_contain_walk.simps)
  next
    case True
    have "key \<notin> set (concat (map snd (drop (Suc j) ?G)))"
      using filter_above[OF assms(5) R(1) assms(6) True ge[OF True]] by blast
    with left have mem: "key \<in> set ks \<longleftrightarrow> key \<in> set (snd (?G ! j))"
      by (subst groups_split[OF True]) (simp only: set_append Un_iff simp_thms)
    consider "fst (?G ! j) \<noteq> key_byte key d" | "fst (?G ! j) = key_byte key d" "d < 7"
      | "fst (?G ! j) = key_byte key d" "d = 7" using R(1) by linarith
    then show ?thesis
    proof cases
      case 1
      then have "key \<notin> set (snd (?G ! j))" using groups_nth(3)[OF True] by metis
      then show ?thesis using 1 True R(5)[OF True] mem by (simp add: step del: may_contain_walk.simps)
    next
      case 2
      then have ?down using True R(5,6)[OF True] mem len
        by (intro exI[of _ j]) (simp add: step del: may_contain_walk.simps)
      then show ?thesis ..
    next
      case 3
      have "k = key" if "k \<in> set (snd (?G ! j))" for k
        using node_inv_group[OF assms(5) True] that assms(6) 3
        by (intro key_bytes_eq) (simp add: node_inv_def eval_nat_numeral)
      then have "key \<in> set (snd (?G ! j))" using groups_nth(1)[OF True] by (metis hd_in_set)
      then show ?thesis using 3 True R(5,6)[OF True] mem len by (simp add: step del: may_contain_walk.simps)
    qed
  qed
qed

lemma may_contain_walk_correct:
  assumes "surf_repr bu s N" and "v < length N" and "N ! v = (SURF_KEYLEN - 1 - n, ks)"
    and "node_inv (SURF_KEYLEN - 1 - n) ac ks" and "key_bytes (SURF_KEYLEN - 1 - n) key = ac"
    and "n < SURF_KEYLEN"
  shows "may_contain_walk bu s key (Suc n) v \<longleftrightarrow> key \<in> set ks"
  using assms(2-6)
proof (induction n arbitrary: v ks ac)
  case 0
  show ?case using may_contain_round[OF assms(1) "0.prems"(1,2) refl "0.prems"(3,4)]
    by (simp add: SURF_KEYLEN_def)
next
  case (Suc n)
  let ?d = "SURF_KEYLEN - 1 - Suc n"
  have d: "SURF_KEYLEN - 1 - n = Suc ?d" using Suc.prems(5) by (simp add: SURF_KEYLEN_def)
  from may_contain_round[OF assms(1) Suc.prems(1,2) refl Suc.prems(3,4)] show ?case
  proof (elim disjE exE conjE)
    fix j
    assume j: "j < length (groups ?d ks)" "?d < 7" "fst (groups ?d ks ! j) = key_byte key ?d"
      and f: "key \<in> set ks \<longleftrightarrow> key \<in> set (snd (groups ?d ks ! j))"
      and w: "may_contain_walk bu s key (Suc (Suc n)) v
          = may_contain_walk bu s key (Suc n) (surf_child_node bu s (node_off N v + j))"
    note R = surf_reprD(7,8)[OF assms(1) Suc.prems(1,2) j(1,2)]
    have "node_inv (Suc ?d) (ac @ [key_byte key ?d]) (snd (groups ?d ks ! j))"
      using node_inv_group[OF Suc.prems(3) j(1)] by (simp only: j(3))
    then show ?thesis
      unfolding w f using Suc.IH[unfolded d, OF R] Suc.prems(4,5) by simp
  qed
qed

theorem surf_may_contain_exact:
  assumes "bitutils_ok bu" and "sorted_wrt (<) keys" and "8 * length keys < UINT32_MAX"
  shows "pg_tre_surf_may_contain bu (pg_tre_surf_build bu keys) key \<longleftrightarrow> key \<in> set keys"
proof (cases "keys = []")
  case False
  note rep = surf_repr_build[OF assms(1) False assms(3)]
  have "node_inv 0 [] keys" using assms(2) by (simp add: node_inv_def key_bytes_def)
  then show ?thesis
    using may_contain_walk_correct[OF rep surf_root(1), of 7 keys "[]" key] surf_root(2)[of keys] rep
    by (simp add: pg_tre_surf_may_contain_def SURF_KEYLEN_def key_bytes_def surf_repr_def eval_nat_numeral)
qed (simp add: pg_tre_surf_may_contain_def pg_tre_surf_build_def)

end
