(* ===== verification/Build_Correct.thy ===== *)
theory Build_Correct
  imports Build Posting_Build Surf_Query
begin

text \<open>
  The build as a whole: after it, the run it wrote holds for every trigram exactly the
  identifiers of the stream, and no other trigram; the range filter it wrote holds the keys.
\<close>

section \<open>Sort entries\<close>

text \<open>\<open>memcmp\<close>, which orders the entries of the sort; both have the same length.\<close>

fun memcmp_less :: "uint8 list \<Rightarrow> uint8 list \<Rightarrow> bool" where
  "memcmp_less (x # xs) (y # ys) \<longleftrightarrow> x < y \<or> x = y \<and> memcmp_less xs ys"
| "memcmp_less xs ys \<longleftrightarrow> False"

lemma memcmp_append:
  "length xs = length ys \<Longrightarrow> memcmp_less (xs @ us) (ys @ vs) \<longleftrightarrow> memcmp_less xs ys \<or> xs = ys \<and> memcmp_less us vs"
  by (induction xs ys rule: list_induct2) auto

lemma memcmp_total: "length xs = length ys \<Longrightarrow> xs = ys \<or> memcmp_less xs ys \<or> memcmp_less ys xs"
  by (induction xs ys rule: list_induct2) auto

lemma memcmp_first: "memcmp_less xs ys \<Longrightarrow> \<exists>d < length xs. take d xs = take d ys \<and> xs ! d < ys ! d"
proof (induction xs ys rule: memcmp_less.induct)
  case (1 x xs y ys)
  show ?case
  proof (cases "x < y")
    case False
    then obtain d where "x = y" "d < length xs" "take d xs = take d ys" "xs ! d < ys ! d" using 1 by auto
    then show ?thesis by (intro exI[of _ "Suc d"]) simp
  qed (intro exI[of _ 0], simp)
qed simp_all

lemma put_be64_bytes: "put_be64 w = key_bytes 8 w"
  by (simp add: put_be64_def key_bytes_def key_byte_def SURF_KEYLEN_def upt_rec)

lemma key_bytes_prefix: "d \<le> 8 \<Longrightarrow> take d (key_bytes 8 w) = key_bytes d w" "d < 8 \<Longrightarrow> key_bytes 8 w ! d = key_byte w d"
  by (simp_all add: key_bytes_def take_map)

lemma put_be64_less: "memcmp_less (put_be64 a) (put_be64 b) \<longleftrightarrow> a < b"
proof
  have imp: "a < b" if "memcmp_less (put_be64 a) (put_be64 b)" for a b
  proof -
    from memcmp_first[OF that] obtain d where "d < 8" "take d (key_bytes 8 a) = take d (key_bytes 8 b)" "key_bytes 8 a ! d < key_bytes 8 b ! d"
      by (auto simp: put_be64_bytes)
    then show ?thesis using key_byte_less[of d a b] by (simp add: key_bytes_prefix)
  qed
  show "memcmp_less (put_be64 a) (put_be64 b) \<Longrightarrow> a < b" by (rule imp)
  assume "a < b"
  moreover have "put_be64 a \<noteq> put_be64 b" using \<open>a < b\<close> key_bytes_eq[of a b] by (auto simp: put_be64_bytes)
  moreover have "\<not> memcmp_less (put_be64 b) (put_be64 a)" using imp[of b a] \<open>a < b\<close> by auto
  ultimately show "memcmp_less (put_be64 a) (put_be64 b)" using memcmp_total[of "put_be64 a" "put_be64 b"] by (auto simp: put_be64_bytes)
qed

lemma get_put_be64: "get_be64 (put_be64 w @ rest) = w"
proof -
  have "get_be64 (put_be64 w @ rest) = acc_key (key_bytes SURF_KEYLEN w)"
    by (simp add: get_be64_def put_be64_def acc_key_def key_bytes_def key_byte_def SURF_KEYLEN_def upt_rec or.assoc or.commute or.left_commute)
  then show ?thesis by (simp add: acc_key_bytes)
qed

lemma length_put_be64 [simp]: "length (put_be64 w) = 8"
  by (simp add: put_be64_def)

lemma put_be64_inj: "put_be64 a = put_be64 b \<longleftrightarrow> a = b"
  using key_bytes_eq by (auto simp: put_be64_bytes)

lemma decode_encode: "decode_entry (encode_entry h tid key) = (h, tid, key)"
  using get_put_be64[of key "[]"] by (simp add: decode_entry_def encode_entry_def get_put_be64)

lemma encode_less:
  "memcmp_less (encode_entry h tid key) (encode_entry h' tid' key')
     \<longleftrightarrow> h < h' \<or> h = h' \<and> (tid < tid' \<or> tid = tid' \<and> key < key')"
  by (simp add: encode_entry_def memcmp_append put_be64_less put_be64_inj)

section \<open>What the stream says\<close>

type_synonym entry = "uint64 \<times> uint64 \<times> uint64"

text \<open>The identifiers of a trigram, as the index packs them.\<close>

definition stream_tids :: "nat \<Rightarrow> PgTreTidPacking \<Rightarrow> entry list \<Rightarrow> uint64 \<Rightarrow> sm" where
  "stream_tids mt pk es h = {p. \<exists>tid key. (h, tid, key) \<in> set es \<and> pg_tre_pack_tid mt pk (pg_tre_unpack_tid mt PG_TRE_TID_LEGACY tid) = Inr p}"

text \<open>An entry whose identifier the index can pack; the all-ones word is not an identifier.\<close>

definition entry_packs :: "nat \<Rightarrow> PgTreTidPacking \<Rightarrow> entry \<Rightarrow> bool" where
  "entry_packs mt pk e \<longleftrightarrow> fst (snd e) \<noteq> - 1 \<and> (\<exists>p. pg_tre_pack_tid mt pk (pg_tre_unpack_tid mt PG_TRE_TID_LEGACY (fst (snd e))) = Inr p)"

lemma stream_tids_append: "stream_tids mt pk (xs @ ys) h = stream_tids mt pk xs h \<union> stream_tids mt pk ys h"
  by (auto simp: stream_tids_def)

lemma stream_tids_other: "h \<notin> fst ` set es \<Longrightarrow> stream_tids mt pk es h = {}"
  by (force simp: stream_tids_def)

text \<open>The keys collected so far: keys of the stream, one at least per trigram.\<close>

definition keys_inv :: "entry list \<Rightarrow> uint64 list \<Rightarrow> bool" where
  "keys_inv pre ks \<longleftrightarrow> (\<forall>k \<in> set ks. \<exists>h t. (h, t, k) \<in> set pre) \<and> (\<forall>h \<in> fst ` set pre. \<exists>t k. (h, t, k) \<in> set pre \<and> k \<in> set ks)
     \<and> length ks \<le> length pre"

section \<open>The readout\<close>

text \<open>After the postings of the trigrams in \<open>pre\<close> were finished, with at least \<open>r\<close> blocks left.\<close>

definition out_inv :: "sm_lib \<Rightarrow> nat \<Rightarrow> nat \<Rightarrow> PgTreTidPacking \<Rightarrow> tre_index \<Rightarrow> nat \<Rightarrow> entry list \<Rightarrow> PostingOut \<Rightarrow> build_state \<Rightarrow> bool" where
  "out_inv lib blcksz mt pk idx0 r pre out st \<longleftrightarrow> (\<exists>hist. build_inv blcksz hist st \<and> grown_tree idx0 (fst (snd st)) \<and> r \<le> length (snd (snd st))
     \<and> it_hash ` set (accums out) = fst ` set pre \<and> items_sorted (accums out) \<and> length (accums out) \<le> length pre
     \<and> (\<forall>it \<in> set (accums out). item_holds lib blcksz hist (tree_pages (fst (snd st))) it (stream_tids mt pk pre (it_hash it))))"

text \<open>The open builder holds the last group of the entries read.\<close>

definition group_inv :: "nat \<Rightarrow> PgTreTidPacking \<Rightarrow> entry list \<Rightarrow> uint64 \<Rightarrow> uint64 \<Rightarrow> PgTrePostingBuilder \<Rightarrow> bool" where
  "group_inv mt pk grp cur lst b \<longleftrightarrow> grp \<noteq> [] \<and> (\<forall>e \<in> set grp. fst e = cur) \<and> lst = fst (snd (last grp))
     \<and> pb_hash b = cur \<and> pb_packing b = pk \<and> pb_tids b \<noteq> [] \<and> length (pb_tids b) \<le> length grp \<and> set (pb_tids b) = stream_tids mt pk grp cur"

definition readout_inv :: "sm_lib \<Rightarrow> nat \<Rightarrow> nat \<Rightarrow> PgTreTidPacking \<Rightarrow> tre_index \<Rightarrow> nat \<Rightarrow> entry list \<Rightarrow> readout \<Rightarrow> bool" where
  "readout_inv lib blcksz mt pk idx0 r pre ro \<longleftrightarrow> keys_inv pre (surf_keys (ro_out ro)) \<and>
     (case ro_builder ro of
        None \<Rightarrow> pre = [] \<and> out_inv lib blcksz mt pk idx0 r [] (ro_out ro) (ro_state ro)
      | Some (cur, b) \<Rightarrow> \<exists>pre0 grp. pre = pre0 @ grp \<and> group_inv mt pk grp cur (ro_last ro) b \<and> (\<forall>e \<in> set pre0. fst e < cur)
          \<and> out_inv lib blcksz mt pk idx0 (length (pb_tids b) + r) pre0 (ro_out ro) (ro_state ro))"

lemma build_add_ret:
  assumes "pg_tre_pack_tid mt (pb_packing b) tid = Inr p" and "length (pb_tids b) < 2 ^ 30"
  shows "\<exists>b'. pg_tre_posting_build_add mt tid b = ret b' \<and> pb_tids b' = pb_tids b @ [p] \<and> pb_hash b' = pb_hash b \<and> pb_packing b' = pb_packing b"
proof -
  have "\<not> (length (pb_tids b) \<ge> pb_alloced b \<and> int (pb_alloced b) > INT32_MAX div 2)" using assms(2) by auto
  then show ?thesis using assms(1) by (simp add: pg_tre_posting_build_add_def)
qed

lemma finish_posting_ret:
  assumes "build_env lib blcksz" and "min_freq \<le> 1" and "out_inv lib blcksz mt pk idx0 (length (pb_tids b) + r) pre out st"
    and "group_inv mt pk grp cur lst b" and "\<forall>e \<in> set pre. fst e < cur" and "length (pb_tids b) < 2 ^ 64"
  shows "\<exists>out' st'. finish_posting lib blcksz min_freq cur b (out, st) = ret (out', st')
    \<and> out_inv lib blcksz mt pk idx0 r (pre @ grp) out' st' \<and> surf_keys out' = surf_keys out"
proof -
  obtain cw idx blocks where st: "st = (cw, idx, blocks)" by (cases st)
  from assms(3) obtain hist where o: "build_inv blcksz hist (cw, idx, blocks)" "grown_tree idx0 idx" "length (pb_tids b) + r \<le> length blocks"
      "it_hash ` set (accums out) = fst ` set pre" "items_sorted (accums out)" "length (accums out) \<le> length pre"
      "\<And>it. it \<in> set (accums out) \<Longrightarrow> item_holds lib blcksz hist (tree_pages idx) it (stream_tids mt pk pre (it_hash it))"
    by (auto simp: out_inv_def st)
  have g: "grp \<noteq> []" "\<forall>e \<in> set grp. fst e = cur" "pb_hash b = cur" "pb_tids b \<noteq> []" "set (pb_tids b) = stream_tids mt pk grp cur"
    using assms(4) by (auto simp: group_inv_def)
  from finish_ex_ret[OF assms(1) o(1) g(4) _ assms(6)] o(3) obtain fin cw' idx' blocks' hist' where
    f: "pg_tre_posting_build_finish_ex lib blcksz b (cw, idx, blocks) = ret (fin, cw', idx', blocks')" "build_inv blcksz hist' (cw', idx', blocks')"
      "grown_tree idx idx'" "set hist \<subseteq> set hist'" "length blocks \<le> length blocks' + length (pb_tids b)"
      "item_holds lib blcksz hist' (tree_pages idx') (fin_item (pb_hash b) fin) (set (pb_tids b))" by force
  let ?out = "out\<lparr> accums := accums out @ [fin_item cur fin] \<rparr>"
  have ret: "finish_posting lib blcksz min_freq cur b (out, st) = ret (?out, cw', idx', blocks')"
    using assms(2) f(1) st by (simp add: finish_posting_def posting_out_add_def fin_item_def split: option.splits)
  have tp: "stream_tids mt pk pre cur = {}" using assms(5) by (intro stream_tids_other) auto
  have tg: "stream_tids mt pk grp h = {}" if "h < cur" for h using g(2) that by (intro stream_tids_other) auto
  have lt: "it_hash it < cur" if "it \<in> set (accums out)" for it
  proof -
    have "it_hash it \<in> fst ` set pre" using o(4) that by blast
    then show ?thesis using assms(5) by auto
  qed
  have "item_holds lib blcksz hist' (tree_pages idx') it (stream_tids mt pk (pre @ grp) (it_hash it))" if "it \<in> set (accums ?out)" for it
  proof (cases "it \<in> set (accums out)")
    case True
    then show ?thesis using item_holds_mono[OF o(7) f(4)] f(3) tg[OF lt] by (simp add: stream_tids_append grown_tree_def)
  next
    case False
    then show ?thesis using that f(6) g(3,5) tp by (simp add: stream_tids_append)
  qed
  moreover have "items_sorted (accums ?out)" using o(5) lt by (auto simp: items_sorted_append) (simp add: items_sorted_def)
  moreover have "it_hash ` set (accums ?out) = fst ` set (pre @ grp)"
  proof -
    have "fst ` set grp = {cur}" using g(1,2) by (cases grp) auto
    then show ?thesis using o(4) by auto
  qed
  moreover have "length (accums ?out) \<le> length (pre @ grp)" using o(6) g(1) by (cases grp) auto
  moreover have "r \<le> length blocks'" using o(3) f(5) by linarith
  ultimately have "out_inv lib blcksz mt pk idx0 r (pre @ grp) ?out (cw', idx', blocks')"
    unfolding out_inv_def using f(2) grown_tree_trans[OF o(2) f(3)] by (intro exI[of _ hist']) simp
  then show ?thesis using ret by auto
qed

text \<open>Finishing the open builder, if there is one.\<close>

lemma close_builder:
  assumes "build_env lib blcksz" and "min_freq \<le> 1" and "readout_inv lib blcksz mt pk idx0 r pre ro" and "length pre < 2 ^ 30"
  shows "\<exists>out' st'. (case ro_builder ro of Some (cur, b) \<Rightarrow> finish_posting lib blcksz min_freq cur b (ro_out ro, ro_state ro)
                                         | None \<Rightarrow> ret (ro_out ro, ro_state ro)) = ret (out', st')
    \<and> out_inv lib blcksz mt pk idx0 r pre out' st' \<and> surf_keys out' = surf_keys (ro_out ro)"
proof (cases "ro_builder ro")
  case None
  then show ?thesis using assms(3) by (simp add: readout_inv_def)
next
  case (Some cb)
  obtain cur b where cb: "cb = (cur, b)" by (cases cb)
  from assms(3) Some cb obtain pre0 grp where
    i: "pre = pre0 @ grp" "group_inv mt pk grp cur (ro_last ro) b" "\<forall>e \<in> set pre0. fst e < cur"
      "out_inv lib blcksz mt pk idx0 (length (pb_tids b) + r) pre0 (ro_out ro) (ro_state ro)" by (auto simp: readout_inv_def)
  have "length (pb_tids b) < 2 ^ 64" using i(1,2) assms(4) by (auto simp: group_inv_def)
  from finish_posting_ret[OF assms(1,2) i(4,2,3) this] show ?thesis using Some cb i(1) by auto
qed

lemma keys_inv_same:
  assumes "keys_inv pre ks" and "fst e \<in> fst ` set pre"
  shows "keys_inv (pre @ [e]) ks"
  using assms unfolding keys_inv_def by auto (metis fst_conv image_eqI)+

lemma keys_inv_new: "keys_inv pre ks \<Longrightarrow> keys_inv (pre @ [(h, t, k)]) (ks @ [k])"
  unfolding keys_inv_def by fastforce

lemma open_hash:
  assumes "readout_inv lib blcksz mt pk idx0 r pre ro" and "ro_builder ro = Some (cur, b)"
  shows "cur \<in> fst ` set pre" and "\<forall>e \<in> set pre. fst e \<le> cur"
proof -
  from assms obtain pre0 grp where i: "pre = pre0 @ grp" "grp \<noteq> []" "\<forall>e \<in> set grp. fst e = cur" "\<forall>e \<in> set pre0. fst e < cur"
    by (auto simp: readout_inv_def group_inv_def)
  show "cur \<in> fst ` set pre" using i(1-3) by (cases grp) force+
  show "\<forall>e \<in> set pre. fst e \<le> cur" using i(1,3,4) by (metis UnE less_imp_le order_refl set_append)
qed

lemma readout_step_ret:
  assumes "build_env lib blcksz" and "min_freq \<le> 1" and "readout_inv lib blcksz mt pk idx0 (Suc r) pre ro" and "length pre < 2 ^ 30"
    and "\<forall>e' \<in> set pre. fst e' \<le> fst e" and "entry_packs mt pk e"
  shows "\<exists>ro'. readout_step lib blcksz mt min_freq pk e ro = ret ro' \<and> readout_inv lib blcksz mt pk idx0 r (pre @ [e]) ro'"
proof -
  obtain h tid key where e: "e = (h, tid, key)" by (cases e)
  obtain p where p: "tid \<noteq> - 1" "pg_tre_pack_tid mt pk (pg_tre_unpack_tid mt PG_TRE_TID_LEGACY tid) = Inr p"
    using assms(6) e by (auto simp: entry_packs_def)
  have one: "stream_tids mt pk [(h, tid, key)] h = {p}" using p(2) by (auto simp: stream_tids_def)
  show ?thesis
  proof (cases "map_option fst (ro_builder ro) = Some h")
    case True
    then obtain b where b: "ro_builder ro = Some (h, b)" by auto
    from assms(3) b obtain pre0 grp where
      i: "pre = pre0 @ grp" "group_inv mt pk grp h (ro_last ro) b" "\<forall>e \<in> set pre0. fst e < h"
        "out_inv lib blcksz mt pk idx0 (length (pb_tids b) + Suc r) pre0 (ro_out ro) (ro_state ro)" "keys_inv pre (surf_keys (ro_out ro))"
      by (auto simp: readout_inv_def)
    have g: "grp \<noteq> []" "\<forall>e \<in> set grp. fst e = h" "ro_last ro = fst (snd (last grp))" "pb_hash b = h" "pb_packing b = pk" "pb_tids b \<noteq> []"
        "length (pb_tids b) \<le> length grp" "set (pb_tids b) = stream_tids mt pk grp h" using i(2) by (auto simp: group_inv_def)
    have "h \<in> fst ` set pre" using i(1) g(1,2) by (cases grp) force+
    then have ki: "keys_inv (pre @ [e]) (surf_keys (ro_out ro))" using keys_inv_same[OF i(5), of e] e by simp
    show ?thesis
    proof (cases "tid = ro_last ro")
      case same: True
      have "p \<in> stream_tids mt pk grp h"
      proof -
        have "(h, tid, snd (snd (last grp))) \<in> set grp" using g(1-3) same by (metis last_in_set prod.collapse)
        then show ?thesis using p(2) unfolding stream_tids_def by blast
      qed
      then have "group_inv mt pk (grp @ [e]) h (ro_last ro) b"
        using g same e one by (auto simp: group_inv_def stream_tids_append)
      moreover have "out_inv lib blcksz mt pk idx0 (length (pb_tids b) + r) pre0 (ro_out ro) (ro_state ro)" using i(4) by (auto simp: out_inv_def)
      moreover have "readout_step lib blcksz mt min_freq pk e ro = ret ro" using b same e by (simp add: readout_step_def)
      ultimately show ?thesis using b i(1,3) ki by (auto simp: readout_inv_def)
    next
      case diff: False
      have "length (pb_tids b) < 2 ^ 30" using g(7) i(1) assms(4) by auto
      from build_add_ret[OF _ this] p(2) g(5) obtain b' where
        b': "pg_tre_posting_build_add mt (pg_tre_unpack_tid mt PG_TRE_TID_LEGACY tid) b = ret b'" "pb_tids b' = pb_tids b @ [p]" "pb_hash b' = h"
          "pb_packing b' = pk" using g(4) by metis
      let ?ro = "ro\<lparr> ro_builder := Some (h, b'), ro_last := tid \<rparr>"
      have "group_inv mt pk (grp @ [e]) h tid b'" using g b' e one by (auto simp: group_inv_def stream_tids_append)
      moreover have "readout_step lib blcksz mt min_freq pk e ro = ret ?ro" using b diff e b'(1) by (simp add: readout_step_def)
      ultimately show ?thesis using i(1,3,4) ki b'(2) by (auto simp: readout_inv_def)
    qed
  next
    case False
    have lt: "fst e' < h" if mem: "e' \<in> set pre" for e'
    proof -
      have le: "fst e' \<le> h" using assms(5) mem e by auto
      obtain cur b where c: "ro_builder ro = Some (cur, b)" using assms(3) mem by (auto simp: readout_inv_def split: option.splits)
      then have "cur \<noteq> h" "cur \<le> h" using False assms(5) e open_hash(1)[OF assms(3) c] by auto
      then show ?thesis using open_hash(2)[OF assms(3) c] mem by fastforce
    qed
    from close_builder[OF assms(1-4)] obtain out' st' where c: "(case ro_builder ro of Some (cur, b) \<Rightarrow> finish_posting lib blcksz min_freq cur b (ro_out ro, ro_state ro)
                                         | None \<Rightarrow> ret (ro_out ro, ro_state ro)) = ret (out', st')"
      "out_inv lib blcksz mt pk idx0 (Suc r) pre out' st'" "surf_keys out' = surf_keys (ro_out ro)" by blast
    let ?b0 = "pg_tre_posting_build_begin pk h"
    have b0: "pb_tids ?b0 = []" "pb_packing ?b0 = pk" "pb_hash ?b0 = h"
      by (simp_all add: pg_tre_posting_build_begin_def pg_tre_posting_build_begin_sized_def)
    from build_add_ret[of mt ?b0 _ p] p(2) b0 obtain b' where
      b': "pg_tre_posting_build_add mt (pg_tre_unpack_tid mt PG_TRE_TID_LEGACY tid) ?b0 = ret b'" "pb_tids b' = [p]" "pb_hash b' = h" "pb_packing b' = pk" by auto
    let ?ro = "\<lparr> ro_builder = Some (h, b'), ro_last = tid, ro_out = posting_out_add_key key out', ro_state = st' \<rparr>"
    have "readout_step lib blcksz mt min_freq pk e ro = ret ?ro"
      using False p(1) b'(1) e by (simp add: readout_step_def start_trigram_def c(1))
    moreover have "group_inv mt pk [e] h tid b'" using b' e one by (auto simp: group_inv_def)
    moreover have "keys_inv (pre @ [e]) (surf_keys out' @ [key])" unfolding e using assms(3) c(3) by (intro keys_inv_new) (simp add: readout_inv_def)
    moreover have "out_inv lib blcksz mt pk idx0 (Suc r) pre (posting_out_add_key key out') st'" using c(2) by (simp add: out_inv_def posting_out_add_key_def)
    moreover have "\<forall>e \<in> set pre. fst e < h" using lt by blast
    ultimately have "readout_inv lib blcksz mt pk idx0 r (pre @ [e]) ?ro"
      unfolding readout_inv_def using b'(2) by (simp add: posting_out_add_key_def) (rule exI[of _ pre], rule exI[of _ "[e]"], simp)
    then show ?thesis using \<open>readout_step lib blcksz mt min_freq pk e ro = ret ?ro\<close> by blast
  qed
qed

lemma readout_ret:
  assumes "build_env lib blcksz" and "min_freq \<le> 1" and "readout_inv lib blcksz mt pk idx0 (length es + r) pre ro"
    and "length (pre @ es) < 2 ^ 30" and "sorted (map fst (pre @ es))" and "\<forall>e \<in> set es. entry_packs mt pk e"
  shows "\<exists>ro'. ofold (readout_step lib blcksz mt min_freq pk) es ro = ret ro' \<and> readout_inv lib blcksz mt pk idx0 r (pre @ es) ro'"
  using assms(3-6)
proof (induction es arbitrary: pre ro)
  case (Cons e es)
  have le: "\<forall>e' \<in> set pre. fst e' \<le> fst e" using Cons.prems(3) by (auto simp: sorted_append)
  have pre: "readout_inv lib blcksz mt pk idx0 (Suc (length es + r)) pre ro" "length pre < 2 ^ 30" "entry_packs mt pk e" using Cons.prems by simp_all
  from readout_step_ret[OF assms(1,2) pre(1,2) le pre(3)] obtain ro1 where
    s: "readout_step lib blcksz mt min_freq pk e ro = ret ro1" "readout_inv lib blcksz mt pk idx0 (length es + r) (pre @ [e]) ro1" by blast
  from Cons.IH[OF s(2)] Cons.prems show ?case using s(1) by simp
qed simp

theorem build_postings_ret:
  assumes "build_env lib blcksz" and "min_freq \<le> 1" and "sorted (map fst stream)" and "\<forall>e \<in> set stream. entry_packs mt pk e"
    and "length stream < 2 ^ 30" and "blocks_ok blocks idx" and "length stream + r \<le> length blocks"
  shows "\<exists>out idx' blocks' hist. build_postings lib blcksz mt min_freq coalesce pk stream (idx, blocks) = ret (out, idx', blocks')
    \<and> blocks_ok blocks' idx' \<and> grown_tree idx idx' \<and> r \<le> length blocks' \<and> keys_inv stream (surf_keys out)
    \<and> it_hash ` set (accums out) = fst ` set stream \<and> items_sorted (accums out) \<and> length (accums out) \<le> length stream
    \<and> (\<forall>at e. (at, e) \<in> set hist \<longrightarrow> slot_at blcksz idx' at e)
    \<and> (\<forall>it \<in> set (accums out). item_holds lib blcksz hist (tree_pages idx') it (stream_tids mt pk stream (it_hash it)))"
proof -
  let ?cw = "if coalesce then Some pg_tre_coalesced_writer_begin else None"
  let ?ro = "\<lparr> ro_builder = None, ro_last = - 1, ro_out = posting_out_init, ro_state = (?cw, idx, blocks) \<rparr>"
  have "build_inv blcksz [] (?cw, idx, blocks)"
    using assms(6) by (simp add: build_inv_def writer_inv_def open_fresh_def pg_tre_coalesced_writer_begin_def blocks_ok_def)
  then have "readout_inv lib blcksz mt pk idx (length stream + r) [] ?ro"
    using assms(7) by (auto simp: readout_inv_def out_inv_def keys_inv_def posting_out_init_def items_sorted_def)
  from readout_ret[OF assms(1,2) this] assms(3-5) obtain ro where
    ro: "ofold (readout_step lib blcksz mt min_freq pk) stream ?ro = ret ro" "readout_inv lib blcksz mt pk idx r stream ro" by auto
  from close_builder[OF assms(1,2) ro(2) assms(5)] obtain out cw idx1 blocks' where
    c: "(case ro_builder ro of Some (cur, b) \<Rightarrow> finish_posting lib blcksz min_freq cur b (ro_out ro, ro_state ro)
         | None \<Rightarrow> ret (ro_out ro, ro_state ro)) = ret (out, cw, idx1, blocks')"
      "out_inv lib blcksz mt pk idx r stream out (cw, idx1, blocks')" "surf_keys out = surf_keys (ro_out ro)" by (metis prod_cases3)
  then obtain hist where o: "build_inv blcksz hist (cw, idx1, blocks')" "grown_tree idx idx1" "r \<le> length blocks'"
      "it_hash ` set (accums out) = fst ` set stream" "items_sorted (accums out)" "length (accums out) \<le> length stream"
      "\<forall>it \<in> set (accums out). item_holds lib blcksz hist (tree_pages idx1) it (stream_tids mt pk stream (it_hash it))"
    by (auto simp: out_inv_def)
  define idx2 where "idx2 = (case cw of None \<Rightarrow> idx1 | Some w \<Rightarrow> pg_tre_coalesced_writer_finish w idx1)"
  have fin: "blocks_ok blocks' idx2 \<and> grown_tree idx1 idx2 \<and> (\<forall>at e. (at, e) \<in> set hist \<longrightarrow> slot_at blcksz idx2 at e)"
  proof (cases cw)
    case None
    then show ?thesis using o(1) by (simp add: idx2_def build_inv_def)
  next
    case (Some w)
    then have w: "writer_inv blcksz hist (w, idx1, blocks')" "open_fresh w idx1" "blocks_ok blocks' idx1" using o(1) by (simp_all add: build_inv_def)
    have i2: "idx2 = flush_page w idx1" by (simp add: idx2_def Some pg_tre_coalesced_writer_finish_def)
    have "b \<notin> set blocks'" if "open_buf w = Some (b, p)" for b p using w(1) that unfolding writer_inv_def by auto
    then have "blocks_ok blocks' idx2" using w(3) unfolding i2 by (auto simp: blocks_ok_def flush_page_def split: option.splits)
    moreover have "\<forall>at e. (at, e) \<in> set hist \<longrightarrow> slot_at blcksz idx2 at e" using w(1) unfolding writer_inv_def i2 by auto
    ultimately show ?thesis using flush_grown[OF w(2)] i2 by blast
  qed
  have "build_postings lib blcksz mt min_freq coalesce pk stream (idx, blocks) = ret (out, idx2, blocks')"
    by (simp add: build_postings_def ro(1) c(1) idx2_def)
  moreover have "keys_inv stream (surf_keys out)" using ro(2) c(3) by (simp add: readout_inv_def)
  moreover have "\<forall>it \<in> set (accums out). item_holds lib blcksz hist (tree_pages idx2) it (stream_tids mt pk stream (it_hash it))"
    using o(7) fin item_holds_mono[OF _ order_refl] by (auto simp: grown_tree_def)
  ultimately show ?thesis using fin o(3-6) grown_tree_trans[OF o(2)] by blast
qed

section \<open>The range filter\<close>

lemma strict_last: "sorted_wrt (<) acc \<Longrightarrow> a \<in> set acc \<Longrightarrow> a \<le> (last acc :: uint64)"
  by (induction acc) (auto simp: less_imp_le)

lemma dedup_keys_spec:
  assumes "sorted ks" and "sorted_wrt (<) acc" and "\<forall>a \<in> set acc. \<forall>k \<in> set ks. a \<le> k"
  shows "sorted_wrt (<) (dedup_keys acc ks) \<and> set (dedup_keys acc ks) = set acc \<union> set ks \<and> length (dedup_keys acc ks) \<le> length acc + length ks"
  using assms
proof (induction ks arbitrary: acc)
  case (Cons k ks)
  let ?acc = "if acc = [] \<or> k \<noteq> last acc then acc @ [k] else acc"
  have "sorted_wrt (<) ?acc"
  proof (cases "acc = [] \<or> k \<noteq> last acc")
    case True
    have "a < k" if "a \<in> set acc" for a
    proof -
      have ne: "acc \<noteq> []" using that by auto
      then have "last acc \<le> k" using Cons.prems(3) last_in_set by (metis list.set_intros(1))
      then show ?thesis using strict_last[OF Cons.prems(2) that] True ne by auto
    qed
    then show ?thesis using True Cons.prems(2) by (simp add: sorted_wrt_append)
  qed (use Cons.prems(2) in simp)
  moreover have "\<forall>a \<in> set ?acc. \<forall>k' \<in> set ks. a \<le> k'" using Cons.prems(1,3) by auto
  moreover have "set ?acc \<union> set ks = set acc \<union> set (k # ks)" by (auto dest: last_in_set)
  ultimately show ?case using Cons.IH[of ?acc] Cons.prems(1) by (auto split: if_splits)
qed simp

text \<open>What is stored of the keys: a filter over exactly the collected keys.\<close>

lemma build_surf_ret:
  assumes "4096 \<le> blcksz" and "blocks_ok blocks idx" and "ks \<noteq> []" and "length ks \<le> length blocks" and "length ks < 2 ^ 28"
    and "\<And>n. length (buf n) = n"
  shows "\<exists>root idx' ds. build_surf bu blcksz buf ks (idx, blocks) = ret (root, length ds, idx') \<and> grown_tree idx idx' \<and> root \<noteq> InvalidBlockNumber
    \<and> sorted_wrt (<) ds \<and> set ds = set ks \<and> length ds \<le> length ks
    \<and> (\<forall>idx2. tree_pages idx' \<subseteq>\<^sub>m tree_pages idx2 \<longrightarrow> pg_tre_surf_read bu idx2 root = ret (Some (pg_tre_surf_build bu ds)))"
proof -
  define ds where "ds = dedup_keys [] (sort ks)"
  define s where "s = pg_tre_surf_build bu ds"
  define img where "img = pg_tre_surf_serialize s (buf (pg_tre_surf_serialized_size s))"
  have ds: "sorted_wrt (<) ds" "set ds = set ks" "length ds \<le> length ks" using dedup_keys_spec[of "sort ks" "[]"] by (auto simp: ds_def)
  have ok: "surf_ok bu s" unfolding s_def by (rule built_ok) (use ds(3) assms(5) in simp)
  have li: "length img = pg_tre_surf_serialized_size s" unfolding img_def using image_size(2)[OF _ ok] assms(6) by simp
  have n1: "1 \<le> length blocks" using assms(3,4) by (cases ks) auto
  have "length img \<le> 64 + 10 * length blocks" using image_size(1)[of bu ds] li ds(3) assms(4) unfolding s_def by linarith
  also have "\<dots> \<le> 4048 * length blocks" using n1 by linarith
  also have "\<dots> \<le> surf_page_capacity blcksz * length blocks" using assms(1) by (intro mult_right_mono) (simp_all add: surf_page_capacity_def)
  finally have room: "length img \<le> surf_page_capacity blcksz * length blocks" .
  have small: "length img < 2 ^ 32" using image_size(1)[of bu ds] li ds(3) assms(5) unfolding s_def by simp
  have "24 \<le> length img" unfolding li pg_tre_surf_serialized_size_def Let_def by (simp add: MAXALIGN_def)
  then have ne: "img \<noteq> []" by auto
  have cap: "0 < surf_page_capacity blcksz" using assms(1) by (simp add: surf_page_capacity_def)
  have de: "pg_tre_surf_deserialize bu img = ret s" unfolding img_def by (rule deserialize_serialize[OF ok]) (simp add: assms(6))
  from write_image_ret[OF cap assms(2) room ne small, of bu] obtain root idx' blocks' where
    w: "pg_tre_surf_write_image blcksz img (idx, blocks) = ret (root, idx', blocks')" "root \<noteq> InvalidBlockNumber" "grown_tree idx idx'"
      "\<forall>idx2. tree_pages idx' \<subseteq>\<^sub>m tree_pages idx2 \<longrightarrow> pg_tre_surf_read bu idx2 root = andThen (pg_tre_surf_deserialize bu img) (\<lambda>s. ret (Some s))" by blast
  have "build_surf bu blcksz buf ks (idx, blocks) = ret (root, length ds, idx')"
    using assms(3) w(1) by (simp add: build_surf_def Let_def img_def s_def ds_def)
  then show ?thesis using w(2-4) ds de s_def by (intro exI[of _ root] exI[of _ idx'] exI[of _ ds]) auto
qed

section \<open>The whole build\<close>

text \<open>
  Seven blocks per entry suffice. Every trigram of the stream reads back as its identifiers,
  every other one as absent; the filter that the meta page names is over keys of the stream,
  with one for every trigram. Of the rest of the index only the tree pages and the fields of the
  meta page that the build owns have changed.
\<close>

definition rebuilt :: "tre_index \<Rightarrow> tre_index \<Rightarrow> bool" where
  "rebuilt idx idx' \<longleftrightarrow> (\<exists>pages upper ntri ntup surf n.
     idx' = pg_tre_meta_set_surf (pg_tre_meta_set_roots (idx\<lparr> tree_pages := pages \<rparr>) upper InvalidBlockNumber ntri ntup) surf n)"

theorem ambuild_ret:
  assumes "build_env lib blcksz" and "min_freq \<le> 1" and "sorted (map fst stream)" and "\<forall>e \<in> set stream. entry_packs mt pk e"
    and "length stream < 2 ^ 28" and "blocks_ok blocks idx" and "7 * length stream \<le> length blocks" and "\<And>n. length (buf n) = n"
  shows "\<exists>idx' ks. ambuild_tail lib bu blcksz mt min_freq coalesce buf pk stream heap_tuples (idx, blocks) = ret idx'
    \<and> (\<forall>h. run_posting lib blcksz idx' (root_upper (meta_page idx')) h
          = ret (if h \<in> fst ` set stream then Some (stream_tids mt pk stream h) else None))
    \<and> (if stream = [] then root_surf (meta_page idx') = InvalidBlockNumber
       else pg_tre_surf_read bu idx' (root_surf (meta_page idx')) = ret (Some (pg_tre_surf_build bu ks)))
    \<and> sorted_wrt (<) ks \<and> keys_inv stream ks
    \<and> rebuilt idx idx'"
proof -
  have env: "4096 \<le> blcksz" using assms(1) by (simp add: build_env_def)
  then have "4000 div 16 \<le> (blcksz - 96) div 16" by (intro div_le_mono) simp
  then have env2: "2 \<le> UPPER_INTERNAL_MAX_ENTRIES blcksz" by (simp add: UPPER_INTERNAL_MAX_ENTRIES_def)
  have l30: "length stream < 2 ^ 30" "length stream + 6 * length stream \<le> length blocks" using assms(5,7) by simp_all
  from build_postings_ret[OF assms(1-4) l30(1) assms(6) l30(2), where coalesce = coalesce] obtain out idx1 blocks1 hist where
    p: "build_postings lib blcksz mt min_freq coalesce pk stream (idx, blocks) = ret (out, idx1, blocks1)" "blocks_ok blocks1 idx1" "grown_tree idx idx1"
      "6 * length stream \<le> length blocks1" "keys_inv stream (surf_keys out)" "it_hash ` set (accums out) = fst ` set stream" "items_sorted (accums out)"
      "length (accums out) \<le> length stream" "\<forall>at e. (at, e) \<in> set hist \<longrightarrow> slot_at blcksz idx1 at e"
      "\<forall>it \<in> set (accums out). item_holds lib blcksz hist (tree_pages idx1) it (stream_tids mt pk stream (it_hash it))" by (elim exE conjE) (rule that)
  note slots = p(9)[rule_format] and holds = p(10)[rule_format]
  have io: "\<forall>it \<in> set (accums out). item_ok blcksz it" using item_holds_ok[OF holds env] by blast
  have room: "3 * (length (accums out) + length stream) \<le> length blocks1" using p(4,8) by simp
  from bulkload_ret[OF io env2 p(2) room] obtain root idx2 blocks2 where
    u: "pg_tre_upper_bulkload blcksz blocks1 idx1 (accums out) = ret (root, idx2, blocks2)" "blocks_ok blocks2 idx2" "grown_tree idx1 idx2"
      "3 * length stream \<le> length blocks2"
      "if accums out = [] then root = InvalidBlockNumber else root \<noteq> InvalidBlockNumber \<and> upper_tree blcksz (tree_pages idx2) root (accums out)"
    by (elim exE conjE) (rule that)
  have empty: "accums out = [] \<longleftrightarrow> stream = []" using p(6) by auto
  have keys: "surf_keys out = [] \<longleftrightarrow> stream = []" "length (surf_keys out) \<le> length stream"
    using p(5) by (cases stream; force simp: keys_inv_def)+
  have "\<exists>rs idx3 ds. build_surf bu blcksz buf (surf_keys out) (idx2, blocks2) = ret (rs, length ds, idx3) \<and> grown_tree idx2 idx3
      \<and> sorted_wrt (<) ds \<and> set ds = set (surf_keys out) \<and> length ds \<le> length (surf_keys out) \<and> (if stream = [] then rs = InvalidBlockNumber
         else \<forall>idx'. tree_pages idx3 \<subseteq>\<^sub>m tree_pages idx' \<longrightarrow> pg_tre_surf_read bu idx' rs = ret (Some (pg_tre_surf_build bu ds)))"
  proof (cases "stream = []")
    case True
    then show ?thesis using keys(1) by (simp add: build_surf_def)
  next
    case False
    have "length (surf_keys out) \<le> length blocks2" "length (surf_keys out) < 2 ^ 28" using keys(2) u(4) assms(5) by auto
    then show ?thesis using build_surf_ret[OF env u(2) _ _ _ assms(8), of "surf_keys out" bu] False keys(1) by auto
  qed
  then obtain rs idx3 ds where v: "build_surf bu blcksz buf (surf_keys out) (idx2, blocks2) = ret (rs, length ds, idx3)" "grown_tree idx2 idx3"
      "sorted_wrt (<) ds" "set ds = set (surf_keys out)" "length ds \<le> length (surf_keys out)" "if stream = [] then rs = InvalidBlockNumber
         else \<forall>idx'. tree_pages idx3 \<subseteq>\<^sub>m tree_pages idx' \<longrightarrow> pg_tre_surf_read bu idx' rs = ret (Some (pg_tre_surf_build bu ds))" by blast
  define idx' where "idx' = pg_tre_meta_set_surf (pg_tre_meta_set_roots idx3 root InvalidBlockNumber (word_of_nat (length (accums out))) heap_tuples)
    rs (word_of_nat (length ds))"
  have tp: "tree_pages idx' = tree_pages idx3" "root_upper (meta_page idx') = root" "root_surf (meta_page idx') = rs"
    by (simp_all add: idx'_def pg_tre_meta_set_surf_def pg_tre_meta_set_roots_def)
  have le: "tree_pages idx1 \<subseteq>\<^sub>m tree_pages idx'" "tree_pages idx2 \<subseteq>\<^sub>m tree_pages idx'"
    using u(3) v(2) map_le_trans unfolding tp(1) grown_tree_def by blast+
  have run: "run_posting lib blcksz idx' root h = ret (if h \<in> fst ` set stream then Some (stream_tids mt pk stream h) else None)" for h
  proof (cases "stream = []")
    case True
    then show ?thesis using u(5) empty by (simp add: run_posting_def pg_tre_upper_lookup_root_def)
  next
    case False
    then have t: "root \<noteq> InvalidBlockNumber" "upper_tree blcksz (tree_pages idx') root (accums out)"
      using u(5) empty upper_tree_mono[OF _ le(2)] by auto
    note lt = lookup_tree[OF t(2) p(7) io t(1)]
    show ?thesis
    proof (cases "h \<in> fst ` set stream")
      case True
      then obtain it where it: "it \<in> set (accums out)" "it_hash it = h" using p(6) by (metis image_iff)
      have "run_posting lib blcksz idx' root (it_hash it) = ret (Some (stream_tids mt pk stream (it_hash it)))"
      proof (rule item_holds_read[OF assms(1) _ _ t(1) lt(1)[OF it(1)]])
        show "item_holds lib blcksz hist (tree_pages idx') it (stream_tids mt pk stream (it_hash it))"
          by (rule item_holds_mono[OF holds[OF it(1)] order_refl le(1)])
        show "slot_at blcksz idx' at e" if "(at, e) \<in> set hist" for at e by (rule slot_at_mono[OF slots[OF that] le(1)])
      qed
      then show ?thesis using True it(2) by simp
    next
      case False
      then show ?thesis using lt(2)[of h] p(6) by (simp add: run_posting_def)
    qed
  qed
  have "ambuild_tail lib bu blcksz mt min_freq coalesce buf pk stream heap_tuples (idx, blocks) = ret idx'"
    by (simp add: ambuild_tail_def p(1) u(1) v(1) idx'_def)
  moreover have "keys_inv stream ds" using p(5) v(4,5) unfolding keys_inv_def by auto
  moreover have "if stream = [] then root_surf (meta_page idx') = InvalidBlockNumber
       else pg_tre_surf_read bu idx' (root_surf (meta_page idx')) = ret (Some (pg_tre_surf_build bu ds))"
    using v(6) tp(1,3) by (auto simp: map_le_refl split: if_splits)
  moreover have "rebuilt idx idx'"
  proof -
    have "grown_tree idx idx3" using grown_tree_trans p(3) u(3) v(2) by blast
    then have "idx3 = idx\<lparr> tree_pages := tree_pages idx3 \<rparr>" by (simp add: grown_tree_def)
    then show ?thesis unfolding rebuilt_def idx'_def by metis
  qed
  ultimately show ?thesis using run tp(2) v(3) by (intro exI[of _ idx'] exI[of _ ds]) simp
qed

text \<open>Where no two trigrams share a hash, the keys are all the keys of the stream.\<close>

lemma keys_complete:
  assumes "keys_inv stream ks" and "\<forall>h t k t' k'. (h, t, k) \<in> set stream \<and> (h, t', k') \<in> set stream \<longrightarrow> k = k'"
  shows "k \<in> set ks \<longleftrightarrow> (\<exists>h t. (h, t, k) \<in> set stream)"
proof
  assume "\<exists>h t. (h, t, k) \<in> set stream"
  then obtain h t where "(h, t, k) \<in> set stream" by blast
  moreover from this obtain t' k' where "(h, t', k') \<in> set stream" "k' \<in> set ks" using assms(1) unfolding keys_inv_def by force
  ultimately show "k \<in> set ks" using assms(2) by blast
qed (use assms(1) in \<open>auto simp: keys_inv_def\<close>)

end
