(* ===== verification/Scan_Complete.thy ===== *)
theory Scan_Complete
  imports Scan_Correct Scan_Am Insert_Correct Build_Correct
begin

text \<open>
  From the candidates to the bitmap: every row that the query accepts on what the index holds of
  it is in the bitmap, unless the range prefilter rejects the scan; and the queries of exact
  patterns have the form that the scan expects.
\<close>

section \<open>The candidates in every mode\<close>

lemma base_covers [simp]: "run_covers (implicit_base_run m) h"
  by (simp add: run_covers_def implicit_base_run_def)

lemma runs_head:
  assumes "run_catalog_runs idx = ret rs"
  shows "magic (meta_page idx) = PG_TRE_META_MAGIC \<and> (\<exists>rs'. rs = implicit_base_run (meta_page idx) # rs')"
proof -
  from assms obtain m where m: "pg_tre_meta_read idx = ret m"
    by (auto simp: run_catalog_runs_def pg_tre_run_catalog_open_def andThen_ret_iff)
  then have ok: "magic (meta_page idx) = PG_TRE_META_MAGIC"
    by (auto simp: pg_tre_meta_read_def Let_def split: if_splits)
  have m': "m = normalize_meta (meta_page idx)" using m meta_read_ret[OF ok] by simp
  have "implicit_base_run m = implicit_base_run (meta_page idx)" by (simp add: m' implicit_base_run_def)
  then show ?thesis using assms ok
    by (auto simp: run_catalog_runs_def pg_tre_run_catalog_open_def m run_catalog_drain.simps pg_tre_run_catalog_next_def andThen_ret_iff)
qed

text \<open>The rows of a trigram in the trees that a query of this mode reads: in DNF, the base run only.\<close>

definition scan_tids :: "PgTreRun list \<Rightarrow> (PgTreRun \<Rightarrow> uint64 \<Rightarrow> sm option) \<Rightarrow> TrigramQuery \<Rightarrow> uint64 \<Rightarrow> sm" where
  "scan_tids rs P q h = (if mode q = TRIGRAM_QUERY_DNF then members (P (hd rs) h) else tree_tids rs P h)"

theorem candidates_all_ret:
  assumes "alloc_ok (sc_lib env)" and "runs_hold env idx rs P" and "mode q = TRIGRAM_QUERY_PIECES \<longrightarrow> postings_nonempty rs P"
    and "query_wf q" and "\<not> always_true q"
    and "append_history blcksz view" and "\<And>j. n \<le> j \<Longrightarrow> view j = view n" and "pending_inv blcksz (view 0) bs" and "sc_max_tuples env < 65535"
  shows "\<exists>m old since after. tre_compute_candidate_sm env view idx q = ret (False, m)
    \<and> pending_listing (sc_max_tuples env) (sc_packing env) (view 0) = ret old
    \<and> pending_listing (sc_max_tuples env) (sc_packing env) (view n) = ret (old @ since @ after)
    \<and> members m = {t. tq_accepts q {h. t \<in> scan_tids rs P q h \<union> item_tids (sc_max_tuples env) (sc_packing env) (old @ since) h}}"
proof (cases "mode q = TRIGRAM_QUERY_DNF")
  case False
  then have "scan_tids rs P q = tree_tids rs P" by (simp add: scan_tids_def fun_eq_iff)
  then show ?thesis using candidates_ret[OF assms(1-3) False assms(4-9)] by simp
next
  case True
  obtain ov old since after where o: "overlay_build env view q = ret ov" "overlay_ok ov"
      "pending_listing (sc_max_tuples env) (sc_packing env) (view 0) = ret old"
      "pending_listing (sc_max_tuples env) (sc_packing env) (view n) = ret (old @ since @ after)"
      "\<forall>h. query_wants_trigram q h \<longrightarrow> overlay_tids ov h = item_tids (sc_max_tuples env) (sc_packing env) (old @ since) h"
    using overlay_build_ret[OF assms(6-9), of q] by blast
  have rs: "magic (meta_page idx) = PG_TRE_META_MAGIC" "hd rs = implicit_base_run (meta_page idx)" "hd rs \<in> set rs"
    using runs_head[of idx rs] assms(2) by (auto simp: runs_hold_def)
  have "run_covers (hd rs) h" for h by (simp add: rs(2))
  then have "\<forall>h. run_posting (sc_lib env) (sc_blcksz env) idx (root_upper (meta_page idx)) h = ret (P (hd rs) h)"
    using assms(2) rs(3) arg_cong[OF rs(2), of run_root_upper] unfolding runs_hold_def by (auto simp: implicit_base_run_def)
  from dnf_ret[OF assms(1) rs(1) this o(2), of None "{}" "concat (conjuncts q)"]
  obtain m where m: "candidates_dnf env idx (concat (conjuncts q)) None ov = ret m"
      "members m = alt_tids (\<lambda>h. members (P (hd rs) h) \<union> overlay_tids ov h) (concat (conjuncts q))"
    by (auto simp: sm_is_def)
  have "query_wants_trigram q (trigram_hash a)" if "a \<in> set (concat (conjuncts q))" for a
    using that by (auto simp: query_wants_iff query_hashes_def)
  then have "members m = {t. tq_accepts q {h. t \<in> scan_tids rs P q h \<union> item_tids (sc_max_tuples env) (sc_packing env) (old @ since) h}}"
    using True assms(5) o(5) unfolding m(2) tq_accepts_def alt_tids_def scan_tids_def by (simp, blast)
  moreover have "tre_compute_candidate_sm env view idx q = ret (False, m)"
    using True assms(5) o(1) m(1) by (simp add: tre_compute_candidate_sm_def)
  ultimately show ?thesis using o(3,4) by blast
qed

section \<open>The bitmap\<close>

text \<open>A bitmap holds a row if it has its block or lists it.\<close>

definition bitmap_covers :: "tbm_add list \<Rightarrow> ItemPointer \<Rightarrow> bool" where
  "bitmap_covers adds tid \<longleftrightarrow> (\<exists>a \<in> set adds. case a of Tbm_page b \<Rightarrow> b = ip_blkid tid | Tbm_tuples tids recheck \<Rightarrow> tid \<in> set tids)"

lemma packed_below:
  assumes "mt < 65535" and "pg_tre_pack_tid mt pk tid = Inr p"
  shows "p \<noteq> - 1"
proof -
  have st: "tid_stride mt pk \<le> 65536" using assms(1) by (cases pk) (simp_all add: tid_stride_def)
  have b: "unat (ip_blkid tid) < 2 ^ 32" "unat (ip_posid tid) < 2 ^ 16"
    using unsigned_less[of "ip_blkid tid"] unsigned_less[of "ip_posid tid"] by simp_all
  have "unat p \<le> (2 ^ 32 - 1) * 65536 + 2 ^ 16"
    unfolding pack_value(1)[OF assms] by (intro add_mono mult_mono) (use st b in auto)
  moreover have "unat (- 1 :: uint64) = 2 ^ 64 - 1" by (simp add: unsigned_minus_1_eq_mask mask_eq_exp_minus_1)
  ultimately show ?thesis by auto
qed

theorem getbitmap_covers:
  assumes "query_valid st" and "pg_tre_surf_prefilter_rejects (sc_bits env) (view 0) (st_q st) = ret False"
    and "alloc_ok (sc_lib env)" and "runs_hold env idx rs P" and "mode (st_q st) = TRIGRAM_QUERY_PIECES \<longrightarrow> postings_nonempty rs P"
    and "always_true (st_q st) \<or> query_wf (st_q st)"
    and "append_history blcksz view" and "\<And>j. n \<le> j \<Longrightarrow> view j = view n" and "pending_inv blcksz (view 0) bs" and "sc_max_tuples env < 65535"
    and "pending_listing (sc_max_tuples env) (sc_packing env) (view 0) = ret old"
    and "pg_tre_pack_tid (sc_max_tuples env) (sc_packing env) tid = Inr t" and "unat (ip_blkid tid) < nblocks"
    and "tq_accepts (st_q st) {h. t \<in> scan_tids rs P (st_q st) h \<union> item_tids (sc_max_tuples env) (sc_packing env) old h}"
  shows "\<exists>k adds. pg_tre_amgetbitmap env view idx nblocks st = ret (k, adds) \<and> bitmap_covers adds tid"
proof (cases "always_true (st_q st)")
  case True
  have "Tbm_page (ip_blkid tid) \<in> set (map (\<lambda>b. Tbm_page (word_of_nat b)) [0..<nblocks])"
    using assms(13) by (auto intro!: image_eqI[of _ _ "unat (ip_blkid tid)"])
  then show ?thesis using True assms(1,2) by (force simp: pg_tre_amgetbitmap_def bitmap_covers_def)
next
  case False
  then have wf: "query_wf (st_q st)" using assms(6) by simp
  from candidates_all_ret[OF assms(3-5) wf False assms(7-10)] assms(11) obtain m since where
    m: "tre_compute_candidate_sm env view idx (st_q st) = ret (False, m)"
      "members m = {t. tq_accepts (st_q st) {h. t \<in> scan_tids rs P (st_q st) h \<union> item_tids (sc_max_tuples env) (sc_packing env) (old @ since) h}}"
    by auto
  have "tq_accepts (st_q st) {h. t \<in> scan_tids rs P (st_q st) h \<union> item_tids (sc_max_tuples env) (sc_packing env) (old @ since) h}"
    by (rule tq_accepts_mono[OF assms(14)]) auto
  then have "t \<in> members m" unfolding m(2) by simp
  then obtain a where a: "m = Some a" "t \<in> a" by (cases m) auto
  have "card a > 0" using a(2) by (auto simp: card_gt_0_iff)
  moreover have "tid \<in> set (map (pg_tre_unpack_tid (sc_max_tuples env) (sc_packing env)) (sm_members a))"
    using a(2) packed_below[OF assms(10,12)] pack_unpack[OF assms(10,12)] by (force simp: sm_members_def)
  ultimately show ?thesis using False assms(1,2) m(1) a(1)
    by (simp add: pg_tre_amgetbitmap_def bitmap_covers_def Let_def)
qed

section \<open>The prefilter\<close>

lemma prefilter_pending:
  assumes "magic (meta_page idx) = PG_TRE_META_MAGIC" and "has_surf_range q \<longrightarrow> pending_head (meta_page idx) \<noteq> InvalidBlockNumber"
  shows "pg_tre_surf_prefilter_rejects bu idx q = ret False"
proof -
  have "pending_head (normalize_meta (meta_page idx)) = pending_head (meta_page idx)" by simp
  then show ?thesis using assms by (auto simp: pg_tre_surf_prefilter_rejects_def meta_read_ret)
qed

lemma prefilter_present:
  assumes "magic (meta_page idx) = PG_TRE_META_MAGIC"
    and "has_surf_range q \<longrightarrow> (\<exists>s. pg_tre_surf_read bu idx (root_surf (meta_page idx)) = ret (Some s) \<and> pg_tre_surf_range_overlaps bu s (surf_lo q) (surf_hi q))"
  shows "pg_tre_surf_prefilter_rejects bu idx q = ret False"
  using assms by (auto simp: pg_tre_surf_prefilter_rejects_def meta_read_ret)

section \<open>The queries of exact patterns\<close>

lemma run_pieces_nonempty: "3 \<le> length r \<Longrightarrow> [] \<notin> set (run_pieces hf r p digit)"
  by (induction p arbitrary: digit) (auto simp: run_piece_def)

lemma extract_wf:
  assumes "max_cost \<le> 0" and "length (concat (conjuncts (regex_extract_query hf fanout mcl root max_cost))) \<le> 2 ^ 29"
  shows "always_true (regex_extract_query hf fanout mcl root max_cost) \<or> query_wf (regex_extract_query hf fanout mcl root max_cost)"
    and "mode (regex_extract_query hf fanout mcl root max_cost) \<noteq> TRIGRAM_QUERY_DNF"
proof -
  have rec: "conjuncts (record_surf_range root max_cost q) = conjuncts q" "always_true (record_surf_range root max_cost q) = always_true q" for q
    by (auto simp: record_surf_range_def split: option.splits)
  let ?q = "regex_extract_query hf fanout mcl root max_cost"
  from assms(1) have "(always_true ?q \<or> query_wf ?q) \<and> mode ?q \<noteq> TRIGRAM_QUERY_DNF"
  proof (cases rule: exact_query_cases[of max_cost hf root fanout mcl])
    case (pieces q)
    have "[] \<notin> set (conjuncts q)"
      using pieces(1) run_pieces_nonempty by (auto simp: try_build_run_pieces_def split: if_splits option.splits)
    then show ?thesis using pieces(3,4) assms(2) by (simp add: query_wf_def rec)
  next
    case cnf
    have "mode (cnf_query hf fanout root max_cost) = TRIGRAM_QUERY_CNF"
      "always_true (cnf_query hf fanout root max_cost) \<or> conjuncts (cnf_query hf fanout root max_cost) \<noteq> []"
      by (auto simp: cnf_query_def accum_to_query_def Let_def)
    then show ?thesis using cnf assms(2) by (auto simp: query_wf_def rec)
  qed
  then show "always_true ?q \<or> query_wf ?q" "mode ?q \<noteq> TRIGRAM_QUERY_DNF" by simp_all
qed

section \<open>Queries that find a text\<close>

text \<open>
  The key range of a query is that of a text with this first trigram; what the extraction of an
  anchored pattern promises of every matching text.
\<close>

definition range_of_text :: "TrigramQuery \<Rightarrow> int list \<Rightarrow> bool" where
  "range_of_text q cps \<longleftrightarrow> (has_surf_range q \<longrightarrow>
     (\<exists>a b c rest. cps = a # b # c # rest \<and> surf_lo q = pg_tre_trigram_key_cp (a, b, c) \<and> surf_hi q = pg_tre_trigram_key_cp (a, b, c)))"

lemma extract_range_of_text:
  assumes "left_depth root \<le> PREFIX_STACK_MAX" and "row_match root txt"
  shows "range_of_text (regex_extract_query hf fanout mcl root max_cost) txt"
  unfolding range_of_text_def using anchored_key_first[OF conjunct2[OF extract_surf_key] assms] by metis

text \<open>
  A query with which a scan finds a text whose trigrams are in the index: well formed, accepting
  the trigrams of the text, and with a key range that the text's first trigram is in.
\<close>

definition query_finds :: "hashfn \<Rightarrow> TrigramQuery \<Rightarrow> int list \<Rightarrow> bool" where
  "query_finds hf q cps \<longleftrightarrow> (always_true q \<or> query_wf q) \<and> tq_accepts q (text_hashes hf cps) \<and> range_of_text q cps"

lemma finds_always: "range_of_text q cps \<Longrightarrow> query_finds hf (q\<lparr> always_true := True \<rparr>) cps"
  by (simp add: query_finds_def tq_accepts_def range_of_text_def)

lemma finds_forced: "query_finds hf q cps \<Longrightarrow> query_finds hf (if c then q\<lparr> always_true := True \<rparr> else q) cps"
  using finds_always by (simp add: query_finds_def)

lemma exact_finds:
  assumes "exact_ast root" and "max_cost \<le> 0"
    and "mode (regex_extract_query hf fanout mcl root max_cost) = TRIGRAM_QUERY_PIECES \<longrightarrow> rep_exact root"
    and "row_match root cps" and "left_depth root \<le> PREFIX_STACK_MAX"
    and "length (concat (conjuncts (regex_extract_query hf fanout mcl root max_cost))) \<le> 2 ^ 29"
  shows "query_finds hf (regex_extract_query hf fanout mcl root max_cost) cps"
  using extract_wf(1)[OF assms(2,6)] extract_exact_sound[OF assms(1,2) _ assms(4)] assms(3) extract_range_of_text[OF assms(5,4)]
  by (auto simp: query_finds_def)

text \<open>A LIKE pattern has no anchor, so no key range, however long it is.\<close>

lemma prefix_walk_leftmost: "\<exists>st'. prefix_walk (Some (foldl CONCAT a xs)) st cps sa = prefix_walk (Some a) st' cps sa"
proof (induction xs arbitrary: st rule: rev_induct)
  case (snoc x xs)
  then show ?case by auto
qed auto

lemma like_no_range:
  assumes "is \<noteq> []" and "hd is \<noteq> Start_item" and "hd is \<noteq> End_item"
  shows "\<not> has_surf_range (regex_extract_query hf fanout mcl (items_ast is) max_cost)"
proof
  assume "has_surf_range (regex_extract_query hf fanout mcl (items_ast is) max_cost)"
  from extract_surf_key[OF this] obtain k where "prefix_walk (Some (items_ast is)) [] [] False = Some k"
    by (auto simp: extract_anchored_prefix_key_def split: option.splits)
  moreover obtain st where "prefix_walk (Some (items_ast is)) [] [] False = prefix_walk (Some (item_ast (hd is))) st [] False"
    unfolding items_ast_def using prefix_walk_leftmost by blast
  ultimately show False using assms(2,3) by (cases "hd is") auto
qed

lemma like_finds:
  assumes "is \<noteq> []" and "Start_item \<notin> set is" and "hd is \<noteq> End_item" and "like_match is cps" and "max_cost \<le> 0"
    and "length (concat (conjuncts (regex_extract_query hf fanout mcl (items_ast is) max_cost))) \<le> 2 ^ 29"
  shows "query_finds hf (regex_extract_query hf fanout mcl (items_ast is) max_cost) cps"
proof -
  have "hd is \<noteq> Start_item" "Start_item \<notin> set (tl is)" using assms(1,2) by (cases "is"; auto)+
  then show ?thesis
    using extract_wf(1)[OF assms(5,6)] items_query_complete[OF assms(1) _ assms(4,5)] like_no_range[OF assms(1) _ assms(3)]
    by (auto simp: query_finds_def range_of_text_def)
qed

section \<open>Preparing a scan\<close>

lemma rescan_ret:
  assumes "sk_strategy sk \<in> set [PG_TRE_STRATEGY_APPROX_MATCH, PG_TRE_STRATEGY_LIKE, PG_TRE_STRATEGY_ILIKE,
                PG_TRE_STRATEGY_REGEX, PG_TRE_STRATEGY_IREGEX, PG_TRE_STRATEGY_EQUAL]"
    and "key_pattern sk = (pattern, max_cost)" and "tre_parse_regex (qe_encoding qe) pattern = ret (ast, force)"
  shows "\<exists>st'. pg_tre_amrescan qe (sk # keys) orderbys st = ret st' \<and> query_valid st'
    \<and> st_q st' = (if sk_strategy sk = PG_TRE_STRATEGY_ILIKE \<or> sk_strategy sk = PG_TRE_STRATEGY_IREGEX \<or> force
                    then (pattern_query qe ast max_cost)\<lparr> always_true := True \<rparr> else pattern_query qe ast max_cost)"
  using assms by (simp add: pg_tre_amrescan_def Let_def)

text \<open>A text without zero bytes; a translated pattern then has none either.\<close>

lemma c_string_id: "0 \<notin> set s \<Longrightarrow> c_string s = s"
  by (auto simp: c_string_def takeWhile_eq_all_conv)

lemma item_bytes_nonzero: "0 \<in> set (item_bytes i) \<longleftrightarrow> i = Char_item 0"
  by (cases i) (auto simp: append_escaped_def)

lemma like_items_nonzero: "0 \<notin> set p \<Longrightarrow> Char_item 0 \<notin> set (like_items esc p)"
  by (induction esc p rule: like_items.induct) (auto split: list.splits)

lemma like_pattern:
  assumes "sk_strategy sk = PG_TRE_STRATEGY_LIKE \<or> sk_strategy sk = PG_TRE_STRATEGY_ILIKE" and "0 \<notin> set (sk_text sk)"
  shows "key_pattern sk = (concat (map item_bytes (like_items (bt CHR 0x5C) (sk_text sk))), 0)"
proof -
  have "0 \<notin> set (concat (map item_bytes (like_items (bt CHR 0x5C) (sk_text sk))))"
    using like_items_nonzero[OF assms(2)] by (auto simp: item_bytes_nonzero)
  then show ?thesis using assms(1) by (auto simp: key_pattern_def strategy_defs like_to_regex_items c_string_id)
qed

lemma equal_pattern:
  assumes "sk_strategy sk = PG_TRE_STRATEGY_EQUAL" and "0 \<notin> set (sk_text sk)"
  shows "key_pattern sk = (concat (map item_bytes (Start_item # map Char_item (sk_text sk) @ [End_item])), 0)"
proof -
  have "0 \<notin> set (concat (map item_bytes (Start_item # map Char_item (sk_text sk) @ [End_item])))"
    using assms(2) item_bytes_nonzero by (auto simp: append_escaped_def)
  from c_string_id[OF this] show ?thesis using assms(1) unfolding literal_to_regex_items[symmetric] by (simp add: key_pattern_def strategy_defs)
qed

lemma parse_empty: "tre_parse_regex enc [] = ret (None, False)"
proof -
  have "parse_pattern [] = None" by (simp add: parse_pattern_def parse_tokens.simps)
  then show ?thesis
    by (simp add: tre_parse_regex_def tokenize_def init_tokenizer_def)
       (subst tokenize_from.simps, simp add: tre_tokenize_next_def)
qed

section \<open>Rows that were inserted\<close>

lemma text_hashes_first: "range_of_text q cps \<Longrightarrow> has_surf_range q \<Longrightarrow> text_hashes hf cps \<noteq> {}"
  by (auto simp: range_of_text_def text_hashes_def)

lemma item_tids_row: "pg_tre_pack_tid mt pk tid = Inr t \<Longrightarrow> h \<in> set hs \<Longrightarrow> t \<in> item_tids mt pk (old @ tid_items tid hs) h"
  by (auto simp: item_tids_def tid_items_def)

lemma offset_packs: "mt < 65535 \<Longrightarrow> unat (ip_posid tid) \<le> mt \<Longrightarrow> \<exists>t. pg_tre_pack_tid mt pk tid = Inr t"
proof (cases pk)
  case PG_TRE_TID_DENSE
  assume mt: "mt < 65535" "unat (ip_posid tid) \<le> mt"
  have "\<not> PG_TRE_DENSE_STRIDE mt \<le> ucast (ip_posid tid)"
    using mt unat_stride[OF mt(1)] by (simp add: word_le_nat_alt unat_ucast64)
  then show ?thesis using PG_TRE_TID_DENSE by (simp add: pg_tre_pack_tid_def Let_def)
qed (simp add: pg_tre_pack_tid_def)

theorem inserted_found:
  assumes "cpstream_chars enc (pg_tre_cpstream_init str) = ret cps" and "encoding_ok enc"
    and "pending_inv blcksz idx bs" and "0 < pending_capacity blcksz" and "sc_max_tuples env < 65535" and "unat (ip_posid tid) \<le> sc_max_tuples env"
    and "length str \<le> length blocks" and "distinct blocks" and "\<And>b. b \<in> set blocks \<Longrightarrow> b \<noteq> InvalidBlockNumber \<and> b \<notin> set bs"
    and "limit_kb \<le> 0"
    and "pg_tre_aminsert enc hf blcksz (sc_max_tuples env) (sc_packing env) limit_kb try_merge blocks idx (Some str) tid = ret (True, idx')"
    and "append_history blcksz view" and "\<And>j. n \<le> j \<Longrightarrow> view j = view n" and "view 0 = idx'"
    and "alloc_ok (sc_lib env)" and "runs_hold env tree rs P" and "mode (st_q st) = TRIGRAM_QUERY_PIECES \<longrightarrow> postings_nonempty rs P"
    and "query_valid st" and "query_finds hf (st_q st) cps" and "unat (ip_blkid tid) < nblocks"
  shows "\<exists>k adds. pg_tre_amgetbitmap env view tree nblocks st = ret (k, adds) \<and> bitmap_covers adds tid"
proof -
  let ?mt = "sc_max_tuples env" and ?pk = "sc_packing env"
  have q: "always_true (st_q st) \<or> query_wf (st_q st)" "tq_accepts (st_q st) (text_hashes hf cps)" "range_of_text (st_q st) cps"
    using assms(19) by (simp_all add: query_finds_def)
  have nolimit: "\<not> pending_over_limit limit_kb m" for m using assms(10) by (simp add: pending_over_limit_def)
  note old = listing_inv[OF assms(3), of ?mt ?pk]
  from aminsert_ret[OF assms(1-9) old, of hf limit_kb try_merge] assms(11) nolimit obtain bs' hs where
    ins: "pending_inv blcksz idx' bs'" "set hs = text_hashes hf cps"
      "pending_listing ?mt ?pk idx' = ret (map (entry_item ?mt ?pk) (pend_items (pending_pages idx) bs) @ tid_items tid hs)"
    by auto
  obtain t where t: "pg_tre_pack_tid ?mt ?pk tid = Inr t" using offset_packs[OF assms(5,6)] by blast
  have "has_surf_range (st_q st) \<longrightarrow> pending_head (meta_page idx') \<noteq> InvalidBlockNumber"
  proof
    assume "has_surf_range (st_q st)"
    then have "hs \<noteq> []" using text_hashes_first[OF q(3), of hf] ins(2) by auto
    then have "bs' \<noteq> []" using ins(3) listing_inv[OF ins(1), of ?mt ?pk] by (auto simp: tid_items_def)
    then show "pending_head (meta_page idx') \<noteq> InvalidBlockNumber"
      using ins(1) by (cases bs') (auto simp: pending_inv_def)
  qed
  then have pre: "pg_tre_surf_prefilter_rejects (sc_bits env) (view 0) (st_q st) = ret False"
    unfolding assms(14) using ins(1) by (intro prefilter_pending) (simp_all add: pending_inv_def)
  have acc: "tq_accepts (st_q st) {h. t \<in> scan_tids rs P (st_q st) h \<union>
      item_tids ?mt ?pk (map (entry_item ?mt ?pk) (pend_items (pending_pages idx) bs) @ tid_items tid hs) h}"
    by (rule tq_accepts_mono[OF q(2)]) (use item_tids_row[OF t] ins(2) in blast)
  show ?thesis
    by (rule getbitmap_covers[OF assms(18) pre assms(15-17) q(1) assms(12,13) _ assms(5) _ t assms(20) acc])
       (use ins(1,3) assms(14) in simp_all)
qed

section \<open>Rows that were built\<close>

text \<open>A row in the sorted stream of a build: an entry for every window of its text.\<close>

definition stream_lists :: "nat \<Rightarrow> hashfn \<Rightarrow> entry list \<Rightarrow> ItemPointer \<Rightarrow> int list \<Rightarrow> bool" where
  "stream_lists mt hf stream tid txt \<longleftrightarrow> (\<exists>w. pg_tre_pack_tid mt PG_TRE_TID_LEGACY tid = Inr w
     \<and> (\<forall>t \<in> set (windows3 txt). (pg_tre_hash_trigram_cp hf t, w, pg_tre_trigram_key_cp t) \<in> set stream))"

text \<open>An index without stored runs and without pending entries stays one when it is built.\<close>

lemma rebuilt_inv:
  assumes "rebuilt idx idx'"
  shows "catalog_inv idx [] \<Longrightarrow> catalog_inv idx' []" and "pending_inv blcksz idx bs \<Longrightarrow> pending_inv blcksz idx' bs"
  using assms unfolding rebuilt_def
  by (auto simp: catalog_inv_def catalog_wf_def catalog_head_def pending_inv_def normalize_runs_def Let_def
      pg_tre_meta_set_surf_def pg_tre_meta_set_roots_def split: if_splits)

lemma stream_tids_row:
  assumes "mt < 65535" and "stream_lists mt hf stream tid txt" and "pg_tre_pack_tid mt pk tid = Inr t" and "h \<in> text_hashes hf txt"
  shows "h \<in> fst ` set stream" and "t \<in> stream_tids mt pk stream h"
proof -
  from assms(2) obtain w where w: "pg_tre_pack_tid mt PG_TRE_TID_LEGACY tid = Inr w"
      "\<forall>u \<in> set (windows3 txt). (pg_tre_hash_trigram_cp hf u, w, pg_tre_trigram_key_cp u) \<in> set stream" by (auto simp: stream_lists_def)
  from assms(4) w(2) obtain k where "(h, w, k) \<in> set stream" by (auto simp: text_hashes_def)
  then show "h \<in> fst ` set stream" "t \<in> stream_tids mt pk stream h"
    using assms(3) pack_unpack[OF assms(1) w(1)] by (force simp: stream_tids_def)+
qed

lemma stream_key_first:
  "stream_lists mt hf stream tid (a # b # c # rest) \<Longrightarrow> \<exists>h t. (h, t, pg_tre_trigram_key_cp (a, b, c)) \<in> set stream"
  by (auto simp: stream_lists_def)

theorem built_found:
  assumes "build_env (sc_lib env) (sc_blcksz env)" and "bitutils_ok (sc_bits env)" and "min_freq \<le> 1" and "sorted (map fst stream)"
    and "\<forall>e \<in> set stream. entry_packs (sc_max_tuples env) (sc_packing env) e" and "length stream < 2 ^ 28"
    and "catalog_inv idx []" and "pending_inv (sc_blcksz env) idx []" and "blocks_ok blocks idx" and "7 * length stream \<le> length blocks"
    and "\<And>n. length (buf n) = n" and "sc_max_tuples env < 65535"
    and "has_surf_range (st_q st) \<longrightarrow> (\<forall>h t k t' k'. (h, t, k) \<in> set stream \<and> (h, t', k') \<in> set stream \<longrightarrow> k = k')"
    and "stream_lists (sc_max_tuples env) hf stream tid txt" and "unat (ip_posid tid) \<le> sc_max_tuples env" and "unat (ip_blkid tid) < nblocks"
    and "query_valid st" and "query_finds hf (st_q st) txt"
  shows "\<exists>idx'. ambuild_tail (sc_lib env) (sc_bits env) (sc_blcksz env) (sc_max_tuples env) min_freq coalesce buf (sc_packing env) stream heap_tuples (idx, blocks) = ret idx'
    \<and> (\<exists>k adds. pg_tre_amgetbitmap env (\<lambda>i. idx') idx' nblocks st = ret (k, adds) \<and> bitmap_covers adds tid)"
proof -
  let ?mt = "sc_max_tuples env" and ?pk = "sc_packing env"
  have q: "always_true (st_q st) \<or> query_wf (st_q st)" "tq_accepts (st_q st) (text_hashes hf txt)" "range_of_text (st_q st) txt"
    using assms(18) by (simp_all add: query_finds_def)
  obtain idx' ks where b: "ambuild_tail (sc_lib env) (sc_bits env) (sc_blcksz env) ?mt min_freq coalesce buf ?pk stream heap_tuples (idx, blocks) = ret idx'"
      "\<forall>h. run_posting (sc_lib env) (sc_blcksz env) idx' (root_upper (meta_page idx')) h
          = ret (if h \<in> fst ` set stream then Some (stream_tids ?mt ?pk stream h) else None)"
      "if stream = [] then root_surf (meta_page idx') = InvalidBlockNumber
       else pg_tre_surf_read (sc_bits env) idx' (root_surf (meta_page idx')) = ret (Some (pg_tre_surf_build (sc_bits env) ks))"
      "sorted_wrt (<) ks" "keys_inv stream ks" "rebuilt idx idx'"
    using ambuild_ret[OF assms(1,3-6,9-11), where bu = "sc_bits env" and coalesce = coalesce and heap_tuples = heap_tuples] by (elim exE conjE) (rule that)
  define P :: "PgTreRun \<Rightarrow> uint64 \<Rightarrow> sm option" where
    "P = (\<lambda>run h. if h \<in> fst ` set stream then Some (stream_tids ?mt ?pk stream h) else None)"
  let ?base = "implicit_base_run (meta_page idx')"
  note inv = rebuilt_inv[OF b(6)]
  have runs: "runs_hold env idx' [?base] P"
    using inv_drain[OF inv(1)[OF assms(7)]] b(2) by (simp add: runs_hold_def P_def implicit_base_run_def)
  have "stream_tids ?mt ?pk stream h \<noteq> {}" if h: "h \<in> fst ` set stream" for h
  proof -
    from h obtain w k where e: "(h, w, k) \<in> set stream" by force
    with assms(5) have "entry_packs ?mt ?pk (h, w, k)" by blast
    with e show ?thesis by (auto simp: stream_tids_def entry_packs_def)
  qed
  then have ne: "postings_nonempty [?base] P" by (auto simp: postings_nonempty_def P_def)
  have ok: "magic (meta_page idx') = PG_TRE_META_MAGIC" using inv(1)[OF assms(7)] by (simp add: catalog_inv_def)
  have "pg_tre_surf_range_overlaps (sc_bits env) (pg_tre_surf_build (sc_bits env) ks) (surf_lo (st_q st)) (surf_hi (st_q st)) \<and> stream \<noteq> []"
    if surf: "has_surf_range (st_q st)"
  proof -
    from q(3) surf obtain x y z rest where x: "txt = x # y # z # rest"
        "surf_lo (st_q st) = pg_tre_trigram_key_cp (x, y, z)" "surf_hi (st_q st) = pg_tre_trigram_key_cp (x, y, z)"
      unfolding range_of_text_def by blast
    have key: "\<exists>h t. (h, t, pg_tre_trigram_key_cp (x, y, z)) \<in> set stream" using stream_key_first assms(14) x(1) by blast
    then have "pg_tre_trigram_key_cp (x, y, z) \<in> set ks" using keys_complete[OF b(5)] assms(13) surf by blast
    moreover have "8 * length ks < UINT32_MAX" using b(5) assms(6) by (auto simp: keys_inv_def UINT32_MAX_def)
    ultimately show ?thesis using surf_range_exact[OF assms(2) b(4)] x(2,3) key by fastforce
  qed
  then have pre: "pg_tre_surf_prefilter_rejects (sc_bits env) idx' (st_q st) = ret False"
    using b(3) by (intro prefilter_present[OF ok]) auto
  obtain t where t: "pg_tre_pack_tid ?mt ?pk tid = Inr t" using offset_packs[OF assms(12,15)] by blast
  have "text_hashes hf txt \<subseteq> {h. t \<in> scan_tids [?base] P (st_q st) h \<union> item_tids ?mt ?pk [] h}"
    using stream_tids_row[OF assms(12,14) t]
    by (auto simp: scan_tids_def tree_tids_def P_def)
  then have acc: "tq_accepts (st_q st) {h. t \<in> scan_tids [?base] P (st_q st) h \<union> item_tids ?mt ?pk [] h}"
    by (rule tq_accepts_mono[OF q(2)])
  have "alloc_ok (sc_lib env)" using assms(1) by (simp add: build_env_def)
  from getbitmap_covers[where view = "\<lambda>i. idx'" and n = 0, OF assms(17) pre this runs _ q(1) _ _ inv(2)[OF assms(8)] assms(12) _ t assms(16) acc]
  show ?thesis using b(1) ne listing_inv[OF inv(2)[OF assms(8)], of ?mt ?pk] by (auto simp: append_history_def)
qed

end
