(* ===== verification/Merge_Table.thy ===== *)
theory Merge_Table
  imports Linear_Probe Pending
begin

text \<open>
  The hash table of a merge (\<open>src/pages/pending.c\<close>): the tuple identifiers of the pending
  entries, grouped by trigram. Open addressing on the remainder of the hash, doubled when it is
  half full. The growth of an entry's array is not visible in the model: an array is a list.
\<close>

record MergeEntry =
  me_hash :: uint64
  me_tids :: "uint64 list"

record MergeCtx =
  bucket_tab :: "MergeEntry option list"
  mc_n :: nat

definition hash_bucket :: "uint64 \<Rightarrow> nat \<Rightarrow> nat" where
  "hash_bucket h cap = unat h mod cap"

function merge_probe :: "MergeEntry option list \<Rightarrow> uint64 \<Rightarrow> nat \<Rightarrow> nat \<Rightarrow> nat outcome" where
  "merge_probe tab h idx probes =
     (case tab ! idx of
        None \<Rightarrow> ret idx
      | Some e \<Rightarrow> if me_hash e = h then ret idx
                  else if Suc probes > length tab then raise Merge_hash_table_full
                  else merge_probe tab h ((idx + 1) mod length tab) (Suc probes))"
  by pat_completeness auto
termination
  by (relation "measure (\<lambda>(tab, h, idx, probes). Suc (length tab) - probes)") auto

declare merge_probe.simps [simp del]

partial_function (option) rehash_slot :: "MergeEntry option list \<Rightarrow> nat \<Rightarrow> nat outcome" where
  "rehash_slot tab j = (if tab ! j = None then ret j else rehash_slot tab ((j + 1) mod length tab))"

definition rehash_one :: "MergeEntry option \<Rightarrow> MergeEntry option list \<Rightarrow> MergeEntry option list outcome" where
  "rehash_one x tab =
     (case x of
        None \<Rightarrow> ret tab
      | Some e \<Rightarrow> andThen (rehash_slot tab (hash_bucket (me_hash e) (length tab))) (\<lambda>j. ret (tab[j := Some e])))"

definition merge_rehash :: "MergeCtx \<Rightarrow> MergeCtx outcome" where
  "merge_rehash mc =
     andThen (ofold rehash_one (bucket_tab mc) (replicate (length (bucket_tab mc) * 2) None))
       (\<lambda>tab. ret (mc\<lparr> bucket_tab := tab \<rparr>))"

text \<open>The result is the slot of the entry, if there is one or it was created.\<close>

partial_function (option) merge_find :: "MergeCtx \<Rightarrow> uint64 \<Rightarrow> bool \<Rightarrow> (nat option \<times> MergeCtx) outcome" where
  "merge_find mc h create =
     andThen (merge_probe (bucket_tab mc) h (hash_bucket h (length (bucket_tab mc))) 0) (\<lambda>idx.
       if bucket_tab mc ! idx \<noteq> None then ret (Some idx, mc)
       else if \<not> create then ret (None, mc)
       else if mc_n mc * 2 \<ge> length (bucket_tab mc)
       then andThen (merge_rehash mc) (\<lambda>mc'. merge_find mc' h create)
       else ret (Some idx, mc\<lparr> bucket_tab := (bucket_tab mc)[idx := Some \<lparr> me_hash = h, me_tids = [] \<rparr>],
                              mc_n := mc_n mc + 1 \<rparr>))"

definition add_tid :: "uint64 \<Rightarrow> MergeEntry \<Rightarrow> MergeEntry" where
  "add_tid packed e = e\<lparr> me_tids := me_tids e @ [packed] \<rparr>"

text \<open>A dereference of a null result would not return; the creating search never gives one.\<close>

definition collect_pending_cb :: "nat \<Rightarrow> PgTreTidPacking \<Rightarrow> MergeCtx pending_callback" where
  "collect_pending_cb max_tuples pk h tid pos mc =
     andThen (merge_find mc h True) (\<lambda>(slot, mc1).
       case slot of
         None \<Rightarrow> None
       | Some i \<Rightarrow>
           (case pg_tre_pack_tid max_tuples pk tid of
              Inl (Tid_offset_exceeds off) \<Rightarrow> raise (Tid_offset_beyond_page off)
            | Inr packed \<Rightarrow> ret (mc1\<lparr> bucket_tab := (bucket_tab mc1)[i := map_option (add_tid packed) (bucket_tab mc1 ! i)] \<rparr>)))"

definition merge_ctx_init :: MergeCtx where
  "merge_ctx_init = \<lparr> bucket_tab = replicate 256 None, mc_n = 0 \<rparr>"

text \<open>The entries in the order of their hashes, as \<open>pg_tre_pending_merge\<close> hands them to the tree builder.\<close>

definition merge_sorted :: "MergeCtx \<Rightarrow> MergeEntry list" where
  "merge_sorted mc = sort_key me_hash (map the (filter (\<lambda>x. x \<noteq> None) (bucket_tab mc)))"

section \<open>The search\<close>

definition entry_key :: "MergeEntry option \<Rightarrow> uint64 option" where
  "entry_key = map_option me_hash"

definition bucket_home :: "nat \<Rightarrow> uint64 \<Rightarrow> nat" where
  "bucket_home cap h = hash_bucket h cap"

lemma entry_key_simps [simp]: "entry_key None = None" "entry_key (Some e) = Some (me_hash e)"
    "entry_key x = None \<longleftrightarrow> x = None"
  by (simp_all add: entry_key_def)

lemma merge_probe_from:
  assumes "first_stop entry_key tab h s j" and "m \<le> j"
  shows "merge_probe tab h (probe_at (length tab) s m) m = ret (probe_at (length tab) s j)"
  using assms(2)
proof (induction rule: inc_induct)
  case base
  then show ?case using assms(1)
    by (subst merge_probe.simps) (auto simp: first_stop_def probe_stop_def split: option.splits)
next
  case (step m)
  obtain e where "tab ! probe_at (length tab) s m = Some e" "me_hash e \<noteq> h"
    using assms(1) step.hyps by (auto simp: first_stop_def probe_stop_def entry_key_def)
  moreover have "Suc m \<le> length tab" using step.hyps assms(1) by (simp add: first_stop_def)
  ultimately show ?case using step.IH by (subst merge_probe.simps) (simp add: probe_at_Suc)
qed

interpretation merge_search: probe_search entry_key bucket_home "\<lambda>cap. 0 < cap"
    "\<lambda>tab h. merge_probe tab h (hash_bucket h (length tab)) 0"
proof unfold_locales
  fix tab :: "MergeEntry option list" and k j
  assume "0 < length tab" and f: "first_stop entry_key tab k (bucket_home (length tab) k) j"
  then have "hash_bucket k (length tab) < length tab" by (simp add: hash_bucket_def)
  then show "merge_probe tab k (hash_bucket k (length tab)) 0 = ret (probe_at (length tab) (bucket_home (length tab) k) j)"
    using merge_probe_from[OF f, of 0] by (simp add: bucket_home_def)
qed

section \<open>Doubling\<close>

lemma rehash_slot_first:
  assumes "first_stop entry_key tab h s j" and "tab_get entry_key tab h = None" and "s < length tab"
  shows "rehash_slot tab s = ret (probe_at (length tab) s j)"
proof -
  have none: "tab ! i = None" if "i < length tab" "probe_stop entry_key tab h i" for i
    using that assms(2) unfolding tab_get_None by (auto simp: probe_stop_def)
  have "rehash_slot tab (probe_at (length tab) s 0) = ret (probe_at (length tab) s j)"
  proof (rule probe_loop[where stop = "\<lambda>i. tab ! i = None"])
    show "rehash_slot tab i = (if tab ! i = None then ret i else rehash_slot tab ((i + 1) mod length tab))" for i
      by (subst rehash_slot.simps) simp
    show "tab ! probe_at (length tab) s j = None"
      using assms(1) first_stop_less[OF assms(1)] by (intro none) (auto simp: first_stop_def)
    show "tab ! probe_at (length tab) s j' \<noteq> None" if "j' < j" for j'
      using assms(1) that by (auto simp: first_stop_def probe_stop_def)
  qed (use assms(3) in auto)
  then show ?thesis using assms(3) by simp
qed

lemma rehash_one_new:
  assumes "probe_ok entry_key bucket_home tab" and "used_slots entry_key tab < length tab" and "tab_get entry_key tab (me_hash e) = None"
  shows "\<exists>tab'. rehash_one (Some e) tab = ret tab' \<and> length tab' = length tab \<and> probe_ok entry_key bucket_home tab'
    \<and> used_slots entry_key tab' = used_slots entry_key tab + 1
    \<and> tab_get entry_key tab' = (tab_get entry_key tab)(me_hash e \<mapsto> Some e)"
proof -
  let ?h = "bucket_home (length tab) (me_hash e)"
  obtain i where i: "i < length tab" "entry_key (tab ! i) = None" using used_slots_less[OF assms(2)] .
  obtain j where j: "first_stop entry_key tab (me_hash e) ?h j"
    using first_stop_exists[of i tab entry_key "me_hash e" ?h] i by blast
  define s where "s = probe_at (length tab) ?h j"
  have "?h < length tab" using i(1) unfolding bucket_home_def hash_bucket_def by (intro mod_less_divisor) linarith
  from rehash_slot_first[OF j assms(3) this] have r: "rehash_one (Some e) tab = ret (tab[s := Some e])"
    by (simp add: rehash_one_def bucket_home_def s_def)
  have "tab ! s = None" using search_get[OF assms(1) j s_def] assms(3) by auto
  then have "used_slots entry_key (tab[s := Some e]) = used_slots entry_key tab + 1"
    using used_slots_write[of s tab entry_key "Some e"] first_stop_less[OF j] by (simp add: s_def)
  then show ?thesis
    using r probe_ok_write[OF assms(1) j s_def, of "Some e"] tab_get_write[OF assms(1) j s_def, of "Some e"] by (simp add: fun_eq_iff)
qed

lemma ofold_rehash:
  assumes "probe_ok entry_key bucket_home tab" and "used_slots entry_key tab + used_slots entry_key xs < length tab"
    and "\<And>x k. x \<in> set xs \<Longrightarrow> entry_key x = Some k \<Longrightarrow> tab_get entry_key tab k = None"
    and "distinct (map entry_key (filter (\<lambda>x. x \<noteq> None) xs))"
  shows "\<exists>tab'. ofold rehash_one xs tab = ret tab' \<and> length tab' = length tab \<and> probe_ok entry_key bucket_home tab'
    \<and> used_slots entry_key tab' = used_slots entry_key tab + used_slots entry_key xs
    \<and> tab_get entry_key tab' = tab_get entry_key tab ++ tab_get entry_key xs"
  using assms
proof (induction xs arbitrary: tab)
  case Nil
  have "tab_get entry_key [] = Map.empty" by (simp add: fun_eq_iff)
  with Nil show ?case by simp
next
  case (Cons x xs)
  show ?case
  proof (cases x)
    case None
    have "\<exists>tab'. ofold rehash_one xs tab = ret tab' \<and> length tab' = length tab \<and> probe_ok entry_key bucket_home tab'
        \<and> used_slots entry_key tab' = used_slots entry_key tab + used_slots entry_key xs
        \<and> tab_get entry_key tab' = tab_get entry_key tab ++ tab_get entry_key xs"
      by (rule Cons.IH[OF Cons.prems(1)]) (use Cons.prems(2,4) Cons.prems(3) None in auto)
    moreover have "tab_get entry_key (None # xs) = tab_get entry_key xs" by (simp add: fun_eq_iff)
    ultimately show ?thesis by (simp add: None rehash_one_def[of None] del: tab_get_simps(2))
  next
    case (Some e)
    have "used_slots entry_key tab < length tab" "tab_get entry_key tab (me_hash e) = None"
      using Cons.prems(2) Cons.prems(3)[of x "me_hash e"] Some by simp_all
    from rehash_one_new[OF Cons.prems(1) this] obtain tab1 where
      t1: "rehash_one (Some e) tab = ret tab1" "length tab1 = length tab" "probe_ok entry_key bucket_home tab1"
        "used_slots entry_key tab1 = used_slots entry_key tab + 1"
        "tab_get entry_key tab1 = (tab_get entry_key tab)(me_hash e \<mapsto> Some e)" by blast
    have dist: "me_hash e \<noteq> k" if "y \<in> set xs" "entry_key y = Some k" for y k
      using Cons.prems(4) that Some by (force simp: image_iff)
    have absent: "tab_get entry_key tab1 k = None" if "y \<in> set xs" "entry_key y = Some k" for y k
      using t1(5) dist[OF that] Cons.prems(3)[of y k] that by auto
    have "\<exists>tab'. ofold rehash_one xs tab1 = ret tab' \<and> length tab' = length tab1 \<and> probe_ok entry_key bucket_home tab'
        \<and> used_slots entry_key tab' = used_slots entry_key tab1 + used_slots entry_key xs
        \<and> tab_get entry_key tab' = tab_get entry_key tab1 ++ tab_get entry_key xs"
      by (rule Cons.IH[OF t1(3)]) (use Cons.prems(2,4) Some t1(2,4) absent in auto)
    moreover have "tab_get entry_key tab1 ++ tab_get entry_key xs = tab_get entry_key tab ++ tab_get entry_key (Some e # xs)"
    proof -
      have "me_hash e \<notin> dom (tab_get entry_key xs)"
        using dist unfolding domIff tab_get_def find_None_iff by blast
      moreover have "tab_get entry_key (Some e # xs) = (tab_get entry_key xs)(me_hash e \<mapsto> Some e)"
        by (simp add: fun_eq_iff)
      ultimately show ?thesis by (simp only: t1(5) map_add_upd map_add_upd_left not_False_eq_True)
    qed
    ultimately show ?thesis using t1(1,2,4) Some by (auto simp del: tab_get_simps)
  qed
qed

section \<open>The table as a map\<close>

definition merge_inv :: "MergeCtx \<Rightarrow> bool" where
  "merge_inv mc \<longleftrightarrow> probe_ok entry_key bucket_home (bucket_tab mc) \<and> mc_n mc = used_slots entry_key (bucket_tab mc)
     \<and> mc_n mc < length (bucket_tab mc) \<and> 2 \<le> length (bucket_tab mc)"

text \<open>The identifiers collected for a trigram, and whether it has an entry at all.\<close>

definition merge_get :: "MergeCtx \<Rightarrow> uint64 \<Rightarrow> uint64 list option" where
  "merge_get mc h = map_option (\<lambda>x. me_tids (the x)) (tab_get entry_key (bucket_tab mc) h)"

lemma probe_ok_distinct:
  assumes "probe_ok entry_key bucket_home tab"
  shows "distinct (map entry_key (filter (\<lambda>x. x \<noteq> None) tab))"
proof -
  have "entry_key (tab ! i) \<noteq> entry_key (tab ! j)" if "i < length tab" "j < length tab" "i \<noteq> j" "tab ! i \<noteq> None" for i j
    using probe_ok_unique[OF assms that(1,2)] that(3,4) by (metis entry_key_simps(3) option.exhaust)
  then show ?thesis
  proof (induction tab)
    case (Cons x xs)
    have "distinct (map entry_key (filter (\<lambda>x. x \<noteq> None) xs))"
      using Cons.prems by (intro Cons.IH) (metis Suc_less_eq length_Cons nat.inject nth_Cons_Suc)
    moreover have "entry_key x \<noteq> entry_key y" if "y \<in> set xs" "x \<noteq> None" for y
      using Cons.prems[of 0] that by (metis in_set_conv_nth length_Cons nth_Cons_0 nth_Cons_Suc Suc_less_eq nat.distinct(1) zero_less_Suc)
    ultimately show ?case by auto
  qed simp
qed

lemma merge_rehash_ret:
  assumes "merge_inv mc"
  shows "\<exists>mc'. merge_rehash mc = ret mc' \<and> merge_inv mc' \<and> merge_get mc' = merge_get mc \<and> mc_n mc' = mc_n mc
    \<and> length (bucket_tab mc') = length (bucket_tab mc) * 2"
proof -
  let ?t = "bucket_tab mc" and ?new = "replicate (length (bucket_tab mc) * 2) (None :: MergeEntry option)"
  have empty: "tab_get entry_key ?new = Map.empty" "used_slots entry_key ?new = 0"
    by (simp_all add: tab_get_def find_None_iff used_slots_def fun_eq_iff)
  have inv: "probe_ok entry_key bucket_home ?t" "mc_n mc = used_slots entry_key ?t" "mc_n mc < length ?t" "2 \<le> length ?t"
    using assms by (simp_all add: merge_inv_def)
  have "probe_ok entry_key bucket_home ?new" by (rule probe_ok_empty) simp
  from ofold_rehash[OF this _ _ probe_ok_distinct[OF inv(1)]] inv empty obtain tab where
    tab: "ofold rehash_one ?t ?new = ret tab" "length tab = length ?t * 2" "probe_ok entry_key bucket_home tab"
      "used_slots entry_key tab = used_slots entry_key ?t" "tab_get entry_key tab = tab_get entry_key ?t" by auto
  then show ?thesis using inv
    by (intro exI[of _ "mc\<lparr> bucket_tab := tab \<rparr>"]) (simp add: merge_rehash_def merge_inv_def merge_get_def fun_eq_iff)
qed

lemma merge_get_at:
  assumes "merge_inv mc" and "i < length (bucket_tab mc)" and "bucket_tab mc ! i = Some e"
  shows "merge_get mc (me_hash e) = Some (me_tids e)"
proof -
  have "tab_get entry_key (bucket_tab mc) (me_hash e) = Some (Some e)"
    using assms tab_get_Some[of entry_key bucket_home "bucket_tab mc"] by (auto simp: merge_inv_def)
  then show ?thesis by (simp add: merge_get_def)
qed

text \<open>What a creating search establishes.\<close>

definition found_slot :: "MergeCtx \<Rightarrow> uint64 \<Rightarrow> nat \<Rightarrow> MergeCtx \<Rightarrow> bool" where
  "found_slot mc h i mc' \<longleftrightarrow> merge_inv mc' \<and> i < length (bucket_tab mc')
     \<and> (\<exists>e. bucket_tab mc' ! i = Some e \<and> me_hash e = h)
     \<and> merge_get mc' = (if merge_get mc h = None then (merge_get mc)(h \<mapsto> []) else merge_get mc)"

lemma merge_search_slot:
  assumes "merge_inv mc"
  obtains s where "merge_probe (bucket_tab mc) h (hash_bucket h (length (bucket_tab mc))) 0 = ret s" and "s < length (bucket_tab mc)"
    and "merge_get mc h = map_option me_tids (bucket_tab mc ! s)" and "\<And>e. bucket_tab mc ! s = Some e \<Longrightarrow> me_hash e = h"
    and "\<And>e. me_hash e = h \<Longrightarrow> probe_ok entry_key bucket_home ((bucket_tab mc)[s := Some e])
          \<and> tab_get entry_key ((bucket_tab mc)[s := Some e]) = (tab_get entry_key (bucket_tab mc))(h \<mapsto> Some e)"
proof -
  let ?t = "bucket_tab mc"
  have inv: "0 < length ?t" "probe_ok entry_key bucket_home ?t" "used_slots entry_key ?t < length ?t"
    using assms by (auto simp: merge_inv_def)
  obtain i where i: "i < length ?t" "entry_key (?t ! i) = None" using used_slots_less[OF inv(3)] .
  obtain s where s: "merge_probe ?t h (hash_bucket h (length ?t)) 0 = ret s" "s < length ?t"
      "tab_get entry_key ?t h = (if entry_key (?t ! s) = None then None else Some (?t ! s))"
      "entry_key (?t ! s) = None \<or> entry_key (?t ! s) = Some h"
      "\<And>x. entry_key x = Some h \<Longrightarrow> probe_ok entry_key bucket_home (?t[s := x])
        \<and> (\<forall>k'. tab_get entry_key (?t[s := x]) k' = (if k' = h then Some x else tab_get entry_key ?t k'))"
    using merge_search.search_write[OF inv(1,2) i, of h] by metis
  show thesis
  proof (rule that[OF s(1,2)])
    show "merge_get mc h = map_option me_tids (?t ! s)" using s(3) by (cases "?t ! s") (auto simp: merge_get_def)
    show "me_hash e = h" if "?t ! s = Some e" for e using s(4) that by simp
    show "probe_ok entry_key bucket_home (?t[s := Some e]) \<and> tab_get entry_key (?t[s := Some e]) = (tab_get entry_key ?t)(h \<mapsto> Some e)"
      if "me_hash e = h" for e
      using s(5)[of "Some e"] that by (simp add: fun_eq_iff)
  qed
qed

lemma merge_find_room:
  assumes "merge_inv mc" and "merge_get mc h \<noteq> None \<or> mc_n mc * 2 < length (bucket_tab mc)"
  shows "\<exists>i mc'. merge_find mc h True = ret (Some i, mc') \<and> found_slot mc h i mc'"
proof -
  let ?t = "bucket_tab mc" and ?e = "\<lparr> me_hash = h, me_tids = [] \<rparr>"
  from merge_search_slot[OF assms(1), of h] obtain s where s: "merge_probe ?t h (hash_bucket h (length ?t)) 0 = ret s" "s < length ?t"
    "merge_get mc h = map_option me_tids (?t ! s)" "\<And>e. ?t ! s = Some e \<Longrightarrow> me_hash e = h"
    "\<And>e. me_hash e = h \<Longrightarrow> probe_ok entry_key bucket_home (?t[s := Some e])
          \<and> tab_get entry_key (?t[s := Some e]) = (tab_get entry_key ?t)(h \<mapsto> Some e)" by metis
  show ?thesis
  proof (cases "?t ! s")
    case None
    let ?mc = "mc\<lparr> bucket_tab := ?t[s := Some ?e], mc_n := mc_n mc + 1 \<rparr>"
    have room: "mc_n mc * 2 < length ?t" using assms(2) s(3) None by auto
    then have "merge_find mc h True = ret (Some s, ?mc)"
      using s(1) None by (subst merge_find.simps) simp
    moreover have "used_slots entry_key (?t[s := Some ?e]) = mc_n mc + 1"
      using used_slots_write[of s ?t entry_key "Some ?e"] s(2) None assms(1) by (simp add: merge_inv_def)
    moreover have "merge_get ?mc = (merge_get mc)(h \<mapsto> [])"
      using s(5)[of ?e] by (simp add: merge_get_def fun_eq_iff)
    ultimately show ?thesis using s(2,3) s(5)[of ?e] None room assms(1)
      by (intro exI[of _ s] exI[of _ ?mc]) (simp add: found_slot_def merge_inv_def)
  next
    case (Some e)
    then have "merge_find mc h True = ret (Some s, mc)" using s(1) by (subst merge_find.simps) simp
    then show ?thesis using s(2,3,4) Some assms(1) by (intro exI[of _ s] exI[of _ mc]) (simp add: found_slot_def)
  qed
qed

text \<open>The creating search always returns a slot: the table is never full, and one doubling is enough.\<close>

lemma merge_find_create:
  assumes "merge_inv mc"
  shows "\<exists>i mc'. merge_find mc h True = ret (Some i, mc') \<and> found_slot mc h i mc'"
proof (cases "merge_get mc h \<noteq> None \<or> mc_n mc * 2 < length (bucket_tab mc)")
  case False
  from merge_rehash_ret[OF assms] obtain mc' where mc': "merge_rehash mc = ret mc'" "merge_inv mc'" "merge_get mc' = merge_get mc"
      "mc_n mc' = mc_n mc" "length (bucket_tab mc') = length (bucket_tab mc) * 2" by blast
  have "mc_n mc' * 2 < length (bucket_tab mc')" using assms mc'(4,5) by (simp add: merge_inv_def)
  from merge_find_room[OF mc'(2)] this obtain i mc'' where r: "merge_find mc' h True = ret (Some i, mc'')" "found_slot mc' h i mc''" by blast
  from merge_search_slot[OF assms, of h] obtain s where "merge_probe (bucket_tab mc) h (hash_bucket h (length (bucket_tab mc))) 0 = ret s"
    "merge_get mc h = map_option me_tids (bucket_tab mc ! s)" by metis
  then have "merge_find mc h True = merge_find mc' h True"
    using False mc'(1) by (subst merge_find.simps) simp
  with r show ?thesis by (simp add: found_slot_def mc'(3))
qed (use merge_find_room[OF assms] in blast)

lemma collect_ret:
  assumes "merge_inv mc" and "pg_tre_pack_tid max_tuples pk tid = Inr packed"
  shows "\<exists>mc'. collect_pending_cb max_tuples pk h tid pos mc = ret mc' \<and> merge_inv mc'
    \<and> merge_get mc' = (merge_get mc)(h \<mapsto> (case merge_get mc h of None \<Rightarrow> [] | Some ts \<Rightarrow> ts) @ [packed])"
proof -
  from merge_find_create[OF assms(1)] obtain i mc1 where r: "merge_find mc h True = ret (Some i, mc1)" "found_slot mc h i mc1" by blast
  then obtain e where f: "merge_inv mc1" "i < length (bucket_tab mc1)" "bucket_tab mc1 ! i = Some e" "me_hash e = h"
      "merge_get mc1 = (if merge_get mc h = None then (merge_get mc)(h \<mapsto> []) else merge_get mc)"
    unfolding found_slot_def by blast
  let ?e = "add_tid packed e" and ?t = "bucket_tab mc1"
  let ?mc = "mc1\<lparr> bucket_tab := ?t[i := Some ?e] \<rparr>"
  have tids: "merge_get mc1 h = Some (me_tids e)" using merge_get_at[OF f(1-3)] f(4) by simp
  from merge_search_slot[OF f(1), of h] obtain s where s: "s < length ?t" "merge_get mc1 h = map_option me_tids (?t ! s)"
    "\<And>x. ?t ! s = Some x \<Longrightarrow> me_hash x = h"
    "\<And>x. me_hash x = h \<Longrightarrow> probe_ok entry_key bucket_home (?t[s := Some x])
          \<and> tab_get entry_key (?t[s := Some x]) = (tab_get entry_key ?t)(h \<mapsto> Some x)" by metis
  have "?t ! s \<noteq> None" using s(2) tids by (cases "?t ! s") simp_all
  then have "entry_key (?t ! s) = Some h" using s(3) by (cases "?t ! s") simp_all
  moreover have "probe_ok entry_key bucket_home ?t" using f(1) by (simp add: merge_inv_def)
  ultimately have "s = i" using probe_ok_unique[of entry_key bucket_home ?t s i h] s(1) f(2-4) by simp
  then have w: "probe_ok entry_key bucket_home (?t[i := Some ?e])" "tab_get entry_key (?t[i := Some ?e]) = (tab_get entry_key ?t)(h \<mapsto> Some ?e)"
    using s(4)[of ?e] f(4) by (simp_all add: add_tid_def)
  have "merge_inv ?mc" using w(1) f used_slots_write[of i ?t entry_key "Some ?e"] by (simp add: merge_inv_def)
  moreover have "merge_get ?mc = (merge_get mc1)(h \<mapsto> me_tids e @ [packed])"
    using w(2) by (simp add: merge_get_def fun_eq_iff add_tid_def)
  ultimately show ?thesis using r(1) f(3,5) assms(2) tids
    by (intro exI[of _ ?mc]) (auto simp: collect_pending_cb_def split: if_splits)
qed

lemma merge_init_inv: "merge_inv merge_ctx_init" "merge_get merge_ctx_init = Map.empty"
proof -
  have "probe_ok entry_key bucket_home (replicate 256 None)" by (rule probe_ok_empty) simp
  then show "merge_inv merge_ctx_init" by (simp add: merge_inv_def merge_ctx_init_def used_slots_def)
  show "merge_get merge_ctx_init = Map.empty"
    by (simp add: merge_get_def merge_ctx_init_def tab_get_def find_None_iff fun_eq_iff)
qed

end
