(* ===== verification/Pending_Properties.thy ===== *)
theory Pending_Properties
  imports Pending_Read Merge_Table
begin

text \<open>
  What the pending list guarantees: inserts become visible, readers that race with inserts see
  what was there, and a merge neither loses nor repeats an entry.
\<close>

section \<open>Samples\<close>

definition sample_index :: tre_index where
  "sample_index = pg_tre_build_empty 700 False True"

definition sample_tid :: ItemPointer where
  "sample_tid = \<lparr> ip_blkid = 4, ip_posid = 2 \<rparr>"

lemma sample_index_inv: "pending_inv blcksz sample_index []"
  by (simp add: pending_inv_def sample_index_def pg_tre_build_empty_def pg_tre_meta_init_def)

section \<open>Properties\<close>

text \<open>
  An index that has just been built empty reads back what was written: the meta page passes
  the magic check, the packing is the one chosen for the table, there is no pending entry, no
  stored run and no range filter to trust.
\<close>
theorem build_empty_reads:
  "\<exists>m. pg_tre_meta_read (pg_tre_build_empty xid legacy is_heap) = ret m
     \<and> m = meta_page (pg_tre_build_empty xid legacy is_heap)
     \<and> pg_tre_tid_packing None (pg_tre_build_empty xid legacy is_heap) = ret (packing_for_new_index legacy is_heap)
     \<and> pending_listing mt pk (pg_tre_build_empty xid legacy is_heap) = ret []
     \<and> root_surf m = InvalidBlockNumber \<and> surf_complete m = 0 \<and> n_runs m = 0"
proof -
  let ?i = "pg_tre_build_empty xid legacy is_heap"
  have "pending_inv 8192 ?i []"
    by (simp add: pending_inv_def pg_tre_build_empty_def pg_tre_meta_init_def)
  from listing_inv[OF this, of mt pk] have "pending_listing mt pk ?i = ret []" by simp
  moreover have "pg_tre_meta_read ?i = ret (meta_page ?i)"
    by (simp add: pg_tre_meta_read_def pg_tre_build_empty_def pg_tre_meta_init_def normalize_meta_def normalize_runs_def Let_def
        PG_TRE_FORMAT_VERSION_LATEST_def)
  moreover have "pg_tre_tid_packing None ?i = ret (packing_for_new_index legacy is_heap)"
    by (cases "packing_for_new_index legacy is_heap")
       (simp_all add: pg_tre_tid_packing_def pg_tre_build_empty_def pg_tre_meta_init_def packing_code_def)
  ultimately show ?thesis by (simp add: pg_tre_build_empty_def pg_tre_meta_init_def)
qed

text \<open>
  C28: appending a batch to a well-formed pending list terminates and a scan afterwards reports
  the old entries followed by the batch, every triple as it was given; the list stays well
  formed, and the returned number is the entry counter of the meta page, which counts the
  entries on the pages. One fresh block per entry is always enough.
\<close>
theorem pending_append_scan:
  assumes "pending_inv blcksz idx bs" and "0 < pending_capacity blcksz" and "max_tuples < 65535"
    and "items \<noteq> []" and "length items \<le> PG_TRE_PENDING_BATCH_MAX"
    and "\<And>it. it \<in> set items \<Longrightarrow> unat (ip_posid (fst (snd it))) \<le> max_tuples"
    and "length items \<le> length blocks" and "distinct blocks"
    and "\<And>b. b \<in> set blocks \<Longrightarrow> b \<noteq> InvalidBlockNumber \<and> b \<notin> set bs"
  shows "\<exists>n idx' blocks' bs' old. pg_tre_pending_append_batch blcksz max_tuples pk blocks idx items = ret (n, idx', blocks')
    \<and> pending_inv blcksz idx' bs' \<and> n = word_of_nat (length (old @ items))
    \<and> pending_listing max_tuples pk idx = ret old \<and> pending_listing max_tuples pk idx' = ret (old @ items)"
proof -
  have old: "pending_listing max_tuples pk idx = ret (map (entry_item max_tuples pk) (pend_items (pending_pages idx) bs))"
    by (rule listing_inv[OF assms(1)])
  from append_batch_ret[OF assms, of pk] obtain n idx' k bs' where
    r: "pg_tre_pending_append_batch blcksz max_tuples pk blocks idx items = ret (n, idx', drop k blocks)"
      "pending_inv blcksz idx' bs'" "n = pending_n_entries (meta_page idx')"
      "pending_listing max_tuples pk idx' = ret (map (entry_item max_tuples pk) (pend_items (pending_pages idx) bs) @ items)"
    using old by blast
  have "length (map (entry_item max_tuples pk) (pend_items (pending_pages idx) bs) @ items) = length (pend_items (pending_pages idx') bs')"
    using r(4) listing_inv[OF r(2), of max_tuples pk] by (metis length_map ret_inject)
  then have "n = word_of_nat (length (map (entry_item max_tuples pk) (pend_items (pending_pages idx) bs) @ items))"
    using r(2,3) by (simp add: pending_inv_def)
  then show ?thesis using r(1,2,4) old by blast
qed

theorem pending_append_scan_witness:
  "\<exists>n idx' blocks' bs' old. pg_tre_pending_append_batch 8192 291 PG_TRE_TID_DENSE [1, 2] sample_index
       [(77, sample_tid, 0), (78, sample_tid, 0)] = ret (n, idx', blocks')
     \<and> pending_inv 8192 idx' bs' \<and> n = word_of_nat (length (old @ [(77, sample_tid, 0), (78, sample_tid, 0)]))
     \<and> pending_listing 291 PG_TRE_TID_DENSE sample_index = ret old
     \<and> pending_listing 291 PG_TRE_TID_DENSE idx' = ret (old @ [(77, sample_tid, 0), (78, sample_tid, 0)])"
  by (rule pending_append_scan[OF sample_index_inv])
     (auto simp: pending_capacity_def PG_TRE_PENDING_BATCH_MAX_def sample_tid_def InvalidBlockNumber_def)

text \<open>
  C29: a scan of the pending list that races with inserts. Other sessions append any number of
  records between any two page reads of the scan; the inserts end at some point. The scan
  terminates and reports every entry that was in the list when it started, in order, then
  possibly entries appended since, and nothing that is not in the final list.
\<close>
theorem pending_scan_concurrent:
  assumes "append_history blcksz view" and "\<And>j. n \<le> j \<Longrightarrow> view j = view n" and "pending_inv blcksz (view 0) bs"
  shows "\<exists>old since after. pending_listing max_tuples pk (view 0) = ret old
    \<and> pg_tre_pending_scan max_tuples pk view list_cb [] = ret (old @ since)
    \<and> pending_listing max_tuples pk (view n) = ret (old @ since @ after)"
proof -
  obtain es us vs bs' where r: "pending_inv blcksz (view n) bs'"
      "pg_tre_pending_scan max_tuples pk view list_cb [] = visit_entries max_tuples pk list_cb es []"
      "es = pend_items (pending_pages (view 0)) bs @ us" "pend_items (pending_pages (view n)) bs' = es @ vs"
    using scan_history[OF assms, of max_tuples pk list_cb "[]"] by blast
  show ?thesis
    using listing_inv[OF assms(3), of max_tuples pk] listing_inv[OF r(1), of max_tuples pk] r(2-4)
    by (auto simp: visit_list_cb)
qed

theorem pending_scan_concurrent_witness:
  "\<exists>old since after. pending_listing 291 PG_TRE_TID_DENSE sample_index = ret old
    \<and> pg_tre_pending_scan 291 PG_TRE_TID_DENSE (\<lambda>i. sample_index) list_cb [] = ret (old @ since)
    \<and> pending_listing 291 PG_TRE_TID_DENSE sample_index = ret (old @ since @ after)"
  by (rule pending_scan_concurrent[where view = "\<lambda>i. sample_index" and n = 0, OF _ refl sample_index_inv])
     (simp add: append_history_def)

text \<open>
  C27: a merge that races with inserts. The merge takes its watermark with its first two reads
  and walks the list while other sessions append between its reads; it finalises in some later
  state of the index. The walk terminates; the entries it has handed over, the consumed ones,
  include all that were in the list at its start; the finalised list holds exactly the
  remaining entries: the list at finalisation is the consumed entries followed by what is left,
  so no insert is lost and none is merged twice. The list stays well formed, the number
  reported is the number of consumed entries, the blocks handed to the free log are exactly
  the blocks that left the list, and the new root is in place.
\<close>
theorem merge_no_loss:
  assumes "append_history blcksz view" and "pending_inv blcksz (view 0) bs" and "bs \<noteq> []"
    and "(append_step blcksz)\<^sup>*\<^sup>* (view 1) idx" and "pending_inv blcksz idx bs'"
    and "pending_capacity blcksz < 2 ^ 32" and "length (pend_items (pending_pages idx) bs') < 2 ^ 64"
  shows "\<exists>start since left wm front freed idx' bs''.
    pending_listing max_tuples pk (view 0) = ret start
    \<and> pg_tre_pending_scan_watermark max_tuples pk view list_cb [] = ret (wm, start @ since, front)
    \<and> finalize_merge idx root rng ntri ntup wm front adds = ret (word_of_nat (length (start @ since)), freed, idx')
    \<and> pending_inv blcksz idx' bs'' \<and> pending_listing max_tuples pk idx = ret ((start @ since) @ left)
    \<and> pending_listing max_tuples pk idx' = ret left
    \<and> bs' = freed @ bs'' \<and> root_upper (meta_page idx') = root"
proof -
  obtain es us wm front freed idx' bs'' where
    r: "pg_tre_pending_scan_watermark max_tuples pk view list_cb []
        = andThen (visit_entries max_tuples pk list_cb es []) (\<lambda>ctx'. ret (wm, ctx', front))"
      "es = pend_items (pending_pages (view 0)) bs @ us"
      "finalize_merge idx root rng ntri ntup wm front adds = ret (word_of_nat (length es), freed, idx')"
      "pending_inv blcksz idx' bs''" "pend_items (pending_pages idx) bs' = es @ pend_items (pending_pages idx') bs''"
      "bs' = freed @ bs''" "root_upper (meta_page idx') = root"
    using merge_history[OF assms, of max_tuples pk list_cb "[]" root rng ntri ntup adds] by blast
  let ?f = "map (entry_item max_tuples pk)"
  have "?f es = ?f (pend_items (pending_pages (view 0)) bs) @ ?f us" using r(2) by simp
  then show ?thesis
    using r(1,3-7) listing_inv[OF assms(2), of max_tuples pk] listing_inv[OF assms(5), of max_tuples pk]
      listing_inv[OF r(4), of max_tuples pk]
    by (intro exI[of _ "?f (pend_items (pending_pages (view 0)) bs)"] exI[of _ "?f us"]
          exI[of _ "?f (pend_items (pending_pages idx') bs'')"] exI[of _ wm] exI[of _ front] exI[of _ freed] exI[of _ idx'] exI[of _ bs''])
       (simp add: visit_list_cb r(2))
qed

definition sample_pending :: tre_index where
  "sample_pending = sample_index\<lparr> meta_page := (meta_page sample_index)\<lparr> pending_head := 1, pending_tail := 1, pending_n_entries := 2 \<rparr>,
     pending_pages := [1 \<mapsto> \<lparr> next_page = InvalidBlockNumber, pend_n = 2, used_bytes = 48,
       pend_entries = [\<lparr> entry_hash = 77, entry_tid = 5, position = 0 \<rparr>, \<lparr> entry_hash = 78, entry_tid = 5, position = 0 \<rparr>] \<rparr>] \<rparr>"

lemma sample_pending_inv: "pending_inv 8192 sample_pending [1]"
  by (simp add: pending_inv_def sample_pending_def sample_index_def pg_tre_build_empty_def pg_tre_meta_init_def
      InvalidBlockNumber_def page_ok_def pending_capacity_def page_items_def)

theorem merge_no_loss_witness:
  "\<exists>start since left wm front freed idx' bs''.
    pending_listing 291 PG_TRE_TID_DENSE sample_pending = ret start
    \<and> pg_tre_pending_scan_watermark 291 PG_TRE_TID_DENSE (\<lambda>i. sample_pending) list_cb [] = ret (wm, start @ since, front)
    \<and> finalize_merge sample_pending 50 51 2 1 wm front True = ret (word_of_nat (length (start @ since)), freed, idx')
    \<and> pending_inv 8192 idx' bs'' \<and> pending_listing 291 PG_TRE_TID_DENSE sample_pending = ret ((start @ since) @ left)
    \<and> pending_listing 291 PG_TRE_TID_DENSE idx' = ret left
    \<and> [1] = freed @ bs'' \<and> root_upper (meta_page idx') = 50"
  by (rule merge_no_loss[where view = "\<lambda>i. sample_pending" and bs = "[1]"])
     (simp_all add: append_history_def sample_pending_inv pending_capacity_def,
      simp add: sample_pending_def page_items_def)

section \<open>The table of a merge\<close>

definition tids_of :: "PgTrePendingEntry list \<Rightarrow> uint64 \<Rightarrow> uint64 list" where
  "tids_of es h = map entry_tid (filter (\<lambda>e. entry_hash e = h) es)"

lemma visit_collect:
  assumes "merge_inv mc" and "mt < 65535" and "\<And>e. e \<in> set es \<Longrightarrow> \<exists>tid. pg_tre_pack_tid mt pk tid = Inr (entry_tid e)"
  shows "\<exists>mc'. visit_entries mt pk (collect_pending_cb mt pk) es mc = ret mc' \<and> merge_inv mc'
    \<and> (\<forall>h. merge_get mc' h = (if h \<in> entry_hash ` set es
          then Some ((case merge_get mc h of None \<Rightarrow> [] | Some ts \<Rightarrow> ts) @ tids_of es h) else merge_get mc h))"
  using assms(1,3)
proof (induction es arbitrary: mc)
  case (Cons e es)
  obtain tid where tid: "pg_tre_pack_tid mt pk tid = Inr (entry_tid e)" using Cons.prems(2)[of e] by auto
  then have u: "pg_tre_unpack_tid mt pk (entry_tid e) = tid" by (rule pack_unpack[OF assms(2)])
  from collect_ret[OF Cons.prems(1) tid, of "entry_hash e" "position e"] obtain mc1 where
    c: "collect_pending_cb mt pk (entry_hash e) tid (position e) mc = ret mc1" "merge_inv mc1"
      "merge_get mc1 = (merge_get mc)(entry_hash e \<mapsto> (case merge_get mc (entry_hash e) of None \<Rightarrow> [] | Some ts \<Rightarrow> ts) @ [entry_tid e])"
    by blast
  from Cons.IH[OF c(2)] Cons.prems(2) obtain mc' where
    r: "visit_entries mt pk (collect_pending_cb mt pk) es mc1 = ret mc'" "merge_inv mc'"
      "\<And>h. merge_get mc' h = (if h \<in> entry_hash ` set es
          then Some ((case merge_get mc1 h of None \<Rightarrow> [] | Some ts \<Rightarrow> ts) @ tids_of es h) else merge_get mc1 h)" by auto
  have "visit_entries mt pk (collect_pending_cb mt pk) (e # es) mc = ret mc'"
    using c(1) r(1) u by (simp add: visit_entries_def)
  moreover have "tids_of es h = []" if "h \<notin> entry_hash ` set es" for h
    using that by (auto simp: tids_of_def filter_empty_conv)
  ultimately show ?case using r(2,3) c(3) by (auto simp: tids_of_def split: option.splits)
qed (simp add: visit_entries_def)

lemma merge_entries:
  assumes "merge_inv mc"
  shows "distinct (map me_hash (map the (filter (\<lambda>x. x \<noteq> None) (bucket_tab mc))))"
    and "set (map me_hash (map the (filter (\<lambda>x. x \<noteq> None) (bucket_tab mc)))) = dom (merge_get mc)"
    and "e \<in> set (map the (filter (\<lambda>x. x \<noteq> None) (bucket_tab mc))) \<Longrightarrow> merge_get mc (me_hash e) = Some (me_tids e)"
proof -
  let ?xs = "filter (\<lambda>x. x \<noteq> None) (bucket_tab mc)"
  have ok: "probe_ok entry_key bucket_home (bucket_tab mc)" using assms by (simp add: merge_inv_def)
  have eq: "map entry_key ?xs = map Some (map me_hash (map the ?xs))"
    by (auto simp: entry_key_def)
  have "distinct (map Some (map me_hash (map the ?xs)))" using probe_ok_distinct[OF ok] unfolding eq .
  then show "distinct (map me_hash (map the ?xs))" by (simp only: distinct_map)
  show at: "merge_get mc (me_hash e) = Some (me_tids e)" if "e \<in> set (map the ?xs)" for e
    using that merge_get_at[OF assms] by (auto simp: in_set_conv_nth)
  show "set (map me_hash (map the ?xs)) = dom (merge_get mc)"
  proof
    show "set (map me_hash (map the ?xs)) \<subseteq> dom (merge_get mc)" using at by auto
    show "dom (merge_get mc) \<subseteq> set (map me_hash (map the ?xs))"
    proof
      fix h assume "h \<in> dom (merge_get mc)"
      then obtain x where "tab_get entry_key (bucket_tab mc) h = Some x" by (auto simp: merge_get_def)
      then obtain i e where "i < length (bucket_tab mc)" "bucket_tab mc ! i = Some e" "me_hash e = h"
        unfolding tab_get_Some[OF ok] by (auto simp: entry_key_def)
      then show "h \<in> set (map me_hash (map the ?xs))" by (force simp: in_set_conv_nth)
    qed
  qed
qed

text \<open>
  C30: the hash table of a merge groups correctly. Feeding any list of pending entries through
  the collecting callback, from the table of 256 empty buckets, terminates without the
  \<open>table full\<close> error, and the sorted array handed to the tree builder is, for every trigram of
  the list in increasing order, the trigram with its tuple identifiers in list order.
\<close>
theorem merge_groups_entries:
  assumes "max_tuples < 65535" and "\<And>e. e \<in> set es \<Longrightarrow> \<exists>tid. pg_tre_pack_tid max_tuples pk tid = Inr (entry_tid e)"
  shows "\<exists>mc. visit_entries max_tuples pk (collect_pending_cb max_tuples pk) es merge_ctx_init = ret mc
    \<and> map (\<lambda>e. (me_hash e, me_tids e)) (merge_sorted mc)
      = map (\<lambda>h. (h, tids_of es h)) (sorted_list_of_set (entry_hash ` set es))"
proof -
  from visit_collect[where es = es, OF merge_init_inv(1) assms] obtain mc where
    r: "visit_entries max_tuples pk (collect_pending_cb max_tuples pk) es merge_ctx_init = ret mc" "merge_inv mc"
      "\<And>h. merge_get mc h = (if h \<in> entry_hash ` set es then Some (tids_of es h) else None)"
    by (auto simp: merge_init_inv(2))
  let ?xs = "map the (filter (\<lambda>x. x \<noteq> None) (bucket_tab mc))"
  note ent = merge_entries[OF r(2)]
  have "dom (merge_get mc) = entry_hash ` set es" using r(3) by (auto simp: dom_def)
  then have keys: "map me_hash (merge_sorted mc) = sorted_list_of_set (entry_hash ` set es)"
  proof (intro sorted_distinct_set_unique)
    show "sorted (map me_hash (merge_sorted mc))" unfolding merge_sorted_def by (rule sorted_sort_key)
    show "distinct (map me_hash (merge_sorted mc))"
      using ent(1) unfolding merge_sorted_def by (simp only: distinct_map[of me_hash] distinct_sort set_sort)
    have "set (map me_hash (merge_sorted mc)) = set (map me_hash ?xs)" unfolding merge_sorted_def by (simp only: set_map set_sort)
    then show "set (map me_hash (merge_sorted mc)) = set (sorted_list_of_set (entry_hash ` set es))"
      using ent(2) \<open>dom (merge_get mc) = entry_hash ` set es\<close> by simp
  qed simp_all
  have "(me_hash e, me_tids e) = (me_hash e, tids_of es (me_hash e))" if "e \<in> set (merge_sorted mc)" for e
    using ent(3)[of e] that r(3)[of "me_hash e"] by (auto simp: merge_sorted_def split: if_splits)
  then have "map (\<lambda>e. (me_hash e, me_tids e)) (merge_sorted mc) = map (\<lambda>e. (me_hash e, tids_of es (me_hash e))) (merge_sorted mc)"
    by (intro map_cong) auto
  also have "\<dots> = map (\<lambda>h. (h, tids_of es h)) (map me_hash (merge_sorted mc))" by simp
  finally show ?thesis using r(1) unfolding keys by blast
qed

theorem merge_groups_entries_witness:
  "\<exists>mc. visit_entries 291 PG_TRE_TID_DENSE (collect_pending_cb 291 PG_TRE_TID_DENSE)
       [\<lparr> entry_hash = 9, entry_tid = 5, position = 0 \<rparr>, \<lparr> entry_hash = 3, entry_tid = 5, position = 0 \<rparr>] merge_ctx_init = ret mc
     \<and> map (\<lambda>e. (me_hash e, me_tids e)) (merge_sorted mc) = [(3, [5]), (9, [5])]"
proof -
  let ?es = "[\<lparr> entry_hash = 9, entry_tid = 5, position = 0 \<rparr>, \<lparr> entry_hash = 3, entry_tid = 5, position = 0 \<rparr>]"
  have "pg_tre_pack_tid 291 PG_TRE_TID_DENSE \<lparr> ip_blkid = 0, ip_posid = 5 \<rparr> = Inr 5"
    by (simp add: pg_tre_pack_tid_def PG_TRE_DENSE_STRIDE_def Let_def)
  then have "\<exists>tid. pg_tre_pack_tid 291 PG_TRE_TID_DENSE tid = Inr (entry_tid e)" if "e \<in> set ?es" for e
    using that by auto
  from merge_groups_entries[where es = ?es, OF _ this] show ?thesis by (auto simp: tids_of_def)
qed

end
