(* ===== verification/Insert_Properties.thy ===== *)
theory Insert_Properties
  imports Insert_Correct Pending_Properties Query_Properties
begin

text \<open>
  What reading a text and inserting a row guarantee.
\<close>

section \<open>ASCII texts and a single-byte encoding\<close>

lemma ascii_stream:
  assumes "\<And>b. b \<in> set str \<Longrightarrow> \<not> bit b 7" and "n \<le> length str"
  shows "cpstream_chars enc \<lparr> src = str, src_pos = n \<rparr> = ret (map (\<lambda>b. sint (ucast b :: uint32)) (drop n str))"
  using assms(2)
proof (induction "length str - n" arbitrary: n)
  case 0
  then show ?case by (subst cpstream_chars.simps) (simp add: pg_tre_cpstream_next_def)
next
  case (Suc k)
  then have n: "n < length str" by simp
  have nb: "\<not> bit (str ! n) 7" using assms(1) n by (simp add: nth_mem)
  have dec: "pg_tre_decode_char enc (drop n str) = Decoded 1 (ucast (str ! n))"
    using n nb by (simp add: pg_tre_decode_char_def hd_drop_conv_nth)
  have step: "cpstream_chars enc \<lparr> src = str, src_pos = Suc n \<rparr> = ret (map (\<lambda>b. sint (ucast b :: uint32)) (drop (Suc n) str))"
    using Suc n by simp
  have "\<not> sint (ucast (str ! n) :: uint32) < 0" using sint_nonneg[OF byte_small[of "str ! n"]] by simp
  then show ?case using n dec step
    by (subst cpstream_chars.simps) (simp add: pg_tre_cpstream_next_def Cons_nth_drop_Suc[symmetric])
qed

definition latin1 :: encoding where
  "latin1 = \<lparr> mblen = (\<lambda>s. 1), verifymbchar = (\<lambda>s. 1), mb2wchar = (\<lambda>s. ucast (hd s)) \<rparr>"

lemma latin1_ok: "encoding_ok latin1"
  by (simp add: encoding_ok_def latin1_def)

definition sample_text :: "uint8 list" where
  "sample_text = [97, 98, 97, 98, 97]"

lemma sample_text_chars: "cpstream_chars latin1 (pg_tre_cpstream_init sample_text) = ret [97, 98, 97, 98, 97]"
proof -
  have nb: "\<not> bit (97 :: uint8) 7" "\<not> bit (98 :: uint8) 7" by (simp_all add: bit_iff_odd_drop_bit drop_bit_eq_div)
  have "cpstream_chars latin1 \<lparr> src = sample_text, src_pos = 0 \<rparr> = ret (map (\<lambda>b. sint (ucast b :: uint32)) (drop 0 sample_text))"
    by (rule ascii_stream) (use nb in \<open>auto simp: sample_text_def\<close>)
  then show ?thesis by (simp add: pg_tre_cpstream_init_def sample_text_def)
qed

section \<open>Properties\<close>

text \<open>
  C32: reading the characters of a text always ends, whatever bytes it holds, for every encoding
  whose character lengths are positive: either with the characters, none of them negative (so
  none is taken for the end of the stream) and at most one per byte, or with the error for an
  invalid byte sequence.
\<close>
theorem char_stream_ends:
  assumes "encoding_ok enc"
  shows "(\<exists>cps. cpstream_chars enc (pg_tre_cpstream_init str) = ret cps \<and> (\<forall>cp \<in> set cps. 0 \<le> cp) \<and> length cps \<le> length str)
    \<or> (\<exists>i. cpstream_chars enc (pg_tre_cpstream_init str) = raise (Invalid_byte_sequence i))"
  using cpstream_chars_total[OF assms, of "pg_tre_cpstream_init str"] by (simp add: pg_tre_cpstream_init_def)

theorem char_stream_ends_witness:
  "(\<exists>cps. cpstream_chars latin1 (pg_tre_cpstream_init sample_text) = ret cps \<and> (\<forall>cp \<in> set cps. 0 \<le> cp)
      \<and> length cps \<le> length sample_text)
    \<or> (\<exists>i. cpstream_chars latin1 (pg_tre_cpstream_init sample_text) = raise (Invalid_byte_sequence i))"
  by (rule char_stream_ends[OF latin1_ok])

text \<open>
  C31: inserting a row terminates and puts exactly the trigrams of its text into the pending
  list, behind what was there: the hashes appended are those of the windows of the text, each
  once when the text has at most two million bytes, and each with the row's identifier. The
  list stays well formed, and a merge is tried exactly when
  the number of entries now in the list is past its limit (a row without a trigram tries none).
\<close>
theorem insert_lists_trigrams:
  assumes "cpstream_chars enc (pg_tre_cpstream_init str) = ret cps" and "encoding_ok enc"
    and "pending_inv blcksz idx bs" and "0 < pending_capacity blcksz" and "mt < 65535" and "unat (ip_posid tid) \<le> mt"
    and "length str \<le> length blocks" and "distinct blocks" and "\<And>b. b \<in> set blocks \<Longrightarrow> b \<noteq> InvalidBlockNumber \<and> b \<notin> set bs"
  shows "\<exists>idx' bs' hs old. pg_tre_aminsert enc hf blcksz mt pk limit_kb try_merge blocks idx (Some str) tid
      = (if pending_over_limit limit_kb (if hs = [] then 0 else word_of_nat (length old + length hs)) then andThen (try_merge idx') (\<lambda>i. ret (True, i)) else ret (True, idx'))
    \<and> pending_inv blcksz idx' bs' \<and> pending_listing mt pk idx = ret old
    \<and> pending_listing mt pk idx' = ret (old @ map (\<lambda>h. (h, tid, 0)) hs)
    \<and> set hs = text_hashes hf cps \<and> (length str \<le> 2 ^ 21 \<longrightarrow> distinct hs)"
  using aminsert_ret[OF assms listing_inv[OF assms(3)], of hf pk limit_kb try_merge] listing_inv[OF assms(3), of mt pk]
  unfolding tid_items_def by blast

theorem insert_lists_trigrams_witness:
  "\<exists>idx' bs' hs old. pg_tre_aminsert latin1 sample_hash 8192 291 PG_TRE_TID_DENSE 4096 ret [1, 2, 3, 4, 5] sample_index
        (Some sample_text) sample_tid
      = (if pending_over_limit 4096 (if hs = [] then 0 else word_of_nat (length old + length hs)) then andThen (ret idx') (\<lambda>i. ret (True, i)) else ret (True, idx'))
    \<and> pending_inv 8192 idx' bs' \<and> pending_listing 291 PG_TRE_TID_DENSE sample_index = ret old
    \<and> pending_listing 291 PG_TRE_TID_DENSE idx' = ret (old @ map (\<lambda>h. (h, sample_tid, 0)) hs)
    \<and> set hs = text_hashes sample_hash [97, 98, 97, 98, 97] \<and> (length sample_text \<le> 2 ^ 21 \<longrightarrow> distinct hs)"
  by (rule insert_lists_trigrams[OF sample_text_chars latin1_ok sample_index_inv])
     (auto simp: pending_capacity_def sample_tid_def sample_text_def InvalidBlockNumber_def)

end
