(* ===== verification/Filter_Interface.thy ===== *)
theory Filter_Interface
  imports Prelude
begin

text \<open>
  The contract every prefilter of the index must honour: it may say yes too often, never no
  to a key it was given. \<open>one_sided_filter\<close> is the interface and its consequence for a
  client that skips what the filter denies; \<open>mergeable_filter\<close> adds the union of two
  filters (range blooms summarise several tuples that way).
\<close>

locale one_sided_filter =
  fixes fempty :: 'f and fadd :: "'k \<Rightarrow> 'f \<Rightarrow> 'f" and fquery :: "'f \<Rightarrow> 'k \<Rightarrow> bool"
    and finv :: "'f \<Rightarrow> bool"
  assumes finv_empty: "finv fempty"
    and finv_add: "finv f \<Longrightarrow> finv (fadd x f)"
    and fquery_add: "finv f \<Longrightarrow> fquery (fadd x f) x"
    and fquery_keep: "finv f \<Longrightarrow> fquery f x \<Longrightarrow> fquery (fadd y f) x"
begin

lemma finv_fold: "finv f \<Longrightarrow> finv (fold fadd xs f)"
  by (induction xs arbitrary: f) (auto intro: finv_add)

lemma fquery_fold_keep: "finv f \<Longrightarrow> fquery f x \<Longrightarrow> fquery (fold fadd xs f) x"
  by (induction xs arbitrary: f) (auto intro: finv_add fquery_keep)

lemma no_false_negative: "finv f \<Longrightarrow> x \<in> set xs \<Longrightarrow> fquery (fold fadd xs f) x"
proof (induction xs arbitrary: f)
  case (Cons y ys)
  then show ?case
    using fquery_fold_keep[OF finv_add fquery_add] finv_add by (cases "x = y") auto
qed simp

lemma prune_sound:
  "\<not> fquery (fold fadd xs fempty) x \<Longrightarrow> x \<notin> set xs"
  using no_false_negative[OF finv_empty] by blast

end

locale mergeable_filter = one_sided_filter fempty fadd fquery finv
  for fempty :: 'f and fadd :: "'k \<Rightarrow> 'f \<Rightarrow> 'f" and fquery and finv +
  fixes funion :: "'f \<Rightarrow> 'f \<Rightarrow> 'f"
  assumes finv_union: "finv f \<Longrightarrow> finv g \<Longrightarrow> finv (funion f g)"
    and fquery_union1: "finv f \<Longrightarrow> finv g \<Longrightarrow> fquery f x \<Longrightarrow> fquery (funion f g) x"
    and fquery_union2: "finv f \<Longrightarrow> finv g \<Longrightarrow> fquery g x \<Longrightarrow> fquery (funion f g) x"
begin

lemma finv_union_fold: "finv f \<Longrightarrow> \<forall>g \<in> set gs. finv g \<Longrightarrow> finv (fold (\<lambda>g f. funion f g) gs f)"
  by (induction gs arbitrary: f) (auto intro: finv_union)

lemma fquery_union_keep:
  "finv f \<Longrightarrow> \<forall>g \<in> set gs. finv g \<Longrightarrow> fquery f x \<Longrightarrow> fquery (fold (\<lambda>g f. funion f g) gs f) x"
  by (induction gs arbitrary: f) (auto intro: finv_union fquery_union1)

text \<open>A summary of several filters holds every key of each of them.\<close>

lemma summary_no_false_negative:
  assumes "x \<in> set xs" and "xs \<in> set xss"
  shows "fquery (fold (\<lambda>g f. funion f g) (map (\<lambda>xs. fold fadd xs fempty) xss) fempty) x"
proof -
  have "fquery (fold (\<lambda>g f. funion f g) (map (\<lambda>xs. fold fadd xs fempty) xss) f) x"
    if "finv f" for f
    using assms(2) that
  proof (induction xss arbitrary: f)
    case (Cons ys yss)
    let ?g = "fold fadd ys fempty"
    have g: "finv ?g" by (rule finv_fold[OF finv_empty])
    have rest: "\<forall>g \<in> set (map (\<lambda>xs. fold fadd xs fempty) yss). finv g"
      using finv_fold[OF finv_empty] by auto
    show ?case
    proof (cases "xs = ys")
      case True
      then have "fquery ?g x" using no_false_negative[OF finv_empty assms(1)] by simp
      then have "fquery (funion f ?g) x" by (rule fquery_union2[OF Cons.prems(2) g])
      from fquery_union_keep[OF finv_union[OF Cons.prems(2) g] rest this] show ?thesis by simp
    next
      case False
      with Cons.prems(1) have "xs \<in> set yss" by simp
      from Cons.IH[OF this finv_union[OF Cons.prems(2) g]] show ?thesis by simp
    qed
  qed simp
  then show ?thesis using finv_empty by blast
qed

end

end
