(* ===== verification/Bloom.thy ===== *)
theory Bloom
  imports Filter_Interface
begin

text \<open>
  \<open>src/util/bloom.c\<close>: the fixed-size bloom filter of the range and tuple tiers, with double
  hashing. The bit vector that follows the C header inline is the byte list \<open>bits\<close>.
\<close>

record PgTreBloom =
  m_bits :: uint16
  bloom_k :: uint8
  bits :: "uint8 list"

definition bits_bytes :: "uint16 \<Rightarrow> nat" where
  "bits_bytes m = (unat m + 7) div 8"

definition sizeof_PgTreBloom :: nat where "sizeof_PgTreBloom = 4"

definition pg_tre_bloom_size_bytes :: "uint16 \<Rightarrow> nat" where
  "pg_tre_bloom_size_bytes m = MAXALIGN sizeof_PgTreBloom + MAXALIGN (bits_bytes m)"

definition pg_tre_bloom_init :: "uint16 \<Rightarrow> uint8 \<Rightarrow> PgTreBloom" where
  "pg_tre_bloom_init m k = \<lparr> m_bits = m, bloom_k = k, bits = replicate (bits_bytes m) 0 \<rparr>"

definition bloom_set_bit :: "uint32 \<Rightarrow> PgTreBloom \<Rightarrow> PgTreBloom" where
  "bloom_set_bit pos b =
     (let byte_idx = unat pos div 8; bit_idx = unat pos mod 8
      in b\<lparr> bits := (bits b)[byte_idx := (bits b ! byte_idx) OR push_bit bit_idx 1] \<rparr>)"

definition bloom_test_bit :: "PgTreBloom \<Rightarrow> uint32 \<Rightarrow> bool" where
  "bloom_test_bit b pos =
     (let byte_idx = unat pos div 8; bit_idx = unat pos mod 8
      in (bits b ! byte_idx) AND push_bit bit_idx 1 \<noteq> 0)"

text \<open>One advance of the probe position, by addition and conditional subtraction.\<close>

definition probe_next :: "uint32 \<Rightarrow> uint32 \<Rightarrow> uint32 \<Rightarrow> uint32" where
  "probe_next m step pos = (let pos' = pos + step in if pos' \<ge> m then pos' - m else pos')"

definition probe_h1 :: "uint64 \<Rightarrow> uint32" where
  "probe_h1 h = ucast (h AND 0xFFFFFFFF)"

definition probe_h2 :: "uint64 \<Rightarrow> uint32" where
  "probe_h2 h = (let h2 = ucast (drop_bit 32 h) in if h2 = 0 then 1 else h2)"

primrec set_loop :: "uint32 \<Rightarrow> uint32 \<Rightarrow> nat \<Rightarrow> uint32 \<Rightarrow> PgTreBloom \<Rightarrow> PgTreBloom" where
  "set_loop m step 0 pos b = b"
| "set_loop m step (Suc i) pos b = set_loop m step i (probe_next m step pos) (bloom_set_bit pos b)"

definition pg_tre_bloom_add_trigram :: "uint64 \<Rightarrow> PgTreBloom \<Rightarrow> PgTreBloom" where
  "pg_tre_bloom_add_trigram h b =
     (let m = (ucast (m_bits b) :: uint32)
      in if m = 0 then b
         else set_loop m (probe_h2 h mod m) (unat (bloom_k b)) (probe_h1 h mod m) b)"

primrec test_loop :: "uint32 \<Rightarrow> uint32 \<Rightarrow> nat \<Rightarrow> uint32 \<Rightarrow> PgTreBloom \<Rightarrow> bool" where
  "test_loop m step 0 pos b = True"
| "test_loop m step (Suc i) pos b =
     (if \<not> bloom_test_bit b pos then False else test_loop m step i (probe_next m step pos) b)"

definition pg_tre_bloom_contains_trigram :: "PgTreBloom \<Rightarrow> uint64 \<Rightarrow> bool" where
  "pg_tre_bloom_contains_trigram b h =
     (let m = (ucast (m_bits b) :: uint32)
      in if m = 0 then True
         else test_loop m (probe_h2 h mod m) (unat (bloom_k b)) (probe_h1 h mod m) b)"

definition pg_tre_bloom_union :: "PgTreBloom \<Rightarrow> PgTreBloom \<Rightarrow> PgTreBloom" where
  "pg_tre_bloom_union dst src =
     dst\<lparr> bits := map (\<lambda>i. if i < bits_bytes (m_bits dst) then (bits dst ! i) OR (bits src ! i)
                            else bits dst ! i) [0..<length (bits dst)] \<rparr>"

text \<open>The result \<open>None\<close> is the C function's \<open>false\<close>: a format this build cannot decode.\<close>

definition pg_tre_bloom_decode_tuple :: "PgTreBloom \<Rightarrow> uint16 \<Rightarrow> uint8 \<Rightarrow> uint32 \<Rightarrow> PgTreBloom option" where
  "pg_tre_bloom_decode_tuple view m k v =
     (if v = 3 \<or> v = 4 then Some (view\<lparr> m_bits := m, bloom_k := k \<rparr>) else None)"

section \<open>Bits\<close>

definition bloom_wf :: "uint16 \<Rightarrow> uint8 \<Rightarrow> PgTreBloom \<Rightarrow> bool" where
  "bloom_wf m k b \<longleftrightarrow> m_bits b = m \<and> bloom_k b = k \<and> length (bits b) = bits_bytes m"

lemma test_bit_iff: "bloom_test_bit b pos = bit (bits b ! (unat pos div 8)) (unat pos mod 8)"
  unfolding bloom_test_bit_def Let_def bit_iff_and_push_bit_not_eq_0 ..

lemma unat_m32 [simp]: "unat (ucast (m :: uint16) :: uint32) = unat m"
  using unsigned_less[of m, where 'a = nat] by (simp add: unsigned_ucast_eq take_bit_nat_eq_self)

lemma pos_byte: "unat pos < unat m \<Longrightarrow> unat pos div 8 < bits_bytes m"
  by (auto simp: bits_bytes_def)

lemma test_set_bit:
  assumes "bloom_wf m k b" and "unat pos < unat m" and "unat p < unat m"
  shows "bloom_test_bit (bloom_set_bit pos b) p \<longleftrightarrow> p = pos \<or> bloom_test_bit b p"
proof -
  have len: "unat pos div 8 < length (bits b)" "unat p div 8 < length (bits b)"
    using assms pos_byte by (auto simp: bloom_wf_def)
  have eq: "p = pos \<longleftrightarrow> unat p div 8 = unat pos div 8 \<and> unat p mod 8 = unat pos mod 8"
    by (metis div_mult_mod_eq word_unat_eq_iff)
  show ?thesis
    using len unfolding test_bit_iff eq
    by (cases "unat p div 8 = unat pos div 8")
       (auto simp: bloom_set_bit_def Let_def bit_simps)
qed

lemma set_bit_wf [simp]: "bloom_wf m k (bloom_set_bit pos b) = bloom_wf m k b"
  by (simp add: bloom_wf_def bloom_set_bit_def Let_def)

section \<open>Probe sequence\<close>

primrec probes :: "uint32 \<Rightarrow> uint32 \<Rightarrow> nat \<Rightarrow> uint32 \<Rightarrow> uint32 list" where
  "probes m step 0 pos = []"
| "probes m step (Suc i) pos = pos # probes m step i (probe_next m step pos)"

lemma set_loop_fold: "set_loop m step i pos b = fold bloom_set_bit (probes m step i pos) b"
  by (induction i arbitrary: pos b) auto

lemma test_loop_all: "test_loop m step i pos b = list_all (bloom_test_bit b) (probes m step i pos)"
  by (induction i arbitrary: pos) auto

text \<open>The additions never wrap, since both summands are below the 16-bit width.\<close>

lemma probe_next_mod:
  assumes "unat pos < unat (m :: uint16)" and "unat step < unat m"
  shows "unat (probe_next (ucast m) step pos) = (unat pos + unat step) mod unat m"
proof -
  have m16: "unat m < 65536" using unsigned_less[of m, where 'a = nat] by simp
  have sum: "unat (pos + step) = unat pos + unat step"
    using assms m16 by (intro unat_add_lem[THEN iffD1]) simp
  show ?thesis
  proof (cases "unat pos + unat step \<ge> unat m")
    case True
    then have le: "(ucast m :: uint32) \<le> pos + step" by (simp add: word_le_nat_alt sum)
    then have "unat (probe_next (ucast m) step pos) = unat pos + unat step - unat m"
      by (simp add: probe_next_def Let_def unat_sub sum)
    moreover have "(unat pos + unat step) mod unat m = unat pos + unat step - unat m"
      using True assms by (simp add: mod_if)
    ultimately show ?thesis by simp
  next
    case False
    then have "\<not> (ucast m :: uint32) \<le> pos + step" by (simp add: word_le_nat_alt sum)
    with False show ?thesis by (simp add: probe_next_def Let_def sum)
  qed
qed

text \<open>The incremental loop visits exactly the positions of the double-hashing formula.\<close>

lemma probes_formula:
  assumes "unat pos < unat (m :: uint16)" and "unat step < unat m"
  shows "map unat (probes (ucast m) step n pos)
    = map (\<lambda>i. (unat pos + i * unat step) mod unat m) [0..<n]"
  using assms(1)
proof (induction n arbitrary: pos)
  case (Suc n)
  let ?p = "probe_next (ucast m) step pos"
  have m: "0 < unat m" using assms(2) by linarith
  have p: "unat ?p = (unat pos + unat step) mod unat m" by (rule probe_next_mod[OF Suc.prems assms(2)])
  have "map unat (probes (ucast m) step n ?p) = map (\<lambda>i. (unat ?p + i * unat step) mod unat m) [0..<n]"
    by (rule Suc.IH) (simp add: p m)
  also have "\<dots> = map (\<lambda>i. (unat pos + Suc i * unat step) mod unat m) [0..<n]"
    unfolding p by (simp add: mod_simps ac_simps)
  finally show ?case using Suc.prems
    by (simp add: upt_conv_Cons comp_def del: upt_Suc flip: map_Suc_upt)
qed simp

lemma probes_bound:
  assumes "unat pos < unat (m :: uint16)" and "unat step < unat m" and "p \<in> set (probes (ucast m) step n pos)"
  shows "unat p < unat m"
proof -
  have "unat p \<in> set (map unat (probes (ucast m) step n pos))" using assms(3) by simp
  then show ?thesis using assms(2) unfolding probes_formula[OF assms(1,2)] by auto
qed

lemma m32_zero_iff [simp]: "(ucast (m :: uint16) :: uint32) = 0 \<longleftrightarrow> m = 0"
  unfolding word_unat_eq_iff by simp

text \<open>The probe positions of a hash, and add and query in terms of them.\<close>

definition bloom_probes :: "uint16 \<Rightarrow> uint8 \<Rightarrow> uint64 \<Rightarrow> uint32 list" where
  "bloom_probes m k h = probes (ucast m) (probe_h2 h mod ucast m) (unat k) (probe_h1 h mod ucast m)"

lemma bloom_probes_bound: "m \<noteq> 0 \<Longrightarrow> p \<in> set (bloom_probes m k h) \<Longrightarrow> unat p < unat m"
  unfolding bloom_probes_def
  by (rule probes_bound[where n = "unat k"]) (auto simp: unat_mod unat_gt_0)

lemma add_trigram_fold:
  "bloom_wf m k b \<Longrightarrow> m \<noteq> 0 \<Longrightarrow> pg_tre_bloom_add_trigram h b = fold bloom_set_bit (bloom_probes m k h) b"
  by (auto simp: pg_tre_bloom_add_trigram_def bloom_wf_def bloom_probes_def set_loop_fold Let_def)

lemma contains_trigram_all:
  "bloom_wf m k b \<Longrightarrow> m \<noteq> 0 \<Longrightarrow>
     pg_tre_bloom_contains_trigram b h = list_all (bloom_test_bit b) (bloom_probes m k h)"
  by (auto simp: pg_tre_bloom_contains_trigram_def bloom_wf_def bloom_probes_def test_loop_all Let_def)

lemma contains_zero: "m_bits b = 0 \<Longrightarrow> pg_tre_bloom_contains_trigram b h"
  by (simp add: pg_tre_bloom_contains_trigram_def)

lemma add_zero: "m_bits b = 0 \<Longrightarrow> pg_tre_bloom_add_trigram h b = b"
  by (simp add: pg_tre_bloom_add_trigram_def)

lemma fold_set_bit:
  assumes "bloom_wf m k b" and "\<forall>p \<in> set ps. unat p < unat m" and "unat q < unat m"
  shows "bloom_test_bit (fold bloom_set_bit ps b) q \<longleftrightarrow> q \<in> set ps \<or> bloom_test_bit b q"
  using assms(1,2)
proof (induction ps arbitrary: b)
  case (Cons p ps)
  then show ?case using test_set_bit[of m k b p q] assms(3) by auto
qed simp

lemma fold_set_bit_wf: "bloom_wf m k (fold bloom_set_bit ps b) = bloom_wf m k b"
  by (induction ps arbitrary: b) auto

section \<open>The filter contract\<close>

lemma bloom_add_wf: "bloom_wf m k b \<Longrightarrow> bloom_wf m k (pg_tre_bloom_add_trigram h b)"
proof (cases "m = 0")
  case True
  then show "bloom_wf m k b \<Longrightarrow> ?thesis" by (simp add: add_zero bloom_wf_def)
next
  case False
  then show "bloom_wf m k b \<Longrightarrow> ?thesis" by (simp add: add_trigram_fold fold_set_bit_wf)
qed

lemma bloom_contains_add:
  assumes "bloom_wf m k b"
  shows "pg_tre_bloom_contains_trigram (pg_tre_bloom_add_trigram h b) g \<longleftrightarrow>
    pg_tre_bloom_contains_trigram b g \<or>
    (\<forall>p \<in> set (bloom_probes m k g). p \<in> set (bloom_probes m k h) \<or> bloom_test_bit b p)"
proof (cases "m = 0")
  case True
  with assms show ?thesis by (simp add: contains_zero add_zero bloom_wf_def)
next
  case False
  have "bloom_test_bit (pg_tre_bloom_add_trigram h b) p \<longleftrightarrow> p \<in> set (bloom_probes m k h) \<or> bloom_test_bit b p"
    if "p \<in> set (bloom_probes m k g)" for p
    unfolding add_trigram_fold[OF assms False]
    using fold_set_bit[OF assms, of "bloom_probes m k h" p] bloom_probes_bound[OF False] that by blast
  then show ?thesis
    by (auto simp: contains_trigram_all[OF assms False]
        contains_trigram_all[OF bloom_add_wf[OF assms] False] list_all_iff)
qed

lemma bloom_union_wf: "bloom_wf m k b \<Longrightarrow> bloom_wf m k (pg_tre_bloom_union b c)"
  by (simp add: bloom_wf_def pg_tre_bloom_union_def)

lemma test_union:
  assumes "bloom_wf m k b" and "bloom_wf m k c" and "unat p < unat m"
  shows "bloom_test_bit (pg_tre_bloom_union b c) p \<longleftrightarrow> bloom_test_bit b p \<or> bloom_test_bit c p"
  using assms pos_byte[OF assms(3)]
  by (simp add: test_bit_iff pg_tre_bloom_union_def bloom_wf_def bit_or_iff)

lemma bloom_contains_union:
  assumes "bloom_wf m k b" and "bloom_wf m k c"
  shows "pg_tre_bloom_contains_trigram b h \<or> pg_tre_bloom_contains_trigram c h \<Longrightarrow>
    pg_tre_bloom_contains_trigram (pg_tre_bloom_union b c) h"
proof (cases "m = 0")
  case True
  then show ?thesis
    using assms(1) by (simp add: contains_zero bloom_wf_def pg_tre_bloom_union_def)
next
  case False
  have "bloom_test_bit (pg_tre_bloom_union b c) p \<longleftrightarrow> bloom_test_bit b p \<or> bloom_test_bit c p"
    if "p \<in> set (bloom_probes m k h)" for p
    using test_union[OF assms] bloom_probes_bound[OF False that] by blast
  then show "pg_tre_bloom_contains_trigram b h \<or> pg_tre_bloom_contains_trigram c h \<Longrightarrow> ?thesis"
    by (auto simp: contains_trigram_all[OF assms(1) False] contains_trigram_all[OF assms(2) False]
        contains_trigram_all[OF bloom_union_wf[OF assms(1)] False] list_all_iff)
qed

interpretation bloom: mergeable_filter "pg_tre_bloom_init m k" pg_tre_bloom_add_trigram
    pg_tre_bloom_contains_trigram "bloom_wf m k" pg_tre_bloom_union for m k
proof unfold_locales
  show "bloom_wf m k (pg_tre_bloom_init m k)" by (simp add: bloom_wf_def pg_tre_bloom_init_def)
qed (auto simp: bloom_add_wf bloom_contains_add bloom_union_wf bloom_contains_union)

end
