(* ===== verification/Filter_Properties.thy ===== *)
theory Filter_Properties
  imports Bloom Tid_Packing Surf_Query
begin

text \<open>
  The guarantees of the three filters and of the packed tuple identifiers, over their C
  operations: no false negatives of the bloom filter, exact answers of the range filter,
  and an order-preserving round trip of the packing.
\<close>

section \<open>Bloom filter\<close>

text \<open>
  C12: a bloom filter of any size and number of probes never denies a trigram that was
  added to it, whatever else was added before or after.
\<close>
theorem bloom_no_false_negative:
  assumes "h \<in> set hs"
  shows "pg_tre_bloom_contains_trigram (fold pg_tre_bloom_add_trigram hs (pg_tre_bloom_init m k)) h"
  by (rule bloom.no_false_negative[OF bloom.finv_empty assms])

theorem bloom_no_false_negative_witness:
  "pg_tre_bloom_contains_trigram (fold pg_tre_bloom_add_trigram [7, 2 ^ 40 + 3] (pg_tre_bloom_init 128 3)) (2 ^ 40 + 3)"
  by (rule bloom_no_false_negative) simp

text \<open>
  C13: the union of the blooms of several tuples, which the range tier stores for a block
  range, denies no trigram of any of the tuples.
\<close>
theorem bloom_range_summary:
  assumes "h \<in> set hs" and "hs \<in> set tuples"
  shows "pg_tre_bloom_contains_trigram
     (fold (\<lambda>t r. pg_tre_bloom_union r t)
        (map (\<lambda>hs. fold pg_tre_bloom_add_trigram hs (pg_tre_bloom_init m k)) tuples)
        (pg_tre_bloom_init m k)) h"
  by (rule bloom.summary_no_false_negative[OF assms])

theorem bloom_range_summary_witness:
  "pg_tre_bloom_contains_trigram
     (fold (\<lambda>t r. pg_tre_bloom_union r t)
        (map (\<lambda>hs. fold pg_tre_bloom_add_trigram hs (pg_tre_bloom_init 64 2)) [[1], [2, 3]])
        (pg_tre_bloom_init 64 2)) 3"
  by (rule bloom_range_summary[of _ "[2, 3]"]) simp_all

text \<open>
  The incremental probe sequence, which replaces a multiplication and a division per
  probe by an addition and a conditional subtraction on 32-bit words, computes the double
  hashing \<open>(h1 + i * h2) mod m\<close>, without wrap-around, for every filter size.
\<close>
theorem bloom_probes_double_hashing:
  assumes "m \<noteq> 0"
  shows "map unat (bloom_probes m k h) =
    map (\<lambda>i. (unat (probe_h1 h) + i * unat (probe_h2 h)) mod unat m) [0..<unat k]"
proof -
  have m: "0 < unat m" using assms by (simp add: unat_gt_0)
  have lt: "unat (w mod ucast m :: uint32) < unat m" for w :: uint32 using m by (simp add: unat_mod)
  show ?thesis
    unfolding bloom_probes_def probes_formula[OF lt lt]
    by (simp add: unat_mod mod_simps) (metis mod_add_right_eq mod_mult_right_eq)
qed

theorem bloom_probes_double_hashing_witness:
  "map unat (bloom_probes 100 3 30064771167) = [95, 2, 9]"
proof -
  have "probe_h1 30064771167 = 95" "probe_h2 30064771167 = 7" by (simp_all add: probe_h1_def probe_h2_def)
  with bloom_probes_double_hashing[of 100 3 30064771167] show ?thesis by (simp add: upt_rec)
qed

section \<open>Packed tuple identifiers\<close>

text \<open>
  C14: unpacking gives back the packed tuple identifier, in both layouts, for every block
  and every offset the packing accepts.
\<close>
theorem tid_round_trip:
  assumes "max_tuples < 65535" and "pg_tre_pack_tid max_tuples pk tid = Inr p"
  shows "pg_tre_unpack_tid max_tuples pk p = tid"
  by (rule pack_unpack[OF assms])

theorem tid_round_trip_witness:
  "pg_tre_unpack_tid 291 PG_TRE_TID_DENSE (2 * 292 + 7) = \<lparr> ip_blkid = 2, ip_posid = 7 \<rparr>"
  by (rule tid_round_trip) (simp_all add: pg_tre_pack_tid_def PG_TRE_DENSE_STRIDE_def Let_def)

text \<open>
  C15: packed identifiers are ordered like the heap positions, block first, then offset, so
  a posting list in key order is in heap order.
\<close>
theorem tid_order:
  assumes "max_tuples < 65535"
    and "pg_tre_pack_tid max_tuples pk t = Inr p" and "pg_tre_pack_tid max_tuples pk u = Inr q"
  shows "p < q \<longleftrightarrow> ip_blkid t < ip_blkid u \<or> ip_blkid t = ip_blkid u \<and> ip_posid t < ip_posid u"
  by (rule pack_less_iff[OF assms])

theorem tid_order_witness:
  "(1 * 292 + 290 < (2 * 292 + 2 :: uint64)) =
     (ip_blkid \<lparr> ip_blkid = 1, ip_posid = 290 \<rparr> < ip_blkid \<lparr> ip_blkid = 2, ip_posid = 2 \<rparr> \<or>
      ip_blkid \<lparr> ip_blkid = 1, ip_posid = 290 \<rparr> = ip_blkid \<lparr> ip_blkid = 2, ip_posid = 2 \<rparr> \<and>
      ip_posid \<lparr> ip_blkid = 1, ip_posid = 290 \<rparr> < ip_posid \<lparr> ip_blkid = 2, ip_posid = 2 \<rparr>)"
  by (rule tid_order[of 291 PG_TRE_TID_DENSE]) (simp_all add: pg_tre_pack_tid_def PG_TRE_DENSE_STRIDE_def Let_def)

section \<open>Succinct range filter\<close>

definition sample_bitutils :: bitutils where
  "sample_bitutils = \<lparr> pg_popcount64 = (\<lambda>w. length (filter (bit w) [0..<64])),
     pg_rightmost_one_pos64 = (\<lambda>w. hd (filter (bit w) [0..<64])) \<rparr>"

lemma sample_bitutils_ok: "bitutils_ok sample_bitutils"
proof -
  have set: "set (filter (bit w) [0..<64]) = {n. bit w n}" for w :: uint64
    using bit_imp_le_length[of w] by auto
  have card: "length (filter (bit w) [0..<64]) = card {n. bit w n}" for w :: uint64
    using distinct_card[of "filter (bit w) [0..<64]"] set[of w] by simp
  have first: "bit w (hd (filter (bit w) [0..<64])) \<and> (\<forall>n. bit w n \<longrightarrow> hd (filter (bit w) [0..<64]) \<le> n)"
    if "w \<noteq> 0" for w :: uint64
  proof -
    have "\<exists>n. bit w n"
    proof (rule ccontr)
      assume "\<nexists>n. bit w n"
      then have "w = 0" by (intro bit_word_eqI) simp
      with that show False by simp
    qed
    then have ne: "filter (bit w) [0..<64] \<noteq> []" using set[of w] by (metis empty_iff list.set(1) mem_Collect_eq)
    moreover have "sorted (filter (bit w) [0..<64])" by (simp add: sorted_wrt_filter)
    ultimately show ?thesis using set[of w] hd_in_set[OF ne]
      by (metis list.collapse mem_Collect_eq order_refl set_ConsD sorted_simps(2))
  qed
  show ?thesis unfolding bitutils_ok_def sample_bitutils_def using card first by simp
qed

text \<open>
  C10: a range query on the succinct trie built from a sorted key list is exact: it answers
  yes iff some stored key lies in the closed range. The bit-counting functions of the
  server are any that count bits and find the lowest one.
\<close>
theorem surf_range_query_exact:
  assumes "bitutils_ok bu" and "sorted_wrt (<) keys" and "8 * length keys < UINT32_MAX"
  shows "pg_tre_surf_range_overlaps bu (pg_tre_surf_build bu keys) lo hi \<longleftrightarrow> (\<exists>k \<in> set keys. lo \<le> k \<and> k \<le> hi)"
  by (rule surf_range_exact[OF assms])

theorem surf_range_query_exact_witness:
  "\<not> pg_tre_surf_range_overlaps sample_bitutils (pg_tre_surf_build sample_bitutils [5, 300]) 6 299"
  using surf_range_query_exact[OF sample_bitutils_ok, of "[5, 300]" 6 299] by (simp add: UINT32_MAX_def)

text \<open>
  C16: a point query on the succinct trie is exact: it finds a key iff the key was stored.
\<close>
theorem surf_point_query_exact:
  assumes "bitutils_ok bu" and "sorted_wrt (<) keys" and "8 * length keys < UINT32_MAX"
  shows "pg_tre_surf_may_contain bu (pg_tre_surf_build bu keys) key \<longleftrightarrow> key \<in> set keys"
  by (rule surf_may_contain_exact[OF assms])

theorem surf_point_query_exact_witness:
  "pg_tre_surf_may_contain sample_bitutils (pg_tre_surf_build sample_bitutils [5, 300]) 300"
  using surf_point_query_exact[OF sample_bitutils_ok, of "[5, 300]" 300] by (simp add: UINT32_MAX_def)

end
