(* ===== verification/Run_Catalog_Properties.thy ===== *)
theory Run_Catalog_Properties
  imports Run_Catalog_Chain
begin

text \<open>What the run catalog guarantees to a scan and to the flush and merge code that writes it.\<close>

text \<open>The index of the examples: a meta page written before the run fields existed.\<close>

definition sample_meta :: PgTreMetaPageData where
  "sample_meta = (pg_tre_meta_init 700)\<lparr> root_upper := 3, root_range := 4, n_trigrams := 10, n_tuples_indexed := 20,
     next_run_id := 0, run_catalog_head := 0, max_levels := 0 \<rparr>"

definition sample_catalog :: tre_index where
  "sample_catalog = \<lparr> meta_page = sample_meta, catalog_pages = (\<lambda>b. None), pending_pages = (\<lambda>b. None), tree_pages = (\<lambda>b. None) \<rparr>"

definition sample_run :: PgTreRun where
  "sample_run = \<lparr> run_id = 0, level = 1, flags = 1, run_root_upper = 7, run_root_range = 8, n_tuples = 5,
     run_n_trigrams = 6, min_trigram_hash = 100, max_trigram_hash = 200 \<rparr>"

lemma sample_inv: "catalog_inv sample_catalog []"
  by (simp add: sample_catalog_def sample_meta_def pg_tre_meta_init_def catalog_inv_def catalog_wf_def catalog_head_eq run_ids_ok_def)

lemma sample_reachable: "catalog_reachable cap sample_catalog"
  by (rule reach_init) (simp_all add: sample_catalog_def sample_meta_def pg_tre_meta_init_def)

text \<open>
  C24: on every catalog that the writers can reach, iterating over the runs terminates
  without an error, serves the base run first, then stored runs with pairwise distinct
  positive ids, and their number is the count the meta page reports.
\<close>
theorem run_iteration_reachable:
  assumes "catalog_reachable cap cat"
  shows "\<exists>rs. run_catalog_runs cat = ret (implicit_base_run (meta_page cat) # rs)
    \<and> distinct (map run_id (implicit_base_run (meta_page cat) # rs))
    \<and> (\<exists>n. pg_tre_run_count cat = ret n \<and> unat n = Suc (length rs))"
proof -
  from reachable_inv[OF assms] obtain ps where inv: "catalog_inv cat ps" ..
  then have "distinct (map run_id (chain_runs ps))" "\<forall>r \<in> set (chain_runs ps). 0 < run_id r"
    by (simp_all add: catalog_inv_def run_ids_ok_def)
  then have "distinct (map run_id (implicit_base_run (meta_page cat) # chain_runs ps))"
    by (auto simp: implicit_base_run_def)
  moreover have "\<exists>n. pg_tre_run_count cat = ret n \<and> unat n = Suc (length (chain_runs ps))"
    using inv by (auto simp: pg_tre_run_count_def meta_read_ret catalog_inv_def split: if_splits)
  ultimately show ?thesis using inv_drain[OF inv] by blast
qed

theorem run_iteration_reachable_witness:
  "\<exists>rs. run_catalog_runs sample_catalog
     = ret (implicit_base_run (meta_page sample_catalog) # rs)"
  using run_iteration_reachable[OF sample_reachable] by blast

text \<open>
  C25: appending a live run makes it visible and disturbs nothing else: the append returns
  the allocator's next id, and the iterator afterwards yields the same base run and the same
  stored runs in the same order with the new run, stamped with that id, inserted; whether
  the head page had room, was full, or did not exist.
\<close>
theorem run_append_visible:
  assumes "catalog_inv cat ps" and "run_is_live run"
    and "fresh \<noteq> InvalidBlockNumber" and "fresh \<noteq> 0" and "fresh \<notin> dom (catalog_pages cat)"
    and "next_run_id (normalize_runs (meta_page cat)) \<noteq> - 1" and "Suc (length (chain_runs ps)) < 2 ^ 32 - 1"
  shows "\<exists>cat' rs1 rs2.
    run_catalog_runs cat = ret (implicit_base_run (meta_page cat) # rs1 @ rs2)
    \<and> pg_tre_run_catalog_append cap fresh cat run = ret (next_run_id (normalize_runs (meta_page cat)), cat')
    \<and> run_catalog_runs cat'
      = ret (implicit_base_run (meta_page cat) # rs1
             @ run\<lparr> run_id := next_run_id (normalize_runs (meta_page cat)) \<rparr> # rs2)"
  using append_inv[OF assms, of cap] inv_drain[OF assms(1)] inv_drain by metis

theorem run_append_visible_witness:
  "\<exists>cat'. pg_tre_run_catalog_append 126 9 sample_catalog sample_run = ret (1, cat')
     \<and> run_catalog_runs cat'
       = ret [implicit_base_run sample_meta, sample_run\<lparr> run_id := 1 \<rparr>]"
proof -
  have live: "run_is_live sample_run" by (simp add: run_is_live_def sample_run_def PG_TRE_RUN_LIVE_def)
  have one: "next_run_id (normalize_runs sample_meta) = 1"
    by (simp add: normalize_runs_def sample_meta_def pg_tre_meta_init_def Let_def)
  have m: "meta_page sample_catalog = sample_meta" by (simp add: sample_catalog_def)
  have "\<exists>cat' rs1 rs2. run_catalog_runs sample_catalog
      = ret (implicit_base_run sample_meta # rs1 @ rs2)
    \<and> pg_tre_run_catalog_append 126 9 sample_catalog sample_run = ret (1, cat')
    \<and> run_catalog_runs cat'
      = ret (implicit_base_run sample_meta # rs1 @ sample_run\<lparr> run_id := 1 \<rparr> # rs2)"
    by (rule run_append_visible[OF sample_inv live, of 9 126, unfolded one m])
       (simp_all add: InvalidBlockNumber_def sample_catalog_def)
  then show ?thesis using inv_drain[OF sample_inv] by (auto simp: sample_catalog_def)
qed

text \<open>
  C26: replacing the catalog by a list of runs that fits one page leaves the iterator with
  the unchanged base run and exactly those runs; a longer list is refused with an error and
  nothing is written.
\<close>
theorem run_rewrite_installs:
  assumes "catalog_inv cat ps" and "run_ids_ok (next_run_id (normalize_runs (meta_page cat))) rs"
    and "Suc (length rs) < 2 ^ 32"
    and "fresh \<noteq> InvalidBlockNumber" and "fresh \<noteq> 0" and "fresh \<notin> dom (catalog_pages cat)"
  shows "if length rs > cap
    then pg_tre_run_catalog_rewrite cap fresh cat rs = raise (Catalog_rewrite_exceeds_page (length rs))
    else \<exists>cat'. pg_tre_run_catalog_rewrite cap fresh cat rs = ret cat'
      \<and> run_catalog_runs cat' = ret (implicit_base_run (meta_page cat) # rs)"
proof (cases "length rs > cap")
  case False
  then have "length rs \<le> cap" by simp
  from rewrite_inv[OF assms(1) this assms(3,2,4-6)] False inv_drain show ?thesis by metis
qed (simp add: pg_tre_run_catalog_rewrite_def)

theorem run_rewrite_installs_witness:
  "pg_tre_run_catalog_rewrite 1 9 sample_catalog [] = ret (sample_catalog\<lparr> meta_page :=
      sample_meta\<lparr> run_catalog_head := InvalidBlockNumber, n_runs := 0 \<rparr> \<rparr>) \<and>
   (\<exists>cat'. pg_tre_run_catalog_rewrite 1 9 sample_catalog [] = ret cat'
      \<and> run_catalog_runs cat' = ret [implicit_base_run sample_meta])"
  using run_rewrite_installs[OF sample_inv, of "[]" 9 1]
  by (simp add: run_ids_ok_def InvalidBlockNumber_def sample_catalog_def pg_tre_run_catalog_rewrite_def)

text \<open>
  After a collapse the iterator yields the base run alone, with the new roots, and the
  id allocator has not moved.
\<close>
theorem run_collapse_single:
  assumes "catalog_inv cat ps"
  shows "run_catalog_runs (pg_tre_run_catalog_collapse_reset cat upper rng ntri ntup)
    = ret [\<lparr> run_id = 0, level = 1, flags = PG_TRE_RUN_LIVE, run_root_upper = upper, run_root_range = rng,
             n_tuples = ntup, run_n_trigrams = ntri, min_trigram_hash = 0, max_trigram_hash = - 1 \<rparr>]
    \<and> next_run_id (meta_page (pg_tre_run_catalog_collapse_reset cat upper rng ntri ntup)) = next_run_id (meta_page cat)"
  using inv_drain[OF collapse_inv[OF assms]]
  by (simp add: implicit_base_run_def pg_tre_run_catalog_collapse_reset_def)

theorem run_collapse_single_witness:
  "next_run_id (meta_page (pg_tre_run_catalog_collapse_reset sample_catalog 30 31 1 2)) = 0"
  using run_collapse_single[OF sample_inv, of 30 31 1 2] by (simp add: sample_catalog_def sample_meta_def pg_tre_meta_init_def)

end
