(* ===== verification/Build_Properties.thy ===== *)
theory Build_Properties
  imports Build_Correct Filter_Properties
begin

text \<open>
  What the storage of postings promises: the upper tree, the coalesced pages, the chains of
  leaves, the stored range filter, and the build that writes all of them.
\<close>

section \<open>A sample bitmap library\<close>

text \<open>Eight header bytes and eight bytes per member; no call fails.\<close>

primrec sample_parse :: "nat \<Rightarrow> uint8 list \<Rightarrow> uint64 list" where
  "sample_parse 0 bs = []"
| "sample_parse (Suc n) bs = le_word (take 8 bs) # sample_parse n (drop 8 bs)"

definition sample_lib :: sm_lib where
  "sample_lib = \<lparr> sm_bytes = (\<lambda>ms. replicate 8 0 @ word_bytes ms),
     sm_open_copy = (\<lambda>bs. Some (set (sample_parse ((length bs - 8) div 8) (drop 8 bs)))),
     sm_overflows = (\<lambda>n ms. 8 + 8 * length ms > n), build_fails = (\<lambda>ms. False), copy_fails = (\<lambda>a. False),
     union_fails = (\<lambda>a b. False), inter_fails = (\<lambda>a b. False) \<rparr>"

lemma sample_parse_bytes: "sample_parse (length ms) (word_bytes ms) = ms"
  by (induction ms) (simp_all add: word_bytes_def le_word_bytes)

lemma sample_env: "build_env sample_lib 8192"
  by (simp add: build_env_def alloc_ok_def codec_ok_def single_fits_def blcksz_ok_def sample_lib_def sample_parse_bytes posting_leaf_budget_def)

section \<open>The upper tree\<close>

text \<open>
  C35: bulk loading sorted entries ends, three blocks per entry are enough, and a lookup in the
  tree finds every loaded entry, with the blob that was packed for it, and no other hash.
\<close>
theorem upper_bulkload_lookup:
  assumes "\<forall>it \<in> set its. item_ok blcksz it" and "items_sorted its" and "2 \<le> UPPER_INTERNAL_MAX_ENTRIES blcksz"
    and "blocks_ok blocks idx" and "3 * length its \<le> length blocks"
  shows "\<exists>root idx' blocks'. pg_tre_upper_bulkload blcksz blocks idx its = ret (root, idx', blocks') \<and> grown_tree idx idx'
    \<and> (\<forall>it \<in> set its. pg_tre_upper_lookup_root blcksz idx' root (it_hash it) = item_ref blcksz idx' it)
    \<and> (\<forall>h. h \<notin> it_hash ` set its \<longrightarrow> pg_tre_upper_lookup_root blcksz idx' root h = ret None)"
proof -
  have room: "3 * (length its + 0) \<le> length blocks" using assms(5) by simp
  from bulkload_ret[OF assms(1,3,4) room] obtain root idx' blocks' where
    b: "pg_tre_upper_bulkload blcksz blocks idx its = ret (root, idx', blocks')" "grown_tree idx idx'"
      "if its = [] then root = InvalidBlockNumber else root \<noteq> InvalidBlockNumber \<and> upper_tree blcksz (tree_pages idx') root its"
    by (elim exE conjE) (rule that)
  show ?thesis
  proof (cases "its = []")
    case True
    then show ?thesis using b by (auto simp: pg_tre_upper_lookup_root_def)
  next
    case False
    then have "upper_tree blcksz (tree_pages idx') root its" "root \<noteq> InvalidBlockNumber" using b(3) by auto
    then show ?thesis using b(1,2) lookup_tree[OF _ assms(2,1)] by blast
  qed
qed

definition sample_items :: "upper_item list" where
  "sample_items = [\<lparr> it_hash = 3, it_root = InvalidBlockNumber, it_data = [1, 2], it_bytes = 2 \<rparr>,
     \<lparr> it_hash = 8, it_root = 77, it_data = [], it_bytes = 0 \<rparr>]"

definition fresh_index :: tre_index where
  "fresh_index = pg_tre_build_empty 0 True True"

lemma sample_blocks_ok: "blocks_ok (map word_of_nat [1..<n]) fresh_index" if "n \<le> 100"
proof -
  have "inj_on (word_of_nat :: nat \<Rightarrow> BlockNumber) {1..<n}"
  proof (rule inj_onI)
    fix j k assume "j \<in> {1..<n}" "k \<in> {1..<n}" "(word_of_nat j :: BlockNumber) = word_of_nat k"
    then have "unat (word_of_nat j :: uint32) = unat (word_of_nat k :: uint32)" "j < 2 ^ 32" "k < 2 ^ 32" using that by auto
    then show "j = k" by (simp add: unat_of_nat32)
  qed
  moreover have "InvalidBlockNumber \<notin> set (map word_of_nat [1..<n])"
  proof
    assume "InvalidBlockNumber \<in> set (map word_of_nat [1..<n])"
    then obtain k where "k < n" "word_of_nat k = (0xFFFFFFFF :: uint32)" by (auto simp: InvalidBlockNumber_def)
    then have "unat (word_of_nat k :: uint32) = 4294967295" by simp
    then show False using \<open>k < n\<close> that unat_of_nat32[of k] by simp
  qed
  ultimately show ?thesis by (simp add: blocks_ok_def distinct_map fresh_index_def pg_tre_build_empty_def)
qed

theorem upper_bulkload_lookup_witness:
  "\<exists>root idx' blocks'. pg_tre_upper_bulkload 8192 (map word_of_nat [1..<8]) fresh_index sample_items = ret (root, idx', blocks')
     \<and> pg_tre_upper_lookup_root 8192 idx' root 3 = ret (Some \<lparr> ref_root = InvalidBlockNumber, ref_inline = Some [1, 2], ref_bytes = 2 \<rparr>)
     \<and> pg_tre_upper_lookup_root 8192 idx' root 4 = ret None"
proof -
  let ?it = "\<lparr> it_hash = 3, it_root = InvalidBlockNumber, it_data = [1, 2], it_bytes = 2 \<rparr>"
  have nc: "\<not> is_coalesced 2" "\<not> is_coalesced 0" using small_not_coalesced[of 2] small_not_coalesced[of 0] by simp_all
  have ok: "\<forall>it \<in> set sample_items. item_ok 8192 it"
    by (simp add: sample_items_def item_ok_def upper_page_budget_def)
  have so: "items_sorted sample_items" by (simp add: sample_items_def items_sorted_def)
  have r: "item_ref 8192 idx ?it = ret (Some \<lparr> ref_root = InvalidBlockNumber, ref_inline = Some [1, 2], ref_bytes = 2 \<rparr>)" for idx
    using nc by (simp add: item_ref_def)
  obtain root idx' blocks' where b: "pg_tre_upper_bulkload 8192 (map word_of_nat [1..<8]) fresh_index sample_items = ret (root, idx', blocks')"
      "\<forall>it \<in> set sample_items. pg_tre_upper_lookup_root 8192 idx' root (it_hash it) = item_ref 8192 idx' it"
      "\<forall>h. h \<notin> it_hash ` set sample_items \<longrightarrow> pg_tre_upper_lookup_root 8192 idx' root h = ret None"
    using upper_bulkload_lookup[OF ok so _ sample_blocks_ok, of 8]
    by (auto simp: UPPER_INTERNAL_MAX_ENTRIES_def sample_items_def)
  have "pg_tre_upper_lookup_root 8192 idx' root 3 = item_ref 8192 idx' ?it" using b(2) by (simp add: sample_items_def)
  moreover have "pg_tre_upper_lookup_root 8192 idx' root 4 = ret None" using b(3) by (simp add: sample_items_def)
  ultimately show ?thesis using b(1) r by auto
qed

section \<open>Coalesced pages\<close>

text \<open>The additions of a list of postings, with the places they were given.\<close>

definition coalesced_add_all :: "nat \<Rightarrow> (uint64 \<times> uint8 list) list \<Rightarrow> PgTreCoalescedWriter \<times> tre_index \<times> BlockNumber list
    \<Rightarrow> ((BlockNumber \<times> uint16) list \<times> PgTreCoalescedWriter \<times> tre_index \<times> BlockNumber list) outcome" where
  "coalesced_add_all blcksz es st =
     ofold (\<lambda>(h, d) (ats, st). andThen (pg_tre_coalesced_add blcksz h d [] st) (\<lambda>(at, st'). ret (ats @ [at], st'))) es ([], st)"

lemma add_all_ret:
  assumes "blcksz_ok blcksz" and "\<forall>e \<in> set es. slot_entry_ok blcksz (snd e) []" and "writer_inv blcksz (zip ats0 es0) (w, idx, blocks)"
    and "length es \<le> length blocks" and "length ats0 = length es0"
  shows "\<exists>ats w' idx' blocks'. ofold (\<lambda>(h, d) (ats, st). andThen (pg_tre_coalesced_add blcksz h d [] st) (\<lambda>(at, st'). ret (ats @ [at], st')))
      es (ats0, w, idx, blocks) = ret (ats0 @ ats, w', idx', blocks') \<and> length ats = length es
    \<and> writer_inv blcksz (zip (ats0 @ ats) (es0 @ es)) (w', idx', blocks')"
  using assms(2-5)
proof (induction es arbitrary: ats0 es0 w idx blocks)
  case (Cons e es)
  obtain h d where e: "e = (h, d)" by (cases e)
  have "slot_entry_ok blcksz d []" "blocks \<noteq> []" using Cons.prems e by auto
  from coalesced_add_ret[OF assms(1) this(1) Cons.prems(2) this(2), of h] obtain at w1 idx1 blocks1 where
    a: "pg_tre_coalesced_add blcksz h d [] (w, idx, blocks) = ret (at, w1, idx1, blocks1)"
      "writer_inv blcksz (zip ats0 es0 @ [(at, (h, d))]) (w1, idx1, blocks1)" "length blocks \<le> Suc (length blocks1)" by blast
  have "writer_inv blcksz (zip (ats0 @ [at]) (es0 @ [e])) (w1, idx1, blocks1)" using a(2) Cons.prems(4) e by simp
  from Cons.IH[OF _ this] Cons.prems a(3) obtain ats w' idx' blocks' where
    r: "ofold (\<lambda>(h, d) (ats, st). andThen (pg_tre_coalesced_add blcksz h d [] st) (\<lambda>(at, st'). ret (ats @ [at], st')))
        es (ats0 @ [at], w1, idx1, blocks1) = ret ((ats0 @ [at]) @ ats, w', idx', blocks')" "length ats = length es"
      "writer_inv blcksz (zip ((ats0 @ [at]) @ ats) ((es0 @ [e]) @ es)) (w', idx', blocks')" by force
  show ?case using a(1) r e by (intro exI[of _ "at # ats"] exI[of _ w'] exI[of _ idx'] exI[of _ blocks']) simp
qed simp



section \<open>Chains of posting leaves\<close>

text \<open>
  C37: reading a chain of posting leaves ends and gives the union of the leaves, whatever their
  number, if at most one of them is empty; the 64 slots of the counter are never exhausted.
\<close>
theorem posting_chain_union:
  assumes "alloc_ok lib" and "post_seg lib blcksz (tree_pages idx) root ss" and "ss \<noteq> []" and "length ss < 2 ^ 64"
    and "length (filter (\<lambda>s. s = {}) ss) \<le> 1"
  shows "pg_tre_posting_materialize lib blcksz idx root None 0 = ret (Some (\<Union> (set ss)))"
  by (rule materialize_chain[OF assms])

definition sample_leaf :: "uint64 list \<Rightarrow> BlockNumber \<Rightarrow> tree_page" where
  "sample_leaf ms right = Posting_leaf \<lparr> post_right = right, post_min_tid = 0, post_max_tid = 0, sparsemap_data = sm_bytes sample_lib ms,
     payload_bytes = 0, payload_offset = 0, post_n = 0, post_deleted = False \<rparr>"

definition sample_chain :: "uint64 list list \<Rightarrow> tre_index" where
  "sample_chain mss = fresh_index\<lparr> tree_pages := (\<lambda>b. if unat b < length mss
     then Some (sample_leaf (mss ! unat b) (if Suc (unat b) < length mss then b + 1 else InvalidBlockNumber)) else None) \<rparr>"

lemma sample_codec: "sm_open_copy sample_lib (sm_bytes sample_lib ms) = Some (set ms)" "length (sm_bytes sample_lib ms) = 8 + 8 * length ms"
  by (simp_all add: sample_lib_def sample_parse_bytes)

lemma sample_page:
  "unat b < length mss \<Longrightarrow> tree_pages (sample_chain mss) b
     = Some (sample_leaf (mss ! unat b) (if Suc (unat b) < length mss then b + 1 else InvalidBlockNumber))"
  by (simp add: sample_chain_def)

lemma sample_leaf_valid: "length ms < 100 \<Longrightarrow> sample_leaf ms right = Posting_leaf hdr \<Longrightarrow> posting_leaf_header_valid 8192 hdr
    \<and> sm_open_copy sample_lib (sparsemap_data hdr) = Some (set ms) \<and> post_right hdr = right"
  by (auto simp: sample_leaf_def posting_leaf_header_valid_def posting_leaf_budget_def sample_codec)

lemma sample_seg:
  assumes "length mss < 100" and "\<forall>ms \<in> set mss. length ms < 100" and "i \<le> length mss"
  shows "post_seg sample_lib 8192 (tree_pages (sample_chain mss)) (if i < length mss then word_of_nat i else InvalidBlockNumber) (map set (drop i mss))"
  using assms(3)
proof (induction "length mss - i" arbitrary: i)
  case (Suc k)
  then have i: "i < length mss" "k = length mss - Suc i" "Suc i \<le> length mss" by auto
  have u: "unat (word_of_nat j :: uint32) = j" if "j < 100" for j using that by (intro unat_of_nat32) simp
  have ne: "(word_of_nat i :: uint32) \<noteq> InvalidBlockNumber"
  proof
    assume "(word_of_nat i :: uint32) = InvalidBlockNumber"
    then have "unat (word_of_nat i :: uint32) = unat InvalidBlockNumber" by simp
    then show False using u[of i] i(1) assms(1) by (simp add: InvalidBlockNumber_def)
  qed
  let ?nx = "if Suc i < length mss then word_of_nat (Suc i) else InvalidBlockNumber"
  have "tree_pages (sample_chain mss) (word_of_nat i) = Some (sample_leaf (mss ! i) ?nx)"
    using i(1) assms(1) u[of i] by (subst sample_page) (auto simp: add.commute)
  moreover obtain hdr where "sample_leaf (mss ! i) ?nx = Posting_leaf hdr" unfolding sample_leaf_def by blast
  moreover have "length (mss ! i) < 100" using assms(2) i(1) by simp
  ultimately show ?case using sample_leaf_valid[of "mss ! i" ?nx hdr] Suc.hyps(1)[OF i(2,3)] ne i(1)
    by (simp add: Cons_nth_drop_Suc[symmetric])
qed simp

theorem posting_chain_union_witness:
  "pg_tre_posting_materialize sample_lib 8192 (sample_chain [[4, 7], [], [9]]) 0 None 0 = ret (Some {4, 7, 9})"
proof -
  let ?idx = "sample_chain [[4, 7], [], [9]]"
  have "post_seg sample_lib 8192 (tree_pages ?idx) 0 [{4, 7}, {}, {9}]"
    using sample_seg[of "[[4, 7], [], [9]]" 0] by simp
  moreover have "alloc_ok sample_lib" using sample_env by (simp add: build_env_def)
  ultimately show ?thesis using posting_chain_union[of sample_lib 8192 ?idx 0 "[{4, 7}, {}, {9}]"] by auto
qed


section \<open>The sort\<close>

text \<open>
  Comparing two encoded sort entries byte by byte is comparing hash, identifier and key in
  this order, so the sorted stream groups each trigram and lists its identifiers in heap order;
  decoding gives the entry back.
\<close>
theorem sort_entry_order:
  "decode_entry (encode_entry h tid key) = (h, tid, key)
   \<and> (memcmp_less (encode_entry h tid key) (encode_entry h' tid' key')
        \<longleftrightarrow> h < h' \<or> h = h' \<and> (tid < tid' \<or> tid = tid' \<and> key < key'))"
  by (simp add: decode_encode encode_less)

section \<open>The build\<close>

text \<open>
  C33: the build ends, and then a scan of the run it wrote reads, for every trigram of the sorted
  stream, exactly the identifiers that the stream has for it, and for every other trigram that
  it is absent, whichever form (inline, coalesced slot, leaf, chain of leaves) each posting took.
\<close>
theorem build_then_read:
  assumes "build_env lib blcksz" and "min_freq \<le> 1" and "sorted (map fst stream)" and "\<forall>e \<in> set stream. entry_packs mt pk e"
    and "length stream < 2 ^ 28" and "blocks_ok blocks idx" and "7 * length stream \<le> length blocks" and "\<forall>n. length (buf n) = n"
  shows "\<exists>idx'. ambuild_tail lib bu blcksz mt min_freq coalesce buf pk stream heap_tuples (idx, blocks) = ret idx'
    \<and> (\<forall>h. run_posting lib blcksz idx' (root_upper (meta_page idx')) h
          = ret (if h \<in> fst ` set stream then Some (stream_tids mt pk stream h) else None))"
  using ambuild_ret[OF assms(1-7) assms(8)[rule_format], where bu = bu and coalesce = coalesce and heap_tuples = heap_tuples] by blast

definition sample_stream :: "entry list" where
  "sample_stream = [(5, 0x10001, 7), (5, 0x10002, 7), (9, 0x10001, 8)]"

lemma sample_stream_packs: "\<forall>e \<in> set sample_stream. entry_packs 291 PG_TRE_TID_LEGACY e"
  by (simp add: sample_stream_def entry_packs_def pg_tre_pack_tid_def)

theorem build_then_read_witness:
  "\<exists>idx'. ambuild_tail sample_lib sample_bitutils 8192 291 1 True (\<lambda>n. replicate n 0) PG_TRE_TID_LEGACY sample_stream 2
       (fresh_index, map word_of_nat [1..<30]) = ret idx'
    \<and> run_posting sample_lib 8192 idx' (root_upper (meta_page idx')) 5 = ret (Some (stream_tids 291 PG_TRE_TID_LEGACY sample_stream 5))
    \<and> run_posting sample_lib 8192 idx' (root_upper (meta_page idx')) 6 = ret None"
proof -
  have "sorted (map fst sample_stream)" "length sample_stream = 3" by (simp_all add: sample_stream_def)
  then show ?thesis
    using build_then_read[OF sample_env _ _ sample_stream_packs _ sample_blocks_ok, of 1 30 "\<lambda>n. replicate n 0" sample_bitutils True 2]
    by (auto simp: sample_stream_def)
qed

text \<open>
  C34: if no two trigrams of the stream share a hash, the range filter that the build stores reads
  back from its pages and answers range queries about exactly the keys of the stream.
\<close>
theorem built_filter_exact:
  assumes "build_env lib blcksz" and "bitutils_ok bu" and "min_freq \<le> 1" and "sorted (map fst stream)" and "\<forall>e \<in> set stream. entry_packs mt pk e"
    and "length stream < 2 ^ 28" and "blocks_ok blocks idx" and "7 * length stream \<le> length blocks" and "\<forall>n. length (buf n) = n" and "stream \<noteq> []"
    and "\<forall>h t k t' k'. (h, t, k) \<in> set stream \<and> (h, t', k') \<in> set stream \<longrightarrow> k = k'"
  shows "\<exists>idx' s. ambuild_tail lib bu blcksz mt min_freq coalesce buf pk stream heap_tuples (idx, blocks) = ret idx'
    \<and> pg_tre_surf_read bu idx' (root_surf (meta_page idx')) = ret (Some s)
    \<and> (\<forall>lo hi. pg_tre_surf_range_overlaps bu s lo hi \<longleftrightarrow> (\<exists>h t k. (h, t, k) \<in> set stream \<and> lo \<le> k \<and> k \<le> hi))"
proof -
  from ambuild_ret[OF assms(1,3-8) assms(9)[rule_format], where bu = bu and coalesce = coalesce and heap_tuples = heap_tuples] assms(10)
  obtain idx' ks where a: "ambuild_tail lib bu blcksz mt min_freq coalesce buf pk stream heap_tuples (idx, blocks) = ret idx'"
      "pg_tre_surf_read bu idx' (root_surf (meta_page idx')) = ret (Some (pg_tre_surf_build bu ks))" "sorted_wrt (<) ks" "keys_inv stream ks" by auto
  have "k \<in> set ks \<longleftrightarrow> (\<exists>h t. (h, t, k) \<in> set stream)" for k by (rule keys_complete[OF a(4) assms(11)])
  moreover have "8 * length ks < UINT32_MAX" using a(4) assms(6) by (auto simp: keys_inv_def UINT32_MAX_def)
  ultimately have "\<forall>lo hi. pg_tre_surf_range_overlaps bu (pg_tre_surf_build bu ks) lo hi \<longleftrightarrow> (\<exists>h t k. (h, t, k) \<in> set stream \<and> lo \<le> k \<and> k \<le> hi)"
    using surf_range_exact[OF assms(2) a(3)] unfolding Bex_def by metis
  then show ?thesis using a(1,2) by blast
qed

theorem built_filter_exact_witness:
  "\<exists>idx' s. ambuild_tail sample_lib sample_bitutils 8192 291 1 True (\<lambda>n. replicate n 0) PG_TRE_TID_LEGACY sample_stream 2
       (fresh_index, map word_of_nat [1..<30]) = ret idx'
    \<and> pg_tre_surf_read sample_bitutils idx' (root_surf (meta_page idx')) = ret (Some s)
    \<and> pg_tre_surf_range_overlaps sample_bitutils s 8 100 \<and> \<not> pg_tre_surf_range_overlaps sample_bitutils s 9 100"
proof -
  have s: "sorted (map fst sample_stream)" "length sample_stream = 3" "sample_stream \<noteq> []"
      "\<forall>h t k t' k'. (h, t, k) \<in> set sample_stream \<and> (h, t', k') \<in> set sample_stream \<longrightarrow> k = k'"
    by (auto simp: sample_stream_def)
  obtain idx' f where f: "ambuild_tail sample_lib sample_bitutils 8192 291 1 True (\<lambda>n. replicate n 0) PG_TRE_TID_LEGACY sample_stream 2
       (fresh_index, map word_of_nat [1..<30]) = ret idx'" "pg_tre_surf_read sample_bitutils idx' (root_surf (meta_page idx')) = ret (Some f)"
      "\<forall>lo hi. pg_tre_surf_range_overlaps sample_bitutils f lo hi \<longleftrightarrow> (\<exists>h t k. (h, t, k) \<in> set sample_stream \<and> lo \<le> k \<and> k \<le> hi)"
    using built_filter_exact[OF sample_env sample_bitutils_ok _ s(1) sample_stream_packs _ sample_blocks_ok _ _ s(3,4), of 1 30 "\<lambda>n. replicate n 0" True 2]
    by (auto simp: s(2))
  have "(9, 65537, 8) \<in> set sample_stream \<and> (8 :: uint64) \<le> 8 \<and> (8 :: uint64) \<le> 100" by (simp add: sample_stream_def)
  then have "pg_tre_surf_range_overlaps sample_bitutils f 8 100" using f(3) by blast
  moreover have "\<not> pg_tre_surf_range_overlaps sample_bitutils f 9 100" using f(3) by (auto simp: sample_stream_def)
  ultimately show ?thesis using f(1,2) by blast
qed

end
