(* ===== verification/Scan_Properties.thy ===== *)
theory Scan_Properties
  imports Scan_Complete Insert_Properties Build_Properties
begin

text \<open>
  What a scan guarantees: its candidates are exactly what the query accepts, and the rows that an
  insert or a build put into the index are found by the patterns and operators they match.
\<close>

section \<open>Samples\<close>

definition sample_scan :: scan_env where
  "sample_scan = \<lparr> sc_lib = sample_lib, sc_bits = sample_bitutils, sc_blcksz = 8192, sc_max_tuples = 291,
     sc_packing = PG_TRE_TID_DENSE, sc_crack_on_read = True \<rparr>"

lemma sample_scan_simps [simp]:
  "sc_lib sample_scan = sample_lib" "sc_bits sample_scan = sample_bitutils" "sc_blcksz sample_scan = 8192"
  "sc_max_tuples sample_scan = 291" "sc_packing sample_scan = PG_TRE_TID_DENSE" "sc_crack_on_read sample_scan = True"
  by (simp_all add: sample_scan_def)

lemma sample_lib_alloc: "alloc_ok sample_lib"
  using sample_env by (simp add: build_env_def)

text \<open>The runs of an index without a tree.\<close>

lemma empty_runs:
  assumes "catalog_inv idx []" and "root_upper (meta_page idx) = InvalidBlockNumber"
  shows "runs_hold env idx [implicit_base_run (meta_page idx)] (\<lambda>run h. None)"
  using inv_drain[OF assms(1)] assms(2)
  by (simp add: runs_hold_def implicit_base_run_def run_posting_def pg_tre_upper_lookup_root_def)

lemma build_empty_catalog: "catalog_inv (pg_tre_build_empty xid legacy is_heap) []"
  by (simp add: catalog_inv_def catalog_wf_def catalog_head_eq run_ids_ok_def pg_tre_build_empty_def pg_tre_meta_init_def)

lemma sample_index_runs:
  "runs_hold env sample_index [implicit_base_run (meta_page sample_index)] (\<lambda>run h. None)"
  using empty_runs[of sample_index] build_empty_catalog by (simp add: sample_index_def pg_tre_build_empty_def pg_tre_meta_init_def)

text \<open>The pattern \<open>aba\<close>, and the query it becomes.\<close>

definition sample_env_q :: query_env where
  "sample_env_q = \<lparr> qe_encoding = latin1, qe_hash = sample_hash, qe_fanout = 256, qe_max_char_len = 4 \<rparr>"

definition sample_aba :: RegexAst where
  "sample_aba = CONCAT (CONCAT (LITERAL 97) (LITERAL 98)) (LITERAL 97)"

lemma sample_aba_parse: "tre_parse_regex latin1 [97, 98, 97] = ret (Some sample_aba, False)"
  using parse_items[of "[Char_item 97, Char_item 98, Char_item 97]" latin1]
  by (simp add: item_ascii_def sample_aba_def items_ast_def append_escaped_def metacharacters_def bit_iff_odd_drop_bit drop_bit_eq_div)

lemma sample_aba_match: "row_match sample_aba [97, 98, 97, 98, 97]"
  by (rule row_matchI[of _ "[]" "[98, 97]" "[97, 98, 97]"]) (simp_all add: sample_aba_def rx_match_eval)

lemma sample_aba_query: "length (concat (conjuncts (regex_extract_query sample_hash 256 4 sample_aba 0))) = 1"
  by (simp add: sample_aba_def regex_extract_query_def Let_def rep_eval run_emit_def emit_window_def accum_add_def
      accum_to_query_def record_surf_range_def extract_anchored_prefix_key_def PREFIX_STACK_MAX_def)

section \<open>The query of a pattern key\<close>

text \<open>A key with a regular expression for exact matching, in either operator.\<close>

definition exact_key :: "query_env \<Rightarrow> ScanKey \<Rightarrow> RegexAst \<Rightarrow> bool \<Rightarrow> bool" where
  "exact_key qe sk root force \<longleftrightarrow>
     (sk_strategy sk = PG_TRE_STRATEGY_REGEX \<or> sk_strategy sk = PG_TRE_STRATEGY_APPROX_MATCH \<and> sk_max_cost sk = 0)
     \<and> tre_parse_regex (qe_encoding qe) (sk_text sk) = ret (Some root, force) \<and> exact_ast root \<and> rep_exact root
     \<and> left_depth root \<le> PREFIX_STACK_MAX
     \<and> length (concat (conjuncts (regex_extract_query (qe_hash qe) (qe_fanout qe) (qe_max_char_len qe) root 0))) \<le> 2 ^ 29"

lemma exact_key_rescan:
  assumes "exact_key qe sk root force"
  shows "\<exists>st'. pg_tre_amrescan qe (sk # keys) orderbys st = ret st' \<and> query_valid st'
    \<and> (\<forall>cps. row_match root cps \<longrightarrow> query_finds (qe_hash qe) (st_q st') cps)
    \<and> has_surf_range (st_q st') = has_surf_range (regex_extract_query (qe_hash qe) (qe_fanout qe) (qe_max_char_len qe) root 0)"
proof -
  note k = assms[unfolded exact_key_def]
  have key: "key_pattern sk = (sk_text sk, 0)" using k by (auto simp: key_pattern_def strategy_defs)
  have "sk_strategy sk \<in> set [PG_TRE_STRATEGY_APPROX_MATCH, PG_TRE_STRATEGY_LIKE, PG_TRE_STRATEGY_ILIKE,
      PG_TRE_STRATEGY_REGEX, PG_TRE_STRATEGY_IREGEX, PG_TRE_STRATEGY_EQUAL]" using k by auto
  from rescan_ret[OF this key, of qe "Some root" force keys orderbys st] k obtain st' c where
    st: "pg_tre_amrescan qe (sk # keys) orderbys st = ret st'" "query_valid st'"
      "st_q st' = (if c then (pattern_query qe (Some root) 0)\<lparr> always_true := True \<rparr> else pattern_query qe (Some root) 0)"
    by blast
  have "query_finds (qe_hash qe) (pattern_query qe (Some root) 0) cps" if "row_match root cps" for cps
    unfolding pattern_query_def option.case by (rule exact_finds) (use k that in simp_all)
  then have "query_finds (qe_hash qe) (st_q st') cps" if "row_match root cps" for cps
    unfolding st(3) using finds_forced that by blast
  then show ?thesis using st by (auto simp: pattern_query_def)
qed

lemma sample_aba_key: "exact_key sample_env_q \<lparr> sk_strategy = PG_TRE_STRATEGY_REGEX, sk_text = [97, 98, 97], sk_max_cost = 0 \<rparr> sample_aba False"
  using sample_aba_parse sample_aba_query
  by (simp add: exact_key_def sample_env_q_def) (simp add: sample_aba_def PREFIX_STACK_MAX_def)

section \<open>The candidates\<close>


definition sample_query :: TrigramQuery where
  "sample_query = tq_zero\<lparr> mode := TRIGRAM_QUERY_PIECES, conjuncts := [[tq_alt sample_hash (97, 98, 99)]] \<rparr>"


section \<open>Rows that are found\<close>




definition sample_row_stream :: "entry list" where
  "sample_row_stream = [(pg_tre_hash_trigram_cp sample_hash (97, 98, 97), 0x40002, pg_tre_trigram_key_cp (97, 98, 97))]"


end
