(* ===== verification/Knn_Properties.thy ===== *)
theory Knn_Properties
  imports Scan_Properties "HOL-Library.Multiset"
begin

text \<open>
  What the ordered scan guarantees: fetching row after row yields every candidate that matches
  the pattern of the ORDER BY, once, in the order of the distances.
\<close>

section \<open>The comparison and the sort\<close>

text \<open>The comparison orders by distance, then by identifier.\<close>

lemma knn_cmp_iff: "knn_entry_cmp a b \<le> 0 \<longleftrightarrow> entry_dist a < entry_dist b \<or> entry_dist a = entry_dist b \<and> packed_tid a \<le> packed_tid b"
  by (auto simp: knn_entry_cmp_def)

lemma sort_key_tie:
  fixes f :: "'a \<Rightarrow> 'b::linorder"
  assumes "sorted_wrt R xs"
  shows "sorted_wrt (\<lambda>x y. f x < f y \<or> f x = f y \<and> R x y) (sort_key f xs)"
proof -
  have filt: "filter (\<lambda>y. f y = k) (sort_key f xs) = filter (\<lambda>y. f y = k) xs" for k by (simp add: sort_key_stable)
  have "f (sort_key f xs ! i) < f (sort_key f xs ! j) \<or> f (sort_key f xs ! i) = f (sort_key f xs ! j) \<and> R (sort_key f xs ! i) (sort_key f xs ! j)"
    if ij: "i < j" "j < length xs" for i j
  proof (cases "f (sort_key f xs ! i) = f (sort_key f xs ! j)")
    case True
    let ?k = "f (sort_key f xs ! i)" and ?ys = "sort_key f xs"
    have "?ys = take (Suc i) ?ys @ drop (Suc i) ?ys" by simp
    moreover have "?ys ! i \<in> set (filter (\<lambda>y. f y = ?k) (take (Suc i) ?ys))" using ij by (auto simp: in_set_conv_nth intro!: exI[of _ i])
    moreover have "?ys ! j \<in> set (filter (\<lambda>y. f y = ?k) (drop (Suc i) ?ys))" using ij True by (auto simp: in_set_conv_nth intro!: exI[of _ "j - Suc i"])
    moreover have "sorted_wrt R (filter (\<lambda>y. f y = ?k) ?ys)" unfolding filt using assms by (rule sorted_wrt_filter)
    ultimately have "R (?ys ! i) (?ys ! j)" by (metis (no_types, lifting) filter_append sorted_wrt_append)
    then show ?thesis using True by simp
  next
    case False
    have "f (sort_key f xs ! i) \<le> f (sort_key f xs ! j)"
      using sorted_nth_mono[OF sorted_sort_key[of f xs], of i j] ij by simp
    then show ?thesis using False by simp
  qed
  then show ?thesis by (simp add: sorted_wrt_iff_nth_less)
qed

lemma knn_sort_sorted: "sorted_wrt (\<lambda>a b. knn_entry_cmp a b \<le> 0) (knn_sort es)"
proof -
  have "sorted_wrt (\<lambda>a b. packed_tid a \<le> packed_tid b) (sort_key packed_tid es)"
    using sorted_sort_key[of packed_tid es] by (simp add: sorted_map)
  from sort_key_tie[OF this, of entry_dist] show ?thesis by (simp add: knn_sort_def knn_cmp_iff)
qed

lemma knn_sort_mset: "mset (knn_sort es) = mset es"
  by (simp add: knn_sort_def)

section \<open>The candidates that match\<close>

definition matching_entry :: "scan_env \<Rightarrow> heap_env \<Rightarrow> uint64 \<Rightarrow> OrderEntry option" where
  "matching_entry env hp t =
     (case heap_fetch hp (pg_tre_unpack_tid (sc_max_tuples env) (sc_packing env) t) of
        Some (Some body) \<Rightarrow> (case do_match hp body of Some (Inr (Some d)) \<Rightarrow> Some \<lparr> packed_tid = t, entry_dist = d \<rparr> | _ \<Rightarrow> None)
      | _ \<Rightarrow> None)"

text \<open>Every match of the engine ends without running into its time limit.\<close>

definition match_ends :: "heap_env \<Rightarrow> bool" where
  "match_ends hp \<longleftrightarrow> (\<forall>body. \<exists>d. do_match hp body = ret d)"

lemma knn_candidate_ret:
  assumes "match_ends hp"
  shows "knn_candidate env hp True t es = ret (es @ (case matching_entry env hp t of None \<Rightarrow> [] | Some e \<Rightarrow> [e]))"
proof (cases "heap_fetch hp (pg_tre_unpack_tid (sc_max_tuples env) (sc_packing env) t)")
  case (Some row)
  show ?thesis
  proof (cases row)
    case (Some body)
    obtain d where "do_match hp body = ret d" using assms unfolding match_ends_def by blast
    then show ?thesis using Some \<open>_ = Some row\<close>
      by (cases d; simp add: knn_candidate_def matching_entry_def row_distance_def; simp add: ret_def)
  qed (use Some in \<open>simp add: knn_candidate_def matching_entry_def row_distance_def\<close>)
qed (simp add: knn_candidate_def matching_entry_def)

lemma knn_candidates_ret:
  assumes "match_ends hp"
  shows "ofold (knn_candidate env hp True) ts es = ret (es @ List.map_filter (matching_entry env hp) ts)"
  by (induction ts arbitrary: es) (auto simp: knn_candidate_ret[OF assms] map_filter_simps split: option.splits)

section \<open>Fetching\<close>

text \<open>The server's loop: at most \<open>n\<close> rows, or all of them when fewer are left.\<close>

primrec fetch_rows ::
    "scan_env \<Rightarrow> heap_env \<Rightarrow> (nat \<Rightarrow> tre_index) \<Rightarrow> tre_index \<Rightarrow> bool \<Rightarrow> nat \<Rightarrow> TreScanState
      \<Rightarrow> ((ItemPointer \<times> int option) list \<times> TreScanState) outcome" where
  "fetch_rows env hp view idx have_orderby 0 st = ret ([], st)"
| "fetch_rows env hp view idx have_orderby (Suc n) st =
     andThen (pg_tre_amgettuple env hp view idx have_orderby True st) (\<lambda>(r, st1).
       case r of
         None \<Rightarrow> ret ([], st1)
       | Some row \<Rightarrow> andThen (fetch_rows env hp view idx have_orderby n st1) (\<lambda>(rows, st2). ret (row # rows, st2)))"

definition entry_row :: "scan_env \<Rightarrow> OrderEntry \<Rightarrow> ItemPointer \<times> int option" where
  "entry_row env e = (pg_tre_unpack_tid (sc_max_tuples env) (sc_packing env) (packed_tid e), Some (entry_dist e))"

lemma fetch_ready:
  assumes "knn_ready st" and "knn_pos st \<le> length (knn_entries st)" and "length (knn_entries st) - knn_pos st < n"
  shows "fetch_rows env hp view idx True n st
    = ret (map (entry_row env) (drop (knn_pos st) (knn_entries st)), st\<lparr> knn_pos := length (knn_entries st) \<rparr>)"
  using assms
proof (induction n arbitrary: st)
  case (Suc n)
  show ?case
  proof (cases "knn_pos st = length (knn_entries st)")
    case True
    then show ?thesis using Suc.prems(1) by (simp add: pg_tre_amgettuple_def flip: True)
  next
    case False
    then have lt: "knn_pos st < length (knn_entries st)" using Suc.prems(2) by simp
    let ?st = "st\<lparr> knn_pos := knn_pos st + 1 \<rparr>"
    have "fetch_rows env hp view idx True n ?st = ret (map (entry_row env) (drop (knn_pos st + 1) (knn_entries st)), st\<lparr> knn_pos := length (knn_entries st) \<rparr>)"
      using Suc.IH[of ?st] Suc.prems lt by simp
    then show ?thesis using lt Suc.prems(1)
      by (simp add: pg_tre_amgettuple_def entry_row_def[abs_def] Let_def Cons_nth_drop_Suc[symmetric])
  qed
qed simp

lemma knn_build_ret:
  assumes "query_valid st" and "pg_tre_surf_prefilter_rejects (sc_bits env) (view 0) (st_q st) = ret False"
    and "tre_compute_candidate_sm env view idx (st_q st) = ret (False, m)" and "match_ends hp"
  shows "knn_build env hp view idx True st
    = ret (st\<lparr> knn_entries := knn_sort (List.map_filter (matching_entry env hp) (sm_members (members m))), knn_pos := 0, knn_ready := True \<rparr>)"
proof -
  have none: "sm_members a = []" if "\<not> card a > 0" for a
  proof -
    have "a = {}" using that by (simp add: card_gt_0_iff)
    then show ?thesis by (simp add: sm_members_def)
  qed
  show ?thesis
    using assms(1-3) none knn_candidates_ret[OF assms(4), of env _ "[]"]
    by (cases m) (auto simp: knn_build_def map_filter_simps sm_members_def[of "{}"] knn_sort_def)
qed

lemma matching_entries_set:
  "set (List.map_filter (matching_entry env hp) ts)
    = {\<lparr> packed_tid = t, entry_dist = d \<rparr> | t body d. t \<in> set ts \<and> heap_fetch hp (pg_tre_unpack_tid (sc_max_tuples env) (sc_packing env) t) = Some (Some body)
         \<and> do_match hp body = ret (Some d)}"
proof -
  have "matching_entry env hp t = Some e \<longleftrightarrow> (\<exists>body d. heap_fetch hp (pg_tre_unpack_tid (sc_max_tuples env) (sc_packing env) t) = Some (Some body)
      \<and> do_match hp body = ret (Some d) \<and> e = \<lparr> packed_tid = t, entry_dist = d \<rparr>)" for t e
    by (auto simp: matching_entry_def ret_def split: option.splits sum.splits)
  then show ?thesis by (auto simp: List.map_filter_def image_iff) (metis option.sel)+
qed

lemma entries_length: "length (List.map_filter f (sm_members a)) \<le> card a"
proof -
  have "length (List.map_filter f xs) \<le> length xs" for xs :: "uint64 list" by (induction xs) (auto simp: map_filter_simps split: option.splits)
  also have "length (sm_members a) \<le> card a" using length_filter_le[of _ "sorted_list_of_set a"] by (simp add: sm_members_def)
  finally show ?thesis .
qed

lemma entries_distinct: "distinct (List.map_filter (matching_entry env hp) (sm_members a))"
proof -
  have "distinct ts \<Longrightarrow> distinct (List.map_filter (matching_entry env hp) ts)" for ts
    by (induction ts) (auto simp: map_filter_simps matching_entries_set matching_entry_def split: option.splits sum.splits)
  then show ?thesis by (simp add: sm_members_def)
qed

section \<open>Properties\<close>

text \<open>
  C8: an ordered scan yields its rows in the order of their distance. Whatever the candidates
  are, if every match ends, fetching row after row ends after at most one call more than there
  are candidates; the rows are those candidates that the heap shows and the pattern of the ORDER
  BY matches, each once and with its distance, ordered by distance and then by identifier. (The
  all-ones word is no row identifier.)
\<close>
theorem knn_rows_in_order:
  assumes "query_valid st" and "\<not> knn_ready st" and "pg_tre_surf_prefilter_rejects (sc_bits env) (view 0) (st_q st) = ret False"
    and "tre_compute_candidate_sm env view idx (st_q st) = ret (False, m)" and "match_ends hp"
  shows "\<exists>es st'. fetch_rows env hp view idx True (Suc (card (members m))) st = ret (map (entry_row env) es, st')
    \<and> sorted_wrt (\<lambda>a b. knn_entry_cmp a b \<le> 0) es \<and> sorted (map entry_dist es) \<and> distinct es
    \<and> set es = {\<lparr> packed_tid = t, entry_dist = d \<rparr> | t body d. t \<in> members m \<and> t \<noteq> - 1
         \<and> heap_fetch hp (pg_tre_unpack_tid (sc_max_tuples env) (sc_packing env) t) = Some (Some body) \<and> do_match hp body = ret (Some d)}"
proof -
  let ?fs = "List.map_filter (matching_entry env hp) (sm_members (members m))"
  define es where "es = knn_sort ?fs"
  define st1 where "st1 = st\<lparr> knn_entries := es, knn_pos := 0, knn_ready := True \<rparr>"
  have b: "knn_build env hp view idx True st = ret st1" using knn_build_ret[OF assms(1,3-5)] by (simp add: st1_def es_def)
  have "pg_tre_amgettuple env hp view idx True True st = pg_tre_amgettuple env hp view idx True True st1"
    using b assms(2) by (simp add: pg_tre_amgettuple_def st1_def)
  then have f: "fetch_rows env hp view idx True (Suc k) st = fetch_rows env hp view idx True (Suc k) st1" for k by simp
  have ms: "mset es = mset ?fs" by (simp add: es_def knn_sort_mset)
  have "length es \<le> card (members m)" using entries_length mset_eq_length[OF ms] by metis
  then have "fetch_rows env hp view idx True (Suc (card (members m))) st1 = ret (map (entry_row env) es, st1\<lparr> knn_pos := length es \<rparr>)"
    using fetch_ready[of st1 "Suc (card (members m))" env hp view idx] by (simp add: st1_def)
  moreover have "sorted_wrt (\<lambda>a b. knn_entry_cmp a b \<le> 0) es" unfolding es_def by (rule knn_sort_sorted)
  moreover have "sorted (map entry_dist es)" by (simp add: es_def knn_sort_def)
  moreover have "distinct es" using entries_distinct mset_eq_imp_distinct_iff[OF ms] by blast
  moreover have "set es = set ?fs" by (rule mset_eq_setD[OF ms])
  moreover have "set (sm_members (members m)) = members m - {- 1}" by (auto simp: sm_members_def)
  ultimately show ?thesis unfolding f matching_entries_set by auto
qed

definition sample_heap :: heap_env where
  "sample_heap = \<lparr> heap_rows = [], heap_fetch = (\<lambda>tid. Some (Some [97, 98])), root_offset = (\<lambda>b off. 0),
     do_match = (\<lambda>body. ret (Some (int (length body)))) \<rparr>"

definition sample_state :: TreScanState where
  "sample_state = pg_tre_ambeginscan\<lparr> query_valid := True, st_q := sample_query \<rparr>"

theorem knn_rows_in_order_witness:
  "\<exists>m es st'. tre_compute_candidate_sm sample_scan (\<lambda>i. sample_pending) sample_index sample_query = ret (False, m)
    \<and> fetch_rows sample_scan sample_heap (\<lambda>i. sample_pending) sample_index True (Suc (card (members m))) sample_state = ret (map (entry_row sample_scan) es, st')
    \<and> sorted (map entry_dist es)
    \<and> set es = {\<lparr> packed_tid = t, entry_dist = 2 \<rparr> | t. t \<in> members m \<and> t \<noteq> - 1}"
proof -
  obtain m where m: "tre_compute_candidate_sm sample_scan (\<lambda>i. sample_pending) sample_index sample_query = ret (False, m)"
    using candidates_all_ret[where env = sample_scan and view = "\<lambda>i. sample_pending" and n = 0,
        OF _ sample_index_runs _ _ _ _ refl sample_pending_inv, of sample_query]
    by (auto simp: sample_lib_alloc sample_query_def tq_zero_def query_wf_def postings_nonempty_def append_history_def)
  have pre: "pg_tre_surf_prefilter_rejects (sc_bits sample_scan) sample_pending (st_q sample_state) = ret False"
    by (simp add: pg_tre_surf_prefilter_rejects_def sample_state_def sample_query_def tq_zero_def)
  have q: "query_valid sample_state" "\<not> knn_ready sample_state" "st_q sample_state = sample_query"
    by (simp_all add: sample_state_def pg_tre_ambeginscan_def)
  have "match_ends sample_heap" by (simp add: match_ends_def sample_heap_def)
  from knn_rows_in_order[where view = "\<lambda>i. sample_pending" and env = sample_scan and idx = sample_index, OF q(1,2) pre _ this, of m] m q(3)
  obtain es st' where r: "fetch_rows sample_scan sample_heap (\<lambda>i. sample_pending) sample_index True (Suc (card (members m))) sample_state = ret (map (entry_row sample_scan) es, st')"
      "sorted (map entry_dist es)" "set es = {\<lparr> packed_tid = t, entry_dist = d \<rparr> | t body d. t \<in> members m \<and> t \<noteq> - 1
         \<and> heap_fetch sample_heap (pg_tre_unpack_tid 291 PG_TRE_TID_DENSE t) = Some (Some body) \<and> do_match sample_heap body = ret (Some d)}" by auto
  have "set es = {\<lparr> packed_tid = t, entry_dist = 2 \<rparr> | t. t \<in> members m \<and> t \<noteq> - 1}" unfolding r(3) by (simp add: sample_heap_def)
  then show ?thesis using m r(1,2) by blast
qed

end
