(* ===== verification/Spec2Isabelle.thy ===== *)
theory Spec2Isabelle
  imports Query_Properties Parser_Properties Filter_Properties Run_Catalog_Properties Pending_Properties Insert_Properties Build_Properties Scan_Properties Knn_Properties
begin

text \<open>
  A model of \<open>pg_tre\<close>, a PostgreSQL index access method for approximate and exact regular
  expression search over trigrams, and the proofs of its main guarantees. File names are relative
  to \<open>src/\<close> of the repository.

  \<^bold>\<open>The program.\<close> A text column is indexed by the trigrams (windows of three characters) of its
  rows. CREATE INDEX sorts (trigram hash, row, trigram key) entries and writes, per trigram, a
  posting (a compressed bitmap of row identifiers), an upper tree from hash to posting, and a
  succinct filter over the trigram keys. An insert appends its trigrams to a pending list, which a
  merge later empties. A query pattern is tokenised, parsed to a syntax tree and compiled to a
  trigram query; a scan reads the pending list, resolves the trigrams over all runs of the index
  and returns the candidate rows, which the server rechecks.

  \<^bold>\<open>Query side.\<close>
  \<^item> \<open>Trigram_Hash\<close> (\<open>util/hash.c\<close>), \<open>Regex_Ast\<close> (\<open>query/regex_ast.c\<close>), \<open>Trigram_Query\<close>
    (\<open>include/pg_tre/regex_ast.h\<close>): hashes and keys, syntax tree and classes, the query and what
    it accepts. \<open>Regex_Semantics\<close> is the meaning of a pattern, the reference of the theorems.
  \<^item> \<open>Extract_Run\<close>, \<open>Extract_Pieces\<close>, \<open>Extract_Sound\<close>, \<open>Extract\<close> (\<open>query/extract.c\<close>), \<open>Uleven\<close>
    (\<open>query/uleven.c\<close>), \<open>Tiling\<close>, \<open>Tiling_Sound\<close> (\<open>query/tiling.c\<close>): compilation for exact
    patterns and for a budget of edits. \<open>Query_Properties\<close>: no matching row is lost, and the
    patterns for which the code does lose one.
  \<^item> \<open>Tokenizer\<close> (\<open>query/tokens.c\<close>), \<open>Regex_Parser\<close>, \<open>Regex_Parser_Correct\<close> (\<open>query/parser.c\<close>,
    \<open>query/tre_grammar.y\<close>), \<open>Like_Translate\<close> (\<open>query/like_translate.c\<close>): from the text of a
    pattern to its tree. The grammar is an inductive relation, and the parser, which stands for
    the tables that a generator makes from it, is proved equivalent. \<open>Parser_Properties\<close>: reading
    a pattern ends, and the operators on texts lose no row.

  \<^bold>\<open>Filters.\<close> \<open>Filter_Interface\<close> states what an approximate filter owes its client; \<open>Bloom\<close>
  (\<open>util/bloom.c\<close>) and \<open>Surf\<close>, \<open>Surf_Bits\<close>, \<open>Surf_Trie\<close>, \<open>Surf_Query\<close> (\<open>util/surf.c\<close>) provide it.
  \<open>Tid_Packing\<close> (\<open>include/pg_tre/page.h\<close>) packs row identifiers. \<open>Filter_Properties\<close>: no false
  negatives, exact range queries, round trips.

  \<^bold>\<open>Storage.\<close> \<open>Outcome\<close> is the result of code that may raise or not return. \<open>Index_Pages\<close> is the
  index: the meta page and the pages of each kind as maps from block numbers, so that sharing and
  overwriting of blocks are part of the model. \<open>Sparsemap\<close> is the bitmap as its clients use it.
  \<^item> \<open>Run_Catalog\<close>, \<open>Run_Catalog_Chain\<close> (\<open>pages/run_catalog.c\<close>): the runs and their iterator.
  \<^item> \<open>Pending\<close>, \<open>Pending_Chain\<close>, \<open>Pending_Read\<close> (\<open>pages/pending.c\<close>): appends, scans that race with
    appends, the bounded scan of a merge and its finalisation. \<open>Linear_Probe\<close> states open
    addressing once, as a locale; \<open>Merge_Table\<close> (the table of a merge), \<open>Insert_Correct\<close> (the set
    of seen trigrams), \<open>Scan_Correct\<close> (the crack cache) interpret it.
  \<^item> \<open>Upper_Tree\<close>, \<open>Upper_Tree_Correct\<close> (\<open>pages/upper.c\<close>), \<open>Coalesced\<close> (\<open>pages/coalesced.c\<close>),
    \<open>Posting\<close>, \<open>Posting_Correct\<close>, \<open>Posting_Build\<close> (\<open>pages/posting.c\<close>), \<open>Surf_Page\<close>
    (\<open>pages/surf_page.c\<close>): the trees and pages, and that reading inverts writing.
  \<^item> \<open>Char_Stream\<close> (\<open>util/utf8.c\<close>), \<open>Insert\<close> (\<open>am/aminsert.c\<close>), \<open>Build\<close>, \<open>Build_Correct\<close>
    (\<open>am/ambuild.c\<close>): the text, the insert of a row, the build from the sorted stream.
  The properties are in \<open>Run_Catalog_Properties\<close>, \<open>Pending_Properties\<close>, \<open>Insert_Properties\<close> and
  \<open>Build_Properties\<close>.

  \<^bold>\<open>Scan.\<close> \<open>Scan\<close>, \<open>Scan_Am\<close> (\<open>am/amscan.c\<close>): the query of the scan keys, the overlay of pending
  entries, the cache of resolved trigrams, the three ways to combine postings, the range
  prefilter, the bitmap, and the rows in the order of their distance. \<open>Scan_Correct\<close> and
  \<open>Scan_Complete\<close>: the candidates are what the query accepts, and the bitmap holds the rows that
  were inserted or built. \<open>Scan_Properties\<close> and \<open>Knn_Properties\<close> state this end to end, from the
  bytes of a row and of a pattern to the bitmap or the ordered rows.

  \<^bold>\<open>Conventions and bounds.\<close> Loops that could run forever are partial functions; every theorem
  about them includes that they return. Errors raised with \<open>ereport\<close> are values. Machine integers
  have the width of the code where it matters (hashes, keys, block numbers, offsets, counters).
  The blocks that extending the file hands out come as a list; the theorems say how many suffice:
  one per pending entry, three per entry of the upper tree, seven per entry of the build, for
  streams of fewer than \<open>2 ^ 28\<close> entries (beyond that the 32-bit counters of the filter's image
  could wrap). The server's mixing functions of the hash, its population count, its encodings, block size and
  row limit, and the bitmap library are arguments, with what the code relies on as named
  hypotheses (\<open>bitutils_ok\<close>, \<open>encoding_ok\<close>, \<open>alloc_ok\<close>, \<open>codec_ok\<close>), each shown satisfiable by the
  samples of the witnesses.

  \<^bold>\<open>Not modelled.\<close> The bitmap library itself (\<open>util/sparsemap.c\<close>, a general container kept in the
  tree: a set for its clients); the rebuild of the tree by a merge, the merging of levels and the
  deletion by vacuum; the heap scan and the parallel workers of the build; the SQL-callable
  diagnostics, settings, cost and selectivity estimates (floating point and catalog access); the
  heap and the matching engine behind the recheck and the ordered scan, which are parameters;
  memory contexts, locks and the write-ahead log, except that the order of page writes inside a
  record and the interleaving of readers with writers are kept.
\<close>

end
